(* ===== verification/Prelude.thy ===== *)
theory Prelude
  imports Main "HOL-Library.Word"
begin

text \<open>
  Shared vocabulary of the development: machine integers at their width, Rust's
  \<^verbatim>\<open>Result<_, String>\<close> as a sum whose left side is the message, the
  checked signed arithmetic of the standard library, decimal formatting, little-endian
  byte strings, and the generic lemmas the components share. Text is a
  \<^typ>\<open>string\<close> whose characters are the bytes of its UTF-8 form.
\<close>

unbundle bit_operations_syntax

named_theorems result_simps \<open>rewriting of result-valued code\<close>

section \<open>Machine integers\<close>

type_synonym u8 = "8 word"
type_synonym i16 = "16 word"
type_synonym u16 = "16 word"
type_synonym i32 = "32 word"
type_synonym u32 = "32 word"
type_synonym i64 = "64 word"
type_synonym u64 = "64 word"

text \<open>
  A signed word is read with \<^const>\<open>sint\<close>; the checked operations answer
  \<^const>\<open>None\<close> exactly when the mathematical result does not fit the width.
\<close>

definition fits_signed :: "'a::len itself \<Rightarrow> int \<Rightarrow> bool" where
  "fits_signed _ r \<longleftrightarrow> - (2 ^ (LENGTH('a) - 1)) \<le> r \<and> r < 2 ^ (LENGTH('a) - 1)"

definition checked_add_s :: "'a::len word \<Rightarrow> 'a word \<Rightarrow> 'a word option" where
  "checked_add_s a b = (if fits_signed TYPE('a) (sint a + sint b) then Some (a + b) else None)"

definition checked_sub_s :: "'a::len word \<Rightarrow> 'a word \<Rightarrow> 'a word option" where
  "checked_sub_s a b = (if fits_signed TYPE('a) (sint a - sint b) then Some (a - b) else None)"

definition checked_mul_s :: "'a::len word \<Rightarrow> 'a word \<Rightarrow> 'a word option" where
  "checked_mul_s a b = (if fits_signed TYPE('a) (sint a * sint b) then Some (a * b) else None)"

lemma fits_signed_sint: "fits_signed TYPE('a::len) (sint (w :: 'a word))"
  using sint_greater_eq[of w] sint_less[of w] by (simp add: fits_signed_def)

lemma sint_of_int_fits: "fits_signed TYPE('a::len) r \<Longrightarrow> sint (of_int r :: 'a word) = r"
  by (cases "LENGTH('a)") (simp_all add: fits_signed_def signed_of_int signed_take_bit_int_eq_self_iff)

lemma sint_add_fits:
  "fits_signed TYPE('a::len) (sint a + sint b) \<Longrightarrow> sint (a + b :: 'a word) = sint a + sint b"
  using sint_of_int_fits[of "sint a + sint b", where 'a = 'a] by simp

lemma sint_sub_fits:
  "fits_signed TYPE('a::len) (sint a - sint b) \<Longrightarrow> sint (a - b :: 'a word) = sint a - sint b"
  using sint_of_int_fits[of "sint a - sint b", where 'a = 'a] by simp

lemma sint_mul_fits:
  "fits_signed TYPE('a::len) (sint a * sint b) \<Longrightarrow> sint (a * b :: 'a word) = sint a * sint b"
  using sint_of_int_fits[of "sint a * sint b", where 'a = 'a] by simp

lemma checked_add_s_Some:
  "checked_add_s a b = Some c \<Longrightarrow> sint c = sint a + sint b"
  by (auto simp: checked_add_s_def sint_add_fits split: if_splits)

lemma checked_sub_s_Some:
  "checked_sub_s a b = Some c \<Longrightarrow> sint c = sint a - sint b"
  by (auto simp: checked_sub_s_def sint_sub_fits split: if_splits)

lemma checked_mul_s_Some:
  "checked_mul_s a b = Some c \<Longrightarrow> sint c = sint a * sint b"
  by (auto simp: checked_mul_s_def sint_mul_fits split: if_splits)

lemma sint_eq_iff: "sint (a :: 'a::len word) = sint b \<longleftrightarrow> a = b"
  by (auto intro: signed_word_eqI)

lemma unat_of_nat_small: "n < 2 ^ LENGTH('a) \<Longrightarrow> unat (of_nat n :: 'a::len word) = n"
  by (simp add: unat_of_nat take_bit_nat_eq_self)

section \<open>Results\<close>

type_synonym 'a result = "string + 'a"

definition rbind :: "'a result \<Rightarrow> ('a \<Rightarrow> 'b result) \<Rightarrow> 'b result" where
  "rbind m f = (case m of Inl e \<Rightarrow> Inl e | Inr x \<Rightarrow> f x)"

lemma rbind_simps [simp, result_simps]:
  "rbind (Inl e) f = Inl e"
  "rbind (Inr x) f = f x"
  by (simp_all add: rbind_def)

lemma rbind_Inr_iff [result_simps]:
  "rbind m f = Inr y \<longleftrightarrow> (\<exists>x. m = Inr x \<and> f x = Inr y)"
  by (cases m) auto

lemma rbind_Inl_iff [result_simps]:
  "rbind m f = Inl e \<longleftrightarrow> m = Inl e \<or> (\<exists>x. m = Inr x \<and> f x = Inl e)"
  by (cases m) auto

lemma rbind_assoc: "rbind (rbind m f) g = rbind m (\<lambda>x. rbind (f x) g)"
  by (cases m) simp_all

definition ok_or :: "'a option \<Rightarrow> string \<Rightarrow> 'a result" where
  "ok_or x e = (case x of None \<Rightarrow> Inl e | Some v \<Rightarrow> Inr v)"

lemma ok_or_simps [simp, result_simps]:
  "ok_or None e = Inl e"
  "ok_or (Some v) e = Inr v"
  by (simp_all add: ok_or_def)

lemma ok_or_Inr_iff [result_simps]: "ok_or x e = Inr v \<longleftrightarrow> x = Some v"
  by (cases x) simp_all

text \<open>Collecting an iterator of results stops at the first error, left to right.\<close>

fun mapR :: "('a \<Rightarrow> 'b result) \<Rightarrow> 'a list \<Rightarrow> 'b list result" where
  "mapR f [] = Inr []"
| "mapR f (x # xs) = rbind (f x) (\<lambda>y. rbind (mapR f xs) (\<lambda>ys. Inr (y # ys)))"

lemma mapR_Inr_iff [result_simps]:
  "mapR f xs = Inr ys \<longleftrightarrow> list_all2 (\<lambda>x y. f x = Inr y) xs ys"
  by (induction xs arbitrary: ys) (auto simp: result_simps list_all2_Cons1)

lemma mapR_self: "mapR (\<lambda>t. t) xs = Inr ys \<Longrightarrow> xs = map Inr ys"
  by (auto simp: mapR_Inr_iff list_all2_conv_all_nth intro: nth_equalityI)

lemma mapR_length: "mapR f xs = Inr ys \<Longrightarrow> length ys = length xs"
  by (auto simp: mapR_Inr_iff dest: list_all2_lengthD)

lemma mapR_nth: "mapR f xs = Inr ys \<Longrightarrow> i < length xs \<Longrightarrow> f (xs ! i) = Inr (ys ! i)"
  by (auto simp: mapR_Inr_iff dest: list_all2_nthD)

lemma mapR_total: "(\<And>x. x \<in> set xs \<Longrightarrow> f x = Inr (g x)) \<Longrightarrow> mapR f xs = Inr (map g xs)"
  by (induction xs) auto

lemma mapR_Inl_iff:
  "mapR f xs = Inl e \<longleftrightarrow>
     (\<exists>i < length xs. f (xs ! i) = Inl e \<and> (\<forall>j < i. \<exists>y. f (xs ! j) = Inr y))"
proof (induction xs)
  case Nil
  then show ?case by simp
next
  case (Cons x xs)
  show ?case
  proof (cases "f x")
    case (Inl e')
    then show ?thesis by (fastforce simp: less_Suc_eq_0_disj)
  next
    case (Inr y)
    then have "mapR f (x # xs) = Inl e \<longleftrightarrow> mapR f xs = Inl e"
      by (auto simp: result_simps)
    also have "\<dots> \<longleftrightarrow> (\<exists>i < length (x # xs). f ((x # xs) ! i) = Inl e \<and>
        (\<forall>j < i. \<exists>y. f ((x # xs) ! j) = Inr y))"
      unfolding Cons.IH using Inr by (simp add: Ex_less_Suc2 All_less_Suc2)
    finally show ?thesis .
  qed
qed


text \<open>A \<^verbatim>\<open>for\<close> loop whose body may return early with an error.\<close>

fun foldR :: "('s \<Rightarrow> 'a \<Rightarrow> 's result) \<Rightarrow> 's \<Rightarrow> 'a list \<Rightarrow> 's result" where
  "foldR f s [] = Inr s"
| "foldR f s (x # xs) = rbind (f s x) (\<lambda>s'. foldR f s' xs)"

lemma foldR_append: "foldR f s (xs @ ys) = rbind (foldR f s xs) (\<lambda>s'. foldR f s' ys)"
  by (induction xs arbitrary: s) (simp_all add: rbind_assoc)

lemma foldR_invariant:
  assumes "foldR f s xs = Inr t" and "P s"
    and "\<And>s x s'. P s \<Longrightarrow> x \<in> set xs \<Longrightarrow> f s x = Inr s' \<Longrightarrow> P s'"
  shows "P t"
  using assms
proof (induction xs arbitrary: s)
  case Nil
  then show ?case by simp
next
  case (Cons x xs)
  from Cons.prems(1) obtain s' where step: "f s x = Inr s'" and rest: "foldR f s' xs = Inr t"
    by (auto simp: result_simps)
  have "P s'"
    by (rule Cons.prems(3)[OF Cons.prems(2) _ step]) simp
  with rest show ?case
    by (rule Cons.IH) (auto intro: Cons.prems(3))
qed

text \<open>\<^verbatim>\<open>Ctx::ctx\<close>: prefix an error with the entry point that raised it.\<close>

definition ctx :: "string \<Rightarrow> 'a result \<Rightarrow> 'a result" where
  "ctx who r = (case r of Inl e \<Rightarrow> Inl (who @ '': '' @ e) | Inr x \<Rightarrow> Inr x)"

lemma ctx_simps [simp, result_simps]:
  "ctx who (Inl e) = Inl (who @ '': '' @ e)"
  "ctx who (Inr x) = Inr x"
  by (simp_all add: ctx_def)

lemma ctx_Inr_iff [result_simps]: "ctx who r = Inr x \<longleftrightarrow> r = Inr x"
  by (cases r) simp_all

text \<open>
  An outcome is a result or None, which stands for a panic or for behaviour the language
  leaves undefined.
\<close>

type_synonym 'a outcome = "'a result option"

definition obind :: "'a outcome \<Rightarrow> ('a \<Rightarrow> 'b outcome) \<Rightarrow> 'b outcome" where
  "obind m f = (case m of None \<Rightarrow> None | Some (Inl e) \<Rightarrow> Some (Inl e) | Some (Inr x) \<Rightarrow> f x)"

lemma obind_simps [simp, result_simps]:
  "obind None f = None"
  "obind (Some (Inl e)) f = Some (Inl e)"
  "obind (Some (Inr x)) f = f x"
  by (simp_all add: obind_def)

lemma obind_Inr_iff [result_simps]:
  "obind m f = Some (Inr y) \<longleftrightarrow> (\<exists>x. m = Some (Inr x) \<and> f x = Some (Inr y))"
  by (auto simp: obind_def split: option.splits sum.splits)

fun foldO :: "('s \<Rightarrow> 'a \<Rightarrow> 's outcome) \<Rightarrow> 's \<Rightarrow> 'a list \<Rightarrow> 's outcome" where
  "foldO f s [] = Some (Inr s)"
| "foldO f s (x # xs) = obind (f s x) (\<lambda>s'. foldO f s' xs)"

section \<open>Decimal formatting\<close>

fun show_nat :: "nat \<Rightarrow> string" where
  "show_nat n = (if n < 10 then [char_of (48 + n)] else show_nat (n div 10) @ [char_of (48 + n mod 10)])"

declare show_nat.simps [simp del]

definition show_int :: "int \<Rightarrow> string" where
  "show_int i = (if i < 0 then CHR 0x2D # show_nat (nat (- i)) else show_nat (nat i))"

lemma show_nat_nonempty: "show_nat n \<noteq> []"
  by (subst show_nat.simps) simp

section \<open>Little-endian bytes\<close>

text \<open>
  \<open>of_le\<close> is \<^verbatim>\<open>from_le_bytes\<close> as an unsigned number, \<open>to_le k\<close> the
  \<^verbatim>\<open>to_le_bytes\<close> of a \<open>k\<close>-byte integer.
\<close>

fun of_le :: "u8 list \<Rightarrow> nat" where
  "of_le [] = 0"
| "of_le (b # bs) = unat b + 256 * of_le bs"

fun to_le :: "nat \<Rightarrow> nat \<Rightarrow> u8 list" where
  "to_le 0 n = []"
| "to_le (Suc k) n = of_nat (n mod 256) # to_le k (n div 256)"

lemma length_to_le [simp]: "length (to_le k n) = k"
  by (induction k arbitrary: n) auto

lemma of_le_bound: "of_le bs < 256 ^ length bs"
proof (induction bs)
  case Nil
  then show ?case by simp
next
  case (Cons b bs)
  have "unat b < 256"
    using unsigned_less[of b, where 'a = nat] by simp
  moreover have "256 * Suc (of_le bs) \<le> 256 * 256 ^ length bs"
    using Cons.IH by (intro mult_le_mono) simp_all
  ultimately show ?case by simp
qed

lemma of_le_to_le: "of_le (to_le k n) = n mod 256 ^ k"
proof (induction k arbitrary: n)
  case 0
  then show ?case by simp
next
  case (Suc k)
  have "unat (of_nat (n mod 256) :: u8) = n mod 256"
    by (simp add: unat_of_nat)
  then show ?case
    using Suc.IH[of "n div 256"] by (simp add: mod_mult2_eq)
qed

lemma to_le_of_le: "to_le (length bs) (of_le bs) = bs"
proof (induction bs)
  case Nil
  then show ?case by simp
next
  case (Cons b bs)
  have "unat b < 256"
    using unsigned_less[of b, where 'a = nat] by simp
  then show ?case
    using Cons.IH by simp
qed

definition bytes_of :: "string \<Rightarrow> u8 list" where
  "bytes_of s = map of_char s"

definition text_of :: "u8 list \<Rightarrow> string" where
  "text_of bs = map (\<lambda>b. char_of (unat b)) bs"

lemma bytes_of_simps [simp]:
  "bytes_of [] = []" "bytes_of (c # s) = of_char c # bytes_of s"
  "bytes_of (s @ t) = bytes_of s @ bytes_of t" "length (bytes_of s) = length s"
  by (simp_all add: bytes_of_def)

section \<open>Lists\<close>

definition div_ceil :: "nat \<Rightarrow> nat \<Rightarrow> nat" where
  "div_ceil n k = (n + k - 1) div k"

lemma div_ceil_0 [simp]: "0 < k \<Longrightarrow> div_ceil 0 k = 0"
  by (simp add: div_ceil_def)

lemma div_ceil_less_iff: "0 < k \<Longrightarrow> g < div_ceil n k \<longleftrightarrow> g * k < n"
proof -
  assume k: "0 < k"
  have "g < (n + k - 1) div k \<longleftrightarrow> Suc g * k \<le> n + k - 1"
    using k less_eq_div_iff_mult_less_eq[of k "Suc g" "n + k - 1"] by (simp add: Suc_le_eq)
  also have "\<dots> \<longleftrightarrow> g * k < n"
    using k by auto
  finally show ?thesis by (simp add: div_ceil_def)
qed

text \<open>\<^verbatim>\<open>trim_end_matches\<close> and \<^verbatim>\<open>strip_prefix\<close> for one character.\<close>

definition trim_end :: "char \<Rightarrow> string \<Rightarrow> string" where
  "trim_end c s = rev (dropWhile (\<lambda>x. x = c) (rev s))"

lemma trim_end_last: "trim_end c s = [] \<or> last (trim_end c s) \<noteq> c"
  using hd_dropWhile[of "\<lambda>x. x = c" "rev s"]
  by (auto simp: trim_end_def last_rev)

lemma those_Some_iff: "those xs = Some ys \<longleftrightarrow> xs = map Some ys"
  by (induction xs arbitrary: ys) (auto split: option.splits)

lemma those_None_iff: "those xs = None \<longleftrightarrow> None \<in> set xs"
  by (induction xs) (auto split: option.splits)

text \<open>\<open>position\<close>: the index of the first element that satisfies a predicate.\<close>

fun position :: "('a \<Rightarrow> bool) \<Rightarrow> 'a list \<Rightarrow> nat option" where
  "position p [] = None"
| "position p (x # xs) = (if p x then Some 0 else map_option Suc (position p xs))"

lemma position_None_iff: "position p xs = None \<longleftrightarrow> (\<forall>x \<in> set xs. \<not> p x)"
  by (induction xs) auto

lemma position_Some_iff:
  "position p xs = Some i \<longleftrightarrow> i < length xs \<and> p (xs ! i) \<and> (\<forall>j < i. \<not> p (xs ! j))"
proof (induction xs arbitrary: i)
  case Nil
  then show ?case by simp
next
  case (Cons x xs)
  then show ?case
    by (cases i) (auto simp: All_less_Suc2)
qed

lemma position_SomeD:
  "position p xs = Some i \<Longrightarrow> i < length xs"
  "position p xs = Some i \<Longrightarrow> p (xs ! i)"
  by (simp_all add: position_Some_iff)

end
