(* ===== verification/Memo.thy ===== *)
theory Memo
  imports Prelude
begin

text \<open>
  The library memoizes three things the same way: a short list of entries, most recently
  used first, a hit rotated to the front, an insertion dropping the tail. The worker's
  dictionary tables and lookup tables (\<^verbatim>\<open>SymCache\<close> in
  \<^verbatim>\<open>src/src/read.rs\<close>) and the footer cache (\<^verbatim>\<open>FOOTERS\<close> in
  \<^verbatim>\<open>src/src/meta.rs\<close>) are all clients of the locale \<open>memo\<close>.
\<close>

section \<open>The interface\<close>

locale memo =
  fixes find :: "'k \<Rightarrow> 'm \<Rightarrow> ('v \<times> 'm) option"
    and put :: "'k \<Rightarrow> 'v \<Rightarrow> 'm \<Rightarrow> 'm"
    and entries :: "'m \<Rightarrow> ('k \<times> 'v) set"
    and size_of :: "'m \<Rightarrow> nat"
    and cap :: nat
  assumes find_entry: "find k m = Some (v, m') \<Longrightarrow> (k, v) \<in> entries m"
    and find_keeps: "find k m = Some (v, m') \<Longrightarrow> entries m' = entries m \<and> size_of m' = size_of m"
    and put_entries: "entries (put k v m) \<subseteq> insert (k, v) (entries m)"
    and put_hit: "\<exists>m'. find k (put k v m) = Some (v, m')"
    and put_bound: "size_of (put k v m) \<le> cap"
begin

text \<open>
  A memo is coherent for a relation \<open>P\<close> between keys and values when every entry is;
  a client that only inserts related pairs only ever reads related pairs.
\<close>

lemma find_coherent:
  assumes "find k m = Some (v, m')" and "\<forall>(k, v) \<in> entries m. P k v"
  shows "P k v" "\<forall>(k, v) \<in> entries m'. P k v"
  using assms find_entry[OF assms(1)] find_keeps[OF assms(1)] by auto

lemma put_coherent:
  "P k v \<Longrightarrow> \<forall>(k, v) \<in> entries m. P k v \<Longrightarrow> \<forall>(k, v) \<in> entries (put k v m). P k v"
  using put_entries[of k v m] by auto

lemma find_bounded: "find k m = Some (v, m') \<Longrightarrow> size_of m \<le> cap \<Longrightarrow> size_of m' \<le> cap"
  using find_keeps by simp

end

section \<open>The list the code keeps\<close>

text \<open>\<^verbatim>\<open>c[..=i].rotate_right(1)\<close>\<close>

definition rotate_front :: "nat \<Rightarrow> 'a list \<Rightarrow> 'a list" where
  "rotate_front i c = c ! i # take i c @ drop (Suc i) c"

definition mru_find :: "'k \<Rightarrow> ('k \<times> 'v) list \<Rightarrow> ('v \<times> ('k \<times> 'v) list) option" where
  "mru_find k c = (case position (\<lambda>(k', v). k' = k) c of
     None \<Rightarrow> None
   | Some i \<Rightarrow> Some (snd (c ! i), rotate_front i c))"

text \<open>\<^verbatim>\<open>c.truncate(cap - 1); c.insert(0, (k, v))\<close>\<close>

definition mru_put :: "nat \<Rightarrow> 'k \<Rightarrow> 'v \<Rightarrow> ('k \<times> 'v) list \<Rightarrow> ('k \<times> 'v) list" where
  "mru_put cap k v c = (k, v) # take (cap - 1) c"

lemma rotate_front_mset: "i < length c \<Longrightarrow> set (rotate_front i c) = set c \<and> length (rotate_front i c) = length c"
proof -
  assume i: "i < length c"
  then have "c = take i c @ c ! i # drop (Suc i) c"
    by (rule id_take_nth_drop)
  then have "set c = insert (c ! i) (set (take i c) \<union> set (drop (Suc i) c))"
    by (metis Un_insert_right list.simps(15) set_append)
  with i show ?thesis
    by (simp add: rotate_front_def min_def)
qed

lemma mru_find_Some:
  assumes "mru_find k c = Some (v, c')"
  shows "(k, v) \<in> set c" "set c' = set c" "length c' = length c" "hd c' = (k, v)"
proof -
  from assms obtain i where i: "position (\<lambda>(k', v). k' = k) c = Some i"
    and v: "v = snd (c ! i)" and c': "c' = rotate_front i c"
    by (auto simp: mru_find_def split: option.splits)
  from position_SomeD[OF i] have "i < length c" "fst (c ! i) = k"
    by (auto split: prod.splits)
  then have "c ! i = (k, v)" "i < length c"
    using v by (auto simp: prod_eq_iff)
  then show "(k, v) \<in> set c" "set c' = set c" "length c' = length c" "hd c' = (k, v)"
    using rotate_front_mset[of i c] by (auto simp: c' rotate_front_def dest: nth_mem)
qed

lemma mru_find_None: "mru_find k c = None \<longleftrightarrow> k \<notin> fst ` set c"
proof -
  have "mru_find k c = None \<longleftrightarrow> position (\<lambda>(k', v). k' = k) c = None"
    by (simp add: mru_find_def split: option.splits)
  then show ?thesis
    by (force simp: position_None_iff)
qed

lemma mru_memo:
  assumes "0 < cap"
  shows "memo mru_find (mru_put cap) set length cap"
proof
  fix k v and c :: "('k \<times> 'v) list"
  show "set (mru_put cap k v c) \<subseteq> insert (k, v) (set c)"
    by (auto simp: mru_put_def dest: in_set_takeD)
  show "\<exists>m'. mru_find k (mru_put cap k v c) = Some (v, m')"
    by (simp add: mru_find_def mru_put_def)
  show "length (mru_put cap k v c) \<le> cap"
    using assms by (cases "length c \<le> cap - 1") (auto simp: mru_put_def)
qed (simp_all add: mru_find_Some)

end
