(* ===== verification/NullScan.thy ===== *)
theory NullScan
  imports Prelude
begin

text \<open>
  Validity bitmaps: \<^verbatim>\<open>each_null\<close> of \<^verbatim>\<open>src/src/read.rs\<close>, which visits
  the zero bits of a bitmap a word at a time, and \<^verbatim>\<open>null_bits\<close> of
  \<^verbatim>\<open>src/src/write.rs\<close>, which builds one. The locale \<open>null_visitor\<close> is
  what the column converters rely on.
\<close>

section \<open>Scanning a word\<close>

text \<open>\<^verbatim>\<open>trailing_zeros\<close>: the number of zero bits below the lowest set bit.\<close>

definition trailing_zeros :: "'a::len word \<Rightarrow> nat" where
  "trailing_zeros w = length (takeWhile (\<lambda>i. \<not> bit w i) [0..<LENGTH('a)])"

lemma trailing_zeros_bit:
  assumes "w \<noteq> (0 :: 'a::len word)"
  shows "bit w (trailing_zeros w)" "trailing_zeros w < LENGTH('a)"
    "j < trailing_zeros w \<Longrightarrow> \<not> bit w j"
proof -
  let ?P = "\<lambda>i. \<not> bit w i" and ?xs = "[0..<LENGTH('a)]"
  have "\<exists>k. bit w k"
    using assms bit_eq_iff[of w 0] by auto
  then obtain k where k: "bit w k" "k < LENGTH('a)"
    using bit_imp_le_length by blast
  then have ne: "takeWhile ?P ?xs \<noteq> ?xs"
    by (metis (mono_tags, lifting) atLeastLessThan_iff set_upt takeWhile_eq_all_conv zero_le)
  then have lt: "length (takeWhile ?P ?xs) < length ?xs"
    by (metis length_takeWhile_le nless_le takeWhile_eq_take take_all)
  then show "trailing_zeros w < LENGTH('a)"
    by (simp add: trailing_zeros_def)
  from nth_length_takeWhile[OF lt] lt show "bit w (trailing_zeros w)"
    by (simp add: trailing_zeros_def)
  assume "j < trailing_zeros w"
  then have j: "j < length (takeWhile ?P ?xs)"
    by (simp add: trailing_zeros_def)
  then have "takeWhile ?P ?xs ! j = j"
    using lt by (simp add: takeWhile_nth)
  with j show "\<not> bit w j"
    by (metis nth_mem set_takeWhileD)
qed

text \<open>\<^verbatim>\<open>inv &= inv - 1\<close> clears exactly the lowest set bit.\<close>

lemma clear_lowest_bit:
  assumes "w \<noteq> (0 :: 'a::len word)"
  shows "bit (w AND (w - 1)) j \<longleftrightarrow> bit w j \<and> j \<noteq> trailing_zeros w"
proof -
  define t n h where "t = trailing_zeros w" and "n = Suc t" and "h = push_bit n (drop_bit n w)"
  have t: "bit w t" "\<And>j. j < t \<Longrightarrow> \<not> bit w j" "t < LENGTH('a)"
    using trailing_zeros_bit[OF assms] by (simp_all add: t_def)
  have h: "bit h j \<longleftrightarrow> n \<le> j \<and> bit w j" for j
    by (auto simp: h_def bit_simps dest: bit_imp_le_length)
  have p: "bit (push_bit t (1 :: 'a word)) j \<longleftrightarrow> j = t" for j
    using t(3) by (auto simp: bit_simps)
  have m: "bit (mask t :: 'a word) j \<longleftrightarrow> j < t" for j
    using t(3) by (auto simp: bit_simps)
  have disj: "h AND push_bit t 1 = 0" "h AND mask t = 0"
  proof -
    show "h AND push_bit t 1 = 0"
    proof (rule bit_eqI)
      fix j
      show "bit (h AND push_bit t 1) j \<longleftrightarrow> bit 0 j"
        unfolding bit_and_iff h p by (auto simp: n_def)
    qed
    show "h AND mask t = 0"
      by (rule bit_eqI) (auto simp: bit_and_iff h m n_def)
  qed
  have "w = h OR push_bit t 1"
  proof (rule bit_eqI)
    fix j
    show "bit w j \<longleftrightarrow> bit (h OR push_bit t 1) j"
      unfolding bit_or_iff h p using t(1) t(2)[of j] by (cases "j < t"; cases "j = t") (auto simp: n_def)
  qed
  then have w: "w = h + push_bit t 1"
    by (simp only: disjunctive_add_eq_or[OF disj(1)])
  have "w - 1 = h + (push_bit t 1 - 1)"
    by (subst w) (simp add: algebra_simps)
  also have "push_bit t 1 - 1 = (mask t :: 'a word)"
    by (simp add: mask_eq_exp_minus_1 push_bit_eq_mult)
  finally have "w - 1 = h OR mask t"
    by (simp only: disjunctive_add_eq_or[OF disj(2)])
  then show ?thesis
    unfolding bit_and_iff t_def[symmetric]
    using t(1) t(2)[of j] by (cases "j < t"; cases "j = t") (auto simp: bit_or_iff h m n_def)
qed

lemma finite_set_bits: "finite {i. bit (w :: 'a::len word) i}"
  by (rule finite_subset[of _ "{..<LENGTH('a)}"]) (auto dest: bit_imp_le_length)

function visit_bits :: "nat \<Rightarrow> 'a::len word \<Rightarrow> nat list" where
  "visit_bits base w =
     (if w = 0 then [] else (base + trailing_zeros w) # visit_bits base (w AND (w - 1)))"
  by pat_completeness auto
termination
proof (relation "measure (\<lambda>(base, w). card {i. bit w i})")
  fix base and w :: "'a word"
  assume "w \<noteq> 0"
  then have "{i. bit (w AND (w - 1)) i} = {i. bit w i} - {trailing_zeros w}"
    by (auto simp: clear_lowest_bit)
  moreover have "trailing_zeros w \<in> {i. bit w i}"
    using \<open>w \<noteq> 0\<close> by (simp add: trailing_zeros_bit)
  ultimately show "((base, w AND (w - 1)), base, w) \<in> measure (\<lambda>(base, w). card {i. bit w i})"
    by (simp add: card_Diff1_less finite_set_bits del: card_Diff_singleton card_Diff_insert)
qed simp

declare visit_bits.simps [simp del]

lemma visit_bits_set: "set (visit_bits base w) = (\<lambda>i. base + i) ` {i. bit w i}"
proof (induction base w rule: visit_bits.induct)
  case (1 base w)
  show ?case
  proof (cases "w = 0")
    case True
    then show ?thesis by (simp add: visit_bits.simps)
  next
    case False
    then have "{i. bit w i} = insert (trailing_zeros w) {i. bit (w AND (w - 1)) i}"
      by (auto simp: clear_lowest_bit trailing_zeros_bit)
    with False "1.IH" show ?thesis
      by (simp add: visit_bits.simps[of base w])
  qed
qed

section \<open>Scanning a bitmap\<close>

text \<open>
  What Arrow's \<^verbatim>\<open>bit_chunks\<close> hands over: the full 64-bit words, then the bits of
  the last partial one. \<open>validity\<close> is the bitmap it stands for.
\<close>

record null_buf =
  nb_chunks :: "u64 list"
  nb_rem_len :: nat
  nb_rem :: u64

definition nb_ok :: "null_buf \<Rightarrow> bool" where
  "nb_ok nb \<longleftrightarrow> nb_rem_len nb < 64"

definition nb_length :: "null_buf \<Rightarrow> nat" where
  "nb_length nb = 64 * length (nb_chunks nb) + nb_rem_len nb"

definition nb_valid :: "null_buf \<Rightarrow> nat \<Rightarrow> bool" where
  "nb_valid nb i =
    (if i < 64 * length (nb_chunks nb) then bit (nb_chunks nb ! (i div 64)) (i mod 64)
     else bit (nb_rem nb) (i - 64 * length (nb_chunks nb)))"

fun visit_chunks :: "nat \<Rightarrow> u64 list \<Rightarrow> nat list" where
  "visit_chunks base [] = []"
| "visit_chunks base (w # ws) = visit_bits base (NOT w) @ visit_chunks (base + 64) ws"

text \<open>The row indices \<^verbatim>\<open>each_null\<close> calls its closure with, in call order.\<close>

definition each_null :: "null_buf \<Rightarrow> nat list" where
  "each_null nb =
    (let base = 64 * length (nb_chunks nb); rl = nb_rem_len nb in
     visit_chunks 0 (nb_chunks nb) @
     (if rl > 0 then visit_bits base (NOT (nb_rem nb) AND (push_bit rl 1 - 1)) else []))"

lemma visit_chunks_set:
  "set (visit_chunks base ws) =
     {base + i | i. i < 64 * length ws \<and> \<not> bit (ws ! (i div 64)) (i mod 64)}"
proof (induction ws arbitrary: base)
  case Nil
  then show ?case by simp
next
  case (Cons w ws)
  let ?bad = "\<lambda>us i. i < 64 * length us \<and> \<not> bit (us ! (i div 64)) (i mod 64)"
  have split: "?bad (w # ws) i \<longleftrightarrow> (i < 64 \<and> \<not> bit w i) \<or> (\<exists>k. i = 64 + k \<and> ?bad ws k)" for i
  proof (cases "i < 64")
    case True
    then show ?thesis by auto
  next
    case False
    then obtain k where k: "i = 64 + k"
      using le_Suc_ex not_less by blast
    have "(64 + k) div 64 = Suc (k div 64)" "(64 + k) mod 64 = k mod 64"
      by simp_all
    with k show ?thesis
      by (simp add: div_add_self1 nth_Cons')
  qed
  have "set (visit_bits base (NOT w)) = {base + i | i. i < 64 \<and> \<not> bit w i}"
    by (auto simp: visit_bits_set bit_not_iff possible_bit_word)
  moreover have "{base + i | i. ?bad (w # ws) i} =
      {base + i | i. i < 64 \<and> \<not> bit w i} \<union> {base + 64 + k | k. ?bad ws k}"
    unfolding split by (auto simp: add.assoc)
  ultimately show ?case
    using Cons.IH[of "base + 64"] by simp
qed

lemma each_null_set:
  assumes "nb_ok nb"
  shows "set (each_null nb) = {i. i < nb_length nb \<and> \<not> nb_valid nb i}"
proof -
  let ?base = "64 * length (nb_chunks nb)" and ?rl = "nb_rem_len nb"
  have head: "set (visit_chunks 0 (nb_chunks nb)) = {i. i < ?base \<and> \<not> nb_valid nb i}"
    by (auto simp: visit_chunks_set nb_valid_def)
  define x where "x = NOT (nb_rem nb) AND (push_bit ?rl 1 - 1)"
  have "push_bit ?rl 1 - 1 = (mask ?rl :: u64)"
    by (simp add: mask_eq_exp_minus_1 push_bit_eq_mult)
  then have x: "{i. bit x i} = {i. i < ?rl \<and> \<not> bit (nb_rem nb) i}"
    using assms by (auto simp: x_def bit_simps nb_ok_def)
  have tail: "set (if ?rl > 0 then visit_bits ?base x else []) = {?base + i | i. i < ?rl \<and> \<not> bit (nb_rem nb) i}"
    by (auto simp: visit_bits_set x)
  have "{i. i < nb_length nb \<and> \<not> nb_valid nb i} = {i. i < ?base \<and> \<not> nb_valid nb i} \<union>
      {?base + i | i. i < ?rl \<and> \<not> bit (nb_rem nb) i}"
  proof (intro set_eqI iffI)
    fix i
    assume i: "i \<in> {i. i < nb_length nb \<and> \<not> nb_valid nb i}"
    show "i \<in> {i. i < ?base \<and> \<not> nb_valid nb i} \<union> {?base + i | i. i < ?rl \<and> \<not> bit (nb_rem nb) i}"
    proof (cases "i < ?base")
      case False
      then have "i = ?base + (i - ?base)" by simp
      with False i show ?thesis
        by (auto simp: nb_length_def nb_valid_def intro!: exI[of _ "i - ?base"])
    qed (use i in simp)
  qed (auto simp: nb_length_def nb_valid_def)
  then show ?thesis
    unfolding each_null_def Let_def x_def[symmetric] set_append head tail by (rule sym)
qed

section \<open>Writing the null of a column at the visited rows\<close>

definition put_all :: "nat \<Rightarrow> 'a \<Rightarrow> nat list \<Rightarrow> 'a list \<Rightarrow> 'a list" where
  "put_all off v rows d = foldl (\<lambda>d i. d[off + i := v]) d rows"

lemma put_all_Nil [simp]: "put_all off v [] d = d"
  by (simp add: put_all_def)

lemma put_all_Cons [simp]: "put_all off v (i # rows) d = put_all off v rows (d[off + i := v])"
  by (simp add: put_all_def)

lemma length_put_all [simp]: "length (put_all off v rows d) = length d"
  by (induction rows arbitrary: d) simp_all

lemma put_all_nth:
  "j < length d \<Longrightarrow> put_all off v rows d ! j = (if \<exists>i \<in> set rows. off + i = j then v else d ! j)"
  by (induction rows arbitrary: d) (auto simp: nth_list_update)

text \<open>
  What a column converter relies on: the visitor calls back for exactly the null rows.
\<close>

locale null_visitor =
  fixes visits :: "'nb \<Rightarrow> nat list"
    and len :: "'nb \<Rightarrow> nat"
    and valid :: "'nb \<Rightarrow> nat \<Rightarrow> bool"
    and ok :: "'nb \<Rightarrow> bool"
  assumes visits_set: "ok nb \<Longrightarrow> set (visits nb) = {i. i < len nb \<and> \<not> valid nb i}"
begin

lemma patched_nth:
  assumes "ok nb" "j < length d"
  shows "put_all off v (visits nb) d ! j =
    (if off \<le> j \<and> j < off + len nb \<and> \<not> valid nb (j - off) then v else d ! j)"
proof -
  have "(\<exists>i \<in> set (visits nb). off + i = j) \<longleftrightarrow> off \<le> j \<and> j < off + len nb \<and> \<not> valid nb (j - off)"
    unfolding visits_set[OF assms(1)] by (auto intro!: exI[of _ "j - off"])
  with assms(2) show ?thesis by (simp add: put_all_nth)
qed

lemma patched_all_valid:
  "ok nb \<Longrightarrow> (\<And>i. i < len nb \<Longrightarrow> valid nb i) \<Longrightarrow> put_all off v (visits nb) d = d"
  using visits_set[of nb] by (intro nth_equalityI) (auto simp: put_all_nth)

end

interpretation arrow_nulls: null_visitor each_null nb_length nb_valid nb_ok
  by unfold_locales (rule each_null_set)

section \<open>Building a bitmap\<close>

fun chunks :: "nat \<Rightarrow> 'a list \<Rightarrow> 'a list list" where
  "chunks k xs = (if k = 0 \<or> xs = [] then [] else take k xs # chunks k (drop k xs))"

declare chunks.simps [simp del]

lemma chunks_Nil [simp]: "chunks k [] = []"
  by (simp add: chunks.simps)

lemma chunks_0 [simp]: "chunks 0 xs = []"
  by (subst chunks.simps) simp

lemma chunks_Cons:
  "0 < k \<Longrightarrow> xs \<noteq> [] \<Longrightarrow> chunks k xs = take k xs # chunks k (drop k xs)"
  by (simp add: chunks.simps)

text \<open>\<^verbatim>\<open>w |= (valid(x) as u64) << i\<close> over one chunk, from bit \<open>i\<close>.\<close>

fun pack_bits :: "('a \<Rightarrow> bool) \<Rightarrow> nat \<Rightarrow> u64 \<Rightarrow> 'a list \<Rightarrow> u64" where
  "pack_bits valid i w [] = w"
| "pack_bits valid i w (x # xs) = pack_bits valid (Suc i) (w OR push_bit i (of_bool (valid x))) xs"

text \<open>The bitmap words, or None when every value is valid.\<close>

definition null_bits :: "'a list \<Rightarrow> ('a \<Rightarrow> bool) \<Rightarrow> u64 list option" where
  "null_bits s valid =
    (let ws = map (\<lambda>c. (pack_bits valid 0 0 c, length c)) (chunks 64 s);
         nulls = list_ex (\<lambda>(w, n). w \<noteq> drop_bit (64 - n) (NOT 0)) ws
     in if nulls then Some (map fst ws) else None)"

definition bits_valid :: "u64 list \<Rightarrow> nat \<Rightarrow> bool" where
  "bits_valid bits i = bit (bits ! (i div 64)) (i mod 64)"

lemma chunks_length_le: "c \<in> set (chunks k xs) \<Longrightarrow> c \<noteq> [] \<and> length c \<le> k"
proof (induction k xs rule: chunks.induct)
  case (1 k xs)
  show ?case
  proof (cases "k = 0 \<or> xs = []")
    case True
    with "1.prems" show ?thesis by auto
  next
    case False
    with "1.prems" have "c = take k xs \<or> c \<in> set (chunks k (drop k xs))"
      by (simp add: chunks_Cons)
    with False "1.IH"[OF False] show ?thesis by auto
  qed
qed

lemma chunks_concat: "0 < k \<Longrightarrow> concat (chunks k xs) = xs"
proof (induction k xs rule: chunks.induct)
  case (1 k xs)
  then show ?case
    by (cases "xs = []") (simp_all add: chunks_Cons)
qed

lemma div_ceil_step:
  assumes "0 < k" "0 < n"
  shows "div_ceil n k = Suc (div_ceil (n - k) k)"
proof -
  have "(n + k - 1) div k = ((n - 1) + k) div k"
    using assms(2) by (intro arg_cong2[of _ _ _ _ "(div)"]) simp_all
  also have "\<dots> = Suc ((n - 1) div k)"
    using assms(1) div_add_self2[of k "n - 1"] by simp
  also have "(n - 1) div k = (n - k + k - 1) div k"
  proof (cases "k \<le> n")
    case False
    then have "n - 1 < k" "n - k + k - 1 < k"
      using assms(1) by simp_all
    then show ?thesis by simp
  qed simp
  finally show ?thesis
    by (simp add: div_ceil_def)
qed

lemma chunks_count: "0 < k \<Longrightarrow> length (chunks k xs) = div_ceil (length xs) k"
proof (induction k xs rule: chunks.induct)
  case (1 k xs)
  then show ?case
    by (cases "xs = []") (simp_all add: chunks_Cons div_ceil_step[of k "length xs"])
qed

lemma chunks_nth:
  "0 < k \<Longrightarrow> j < length (chunks k xs) \<Longrightarrow> chunks k xs ! j = take k (drop (j * k) xs)"
proof (induction k xs arbitrary: j rule: chunks.induct)
  case (1 k xs)
  then have ne: "0 < k" "xs \<noteq> []"
    by auto
  show ?case
  proof (cases j)
    case 0
    with ne show ?thesis by (simp add: chunks_Cons)
  next
    case (Suc j')
    with ne 1 have "chunks k (drop k xs) ! j' = take k (drop (j' * k) (drop k xs))"
      by (simp add: chunks_Cons)
    with ne Suc show ?thesis by (simp add: chunks_Cons add.commute)
  qed
qed

lemma pack_bits_bit:
  "i + length c \<le> 64 \<Longrightarrow>
     bit (pack_bits valid i w c) j \<longleftrightarrow> bit w j \<or> (i \<le> j \<and> j < i + length c \<and> valid (c ! (j - i)))"
proof (induction c arbitrary: i w)
  case Nil
  then show ?case by auto
next
  case (Cons x c)
  have "bit (w OR push_bit i (of_bool (valid x))) j \<longleftrightarrow> bit w j \<or> (j = i \<and> valid x)"
    using Cons.prems by (cases "valid x") (auto simp: bit_simps)
  then show ?case
    using Cons by (auto simp: nth_Cons' Suc_le_eq)
qed

lemma full_mask_bit:
  "0 < n \<Longrightarrow> n \<le> 64 \<Longrightarrow> bit (drop_bit (64 - n) (NOT 0) :: u64) j \<longleftrightarrow> j < n"
  by (auto simp: bit_simps)

lemma pack_bits_full:
  assumes "0 < length c" "length c \<le> 64"
  shows "pack_bits valid 0 0 c = drop_bit (64 - length c) (NOT 0) \<longleftrightarrow> list_all valid c"
proof -
  have p: "bit (pack_bits valid 0 0 c) j \<longleftrightarrow> j < length c \<and> valid (c ! j)" for j
    using pack_bits_bit[of 0 c valid 0 j] assms by simp
  have q: "bit (drop_bit (64 - length c) (NOT 0) :: u64) j \<longleftrightarrow> j < length c" for j
    using full_mask_bit assms by blast
  show ?thesis
    unfolding list_all_length
  proof
    assume eq: "pack_bits valid 0 0 c = drop_bit (64 - length c) (NOT 0)"
    show "\<forall>j < length c. valid (c ! j)"
      using p q unfolding eq by blast
  next
    assume all: "\<forall>j < length c. valid (c ! j)"
    show "pack_bits valid 0 0 c = drop_bit (64 - length c) (NOT 0)"
      by (rule bit_eqI) (use p q all in blast)
  qed
qed

lemma null_bits_None_iff: "null_bits s valid = None \<longleftrightarrow> list_all valid s"
proof -
  have "null_bits s valid = None \<longleftrightarrow>
      (\<forall>c \<in> set (chunks 64 s). pack_bits valid 0 0 c = drop_bit (64 - length c) (NOT 0))"
    by (auto simp: null_bits_def Let_def list_ex_iff)
  also have "\<dots> \<longleftrightarrow> (\<forall>c \<in> set (chunks 64 s). list_all valid c)"
    by (intro ball_cong refl pack_bits_full) (auto dest: chunks_length_le)
  also have "\<dots> \<longleftrightarrow> list_all valid (concat (chunks 64 s))"
    by (auto simp: list_all_iff)
  finally show ?thesis
    by (simp add: chunks_concat)
qed

lemma null_bits_valid:
  assumes "null_bits s valid = Some bits" "i < length s"
  shows "length bits = div_ceil (length s) 64 \<and> (bits_valid bits i \<longleftrightarrow> valid (s ! i))"
proof -
  have bits: "bits = map (pack_bits valid 0 0) (chunks 64 s)"
    using assms(1) by (auto simp: null_bits_def Let_def split: if_splits)
  let ?k = "i div 64"
  have k: "?k < length (chunks 64 s)"
    using assms(2) by (simp add: chunks_count div_ceil_less_iff)
  let ?c = "chunks 64 s ! ?k"
  have c: "?c = take 64 (drop (?k * 64) s)"
    using k by (simp add: chunks_nth)
  have im: "?k * 64 + i mod 64 = i"
    by simp
  then have "i mod 64 < length s - ?k * 64"
    using assms(2) by linarith
  then have "i mod 64 < length ?c" "?c ! (i mod 64) = s ! i"
    using im by (simp_all add: c)
  then show ?thesis
    using k pack_bits_bit[of 0 ?c valid 0 "i mod 64"]
    by (simp add: bits bits_valid_def chunks_count c)
qed

section \<open>Properties\<close>

text \<open>Arrow's \<^verbatim>\<open>bit_chunks\<close> of a bitmap of \<open>n\<close> bits kept in 64-bit words.\<close>

definition bit_chunks :: "u64 list \<Rightarrow> nat \<Rightarrow> null_buf" where
  "bit_chunks bits n = \<lparr>nb_chunks = take (n div 64) bits, nb_rem_len = n mod 64,
     nb_rem = (if n mod 64 = 0 then 0 else bits ! (n div 64))\<rparr>"

lemma bit_chunks_valid:
  assumes "i < n" "n div 64 \<le> length bits"
  shows "nb_valid (bit_chunks bits n) i \<longleftrightarrow> bits_valid bits i"
proof (cases "i < 64 * (n div 64)")
  case True
  then have "i div 64 < n div 64"
    by linarith
  then show ?thesis
    using True assms(2) unfolding nb_valid_def bits_valid_def bit_chunks_def by (simp add: min_absorb2)
next
  case False
  have le: "64 * (n div 64) \<le> i"
    using False by simp
  have k: "i div 64 = n div 64"
    using div_le_mono[OF le, of 64] div_le_mono[of i n 64] assms(1) by simp
  have "i = 64 * (i div 64) + i mod 64"
    by simp
  then have m: "i - 64 * (n div 64) = i mod 64"
    unfolding k by linarith
  have "n mod 64 \<noteq> 0"
    using assms(1) le mult_div_mod_eq[of 64 n] by linarith
  then show ?thesis
    using False assms(2) m k unfolding nb_valid_def bits_valid_def bit_chunks_def
    by (simp add: min_absorb2)
qed

text \<open>C36
  A validity bitmap the writer builds, read back as the words the reader scans, makes the
  reader visit exactly the rows the writer's predicate rejected; and no bitmap is built
  exactly when no row was rejected.
\<close>

theorem null_bitmap_roundtrip:
  "case null_bits s valid of
     None \<Rightarrow> list_all valid s
   | Some bits \<Rightarrow> \<not> list_all valid s \<and>
       set (each_null (bit_chunks bits (length s))) = {i. i < length s \<and> \<not> valid (s ! i)}"
proof (cases "null_bits s valid")
  case None
  then show ?thesis
    using null_bits_None_iff[of s valid] by simp
next
  case (Some bits)
  let ?nb = "bit_chunks bits (length s)" and ?k = "length s div 64"
  have "length bits = div_ceil (length s) 64" if "0 < length s"
    using null_bits_valid[OF Some, of 0] that by simp
  then have d: "?k \<le> length bits"
    by (cases "0 < length s") (auto simp: div_ceil_def intro: div_le_mono)
  then have n: "nb_length ?nb = length s" "nb_ok ?nb" "length (nb_chunks ?nb) = ?k"
    by (simp_all add: nb_length_def nb_ok_def bit_chunks_def)
  have "nb_valid ?nb i \<longleftrightarrow> valid (s ! i)" if i: "i < length s" for i
    using null_bits_valid[OF Some i] bit_chunks_valid[OF i, of bits] d by simp
  then have "set (each_null ?nb) = {i. i < length s \<and> \<not> valid (s ! i)}"
    unfolding arrow_nulls.visits_set[OF n(2)] n(1) by blast
  moreover have "\<not> list_all valid s"
    using Some null_bits_None_iff[of s valid] by simp
  ultimately show ?thesis
    using Some by simp
qed

end
