(* ===== verification/Ffi.thy ===== *)
theory Ffi
  imports Prelude
begin

text \<open>
  \<^verbatim>\<open>src/src/ffi.rs\<close>: the tagged 64-bit value \<^verbatim>\<open>K\<close> of the host and
  the accessors that read it, over a byte-addressed memory. The host's own functions
  (\<^verbatim>\<open>ktn\<close>, \<^verbatim>\<open>sn\<close>, \<^verbatim>\<open>krr\<close>, \dots) are not part of this repository;
  where a later theory needs one it is a parameter.
\<close>

section \<open>Type tags, nulls and epochs\<close>

definition KB :: int where [simp]: "KB = 1"
definition KG :: int where [simp]: "KG = 4"
definition KH :: int where [simp]: "KH = 5"
definition KI :: int where [simp]: "KI = 6"
definition KJ :: int where [simp]: "KJ = 7"
definition KE :: int where [simp]: "KE = 8"
definition KF :: int where [simp]: "KF = 9"
definition KS :: int where [simp]: "KS = 11"
definition KP :: int where [simp]: "KP = 12"
definition KD :: int where [simp]: "KD = 14"
definition KZ :: int where [simp]: "KZ = 15"
definition KN :: int where [simp]: "KN = 16"
definition KT :: int where [simp]: "KT = 19"
definition KJL :: int where [simp]: "KJL = 39"
definition XT :: int where [simp]: "XT = 98"
definition XD :: int where [simp]: "XD = 99"

text \<open>The element type of a char vector, which the source never names: \<^verbatim>\<open>kpn\<close> builds it.\<close>

abbreviation KC :: int where "KC \<equiv> 10"

definition NI :: i32 where "NI = 0x80000000"
definition NJ :: i64 where "NJ = 0x8000000000000000"
definition NH :: i16 where "NH = 0x8000"
definition DAY2000 :: i32 where "DAY2000 = 10957"
definition NS2000 :: i64 where "NS2000 = 946684800000000000"

lemma sint_nulls:
  "sint NI = - (2 ^ 31)" "sint NJ = - (2 ^ 63)" "sint NH = - (2 ^ 15)"
  by (simp_all add: NI_def NJ_def NH_def)

lemma sint_epochs: "sint DAY2000 = 10957" "sint NS2000 = 946684800000000000"
  by (simp_all add: DAY2000_def NS2000_def)

section \<open>Decoding a tagged value\<close>

type_synonym K = "64 word"
type_synonym mem = "64 word \<Rightarrow> u8"

definition TAG_SHIFT :: nat where "TAG_SHIFT = 58"
definition PTR_MASK :: u64 where "PTR_MASK = drop_bit 6 (NOT 0)"

definition vtag :: "K \<Rightarrow> int" where
  "vtag x = uint (drop_bit TAG_SHIFT x)"

definition va :: "K \<Rightarrow> 64 word" where
  "va x = x AND PTR_MASK"

text \<open>Little-endian loads of the host's machine.\<close>

definition rd_bytes :: "mem \<Rightarrow> 64 word \<Rightarrow> nat \<Rightarrow> u8 list" where
  "rd_bytes m a n = map (\<lambda>i. m (a + of_nat i)) [0..<n]"

definition rd16 :: "mem \<Rightarrow> 64 word \<Rightarrow> i16" where
  "rd16 m a = of_nat (of_le (rd_bytes m a 2))"
definition rd32 :: "mem \<Rightarrow> 64 word \<Rightarrow> i32" where
  "rd32 m a = of_nat (of_le (rd_bytes m a 4))"
definition rd64 :: "mem \<Rightarrow> 64 word \<Rightarrow> i64" where
  "rd64 m a = of_nat (of_le (rd_bytes m a 8))"

definition vt :: "mem \<Rightarrow> K \<Rightarrow> int" where
  "vt m x = sint (rd16 m (va x - 28))"

definition vn :: "mem \<Rightarrow> K \<Rightarrow> int" where
  "vn m x = sint (rd64 m (va x - 24))"

definition kt :: "mem \<Rightarrow> K \<Rightarrow> int" where
  "kt m x = (let t = vtag x in if t = KJL then - KJ else if t \<noteq> 0 then - t else vt m x)"

definition kjv :: "mem \<Rightarrow> K \<Rightarrow> i64" where
  "kjv m x = (let HALF = push_bit 57 1; t = vtag x in
     if t = KJL then ((x AND PTR_MASK) XOR HALF) - HALF
     else if t \<in> {KJ, KF, KZ, KP, KN} then rd64 m (va x)
     else x AND PTR_MASK)"

definition atom_i64 :: "mem \<Rightarrow> K \<Rightarrow> i64 option" where
  "atom_i64 m x = (let t = vtag x in
     if t = KJL \<or> t = KJ then Some (kjv m x)
     else if t = KI then Some (scast (ucast (kjv m x) :: 32 word))
     else if t = KH then Some (scast (ucast (kjv m x) :: 16 word))
     else None)"

definition kn :: "mem \<Rightarrow> K \<Rightarrow> int" where
  "kn m x = (if vtag x \<noteq> 0 then 1 else vn m x)"

definition ls_of :: "K \<Rightarrow> 64 word" where
  "ls_of x = va x"

text \<open>The typed payload views: element \<open>i\<close> of the payload read at its width.\<close>

definition v_g :: "mem \<Rightarrow> K \<Rightarrow> nat \<Rightarrow> u8" where "v_g m x i = m (va x + of_nat i)"
definition v_h :: "mem \<Rightarrow> K \<Rightarrow> nat \<Rightarrow> i16" where "v_h m x i = rd16 m (va x + 2 * of_nat i)"
definition v_i :: "mem \<Rightarrow> K \<Rightarrow> nat \<Rightarrow> i32" where "v_i m x i = rd32 m (va x + 4 * of_nat i)"
definition v_j :: "mem \<Rightarrow> K \<Rightarrow> nat \<Rightarrow> i64" where "v_j m x i = rd64 m (va x + 8 * of_nat i)"
definition v_s :: "mem \<Rightarrow> K \<Rightarrow> nat \<Rightarrow> 64 word" where "v_s m x i = rd64 m (va x + 8 * of_nat i)"
definition v_k :: "mem \<Rightarrow> K \<Rightarrow> nat \<Rightarrow> K" where "v_k m x i = rd64 m (va x + 8 * of_nat i)"

section \<open>Element widths\<close>

definition width :: "int \<Rightarrow> nat" where
  "width t =
    (let W = [8, 1, 16, 0, 1, 2, 4, 8, 4, 8, 1, 8, 8, 4, 4, 8, 8, 4, 4, 4]
     in if 0 \<le> t \<and> nat t < length W then W ! nat t else 8)"

text \<open>The message \<^verbatim>\<open>err\<close> hands to the host: interior NULs are dropped.\<close>

definition err_text :: "string \<Rightarrow> string" where
  "err_text msg = filter (\<lambda>c. c \<noteq> CHR 0x00) msg"

section \<open>Facts about tagged values\<close>

lemma vtag_bounds: "0 \<le> vtag x \<and> vtag x < 64"
proof -
  have "unat (drop_bit 58 x) = unat x div 2 ^ 58"
    unfolding unat_drop_bit_eq by (rule drop_bit_eq_div)
  moreover have "unat x < 2 ^ 64"
    using unsigned_less[of x, where 'a = nat] by simp
  ultimately have "unat (drop_bit 58 x) < 64"
    by simp
  moreover have "vtag x = int (unat (drop_bit 58 x))"
    unfolding vtag_def TAG_SHIFT_def uint_nat by (rule refl)
  ultimately have "0 \<le> vtag x" "vtag x < int 64"
    by (simp_all only: of_nat_less_iff of_nat_0_le_iff)
  then show ?thesis
    by simp
qed

lemma PTR_MASK_mask: "PTR_MASK = mask 58"
  by (simp add: PTR_MASK_def mask_eq_exp_minus_1)

lemma va_take_bit: "va x = take_bit 58 x"
  by (simp add: va_def PTR_MASK_mask take_bit_eq_mask)

lemma take_bit_xor_shift:
  assumes n: "n < LENGTH('a::len)"
  shows "(take_bit (Suc n) x XOR push_bit n 1) - push_bit n 1 = signed_take_bit n (x :: 'a word)"
proof (cases "bit x n")
  case True
  have "take_bit (Suc n) x XOR push_bit n 1 = take_bit n x"
    using True n by (intro bit_eqI) (auto simp: bit_simps less_Suc_eq)
  moreover have "take_bit n x - push_bit n 1 = take_bit n x + NOT (mask n)"
    by (simp add: push_bit_eq_mult mask_eq_exp_minus_1 not_eq_complement)
  moreover have "take_bit n x + NOT (mask n) = take_bit n x OR NOT (mask n)"
    by (rule disjunctive_add_eq_or) (simp add: bit_eq_iff bit_simps)
  ultimately show ?thesis
    using True by (simp only: signed_take_bit_eq_if_negative)
next
  case False
  have "take_bit (Suc n) x = take_bit n x"
    using False by (intro bit_eqI) (auto simp: bit_simps less_Suc_eq)
  moreover have "take_bit n x AND push_bit n 1 = 0"
    by (intro bit_eqI) (auto simp: bit_simps)
  ultimately have "take_bit (Suc n) x XOR push_bit n 1 = take_bit n x + push_bit n 1"
    by (simp only: disjunctive_add_eq_xor)
  then show ?thesis
    using False by (simp add: signed_take_bit_eq_if_positive)
qed

text \<open>
  The inline long form: for a tag of \<^verbatim>\<open>KJL\<close> the value is the low 58 bits as a
  two's complement number.
\<close>

lemma kjv_KJL: "vtag x = KJL \<Longrightarrow> kjv m x = signed_take_bit 57 x"
  using take_bit_xor_shift[of 57 x]
  by (simp add: kjv_def Let_def PTR_MASK_mask take_bit_eq_mask)

lemma rd_bytes_length [simp]: "length (rd_bytes m a n) = n"
  by (simp add: rd_bytes_def)

lemma width_values:
  "width KB = 1" "width KG = 1" "width KC = 1" "width KH = 2" "width KI = 4" "width KJ = 8"
  "width KE = 4" "width KF = 8" "width KS = 8" "width KP = 8" "width KD = 4" "width KZ = 8"
  "width KN = 8" "width KT = 4" "width 0 = 8"
  by (simp_all add: width_def)

lemma width_negative: "t < 0 \<Longrightarrow> width t = 8"
  by (simp add: width_def)

end
