(* ===== verification/ArrowTypes.thy ===== *)
theory ArrowTypes
  imports Ffi
begin

text \<open>
  The type tables: \<^verbatim>\<open>l_type_of\<close>, \<^verbatim>\<open>ns_per\<close> and
  \<^verbatim>\<open>raw_of\<close> of \<^verbatim>\<open>src/src/read.rs\<close>, \<^verbatim>\<open>arrow_type\<close> of
  \<^verbatim>\<open>src/src/write.rs\<close>, \<^verbatim>\<open>dict_hint\<close>, \<^verbatim>\<open>type_char\<close> and
  \<^verbatim>\<open>to_ns\<close> of \<^verbatim>\<open>src/src/meta.rs\<close>. Arrow's and Parquet's type enums
  are data here, with the constructors the source matches on; how Arrow prints a type
  (\<^verbatim>\<open>Display\<close>) is a parameter \<open>shw\<close>.
\<close>

section \<open>Arrow and Parquet types\<close>

datatype time_unit = Second | Millisecond | Microsecond | Nanosecond

datatype data_type =
    Boolean | Int8 | Int16 | Int32 | Int64 | UInt8 | UInt16 | UInt32 | UInt64
  | Float16 | Float32 | Float64
  | Utf8 | LargeUtf8 | Utf8View
  | Binary | FixedSizeBinary nat | Decimal nat nat
  | Date32 | Date64 | Time32 time_unit | Time64 time_unit
  | Timestamp time_unit "string option" | Duration time_unit
  | Dictionary data_type data_type
  | AList data_type | AStruct "data_type list" | AMap data_type data_type
  | OtherType nat

datatype phys_type =
    P_BOOLEAN | P_INT32 | P_INT64 | P_INT96 | P_FLOAT | P_DOUBLE | P_BYTE_ARRAY | P_FIXED

text \<open>Time units are ordered as Arrow declares them, from coarse to fine.\<close>

primrec unit_rank :: "time_unit \<Rightarrow> nat" where
  "unit_rank Second = 0"
| "unit_rank Millisecond = 1"
| "unit_rank Microsecond = 2"
| "unit_rank Nanosecond = 3"

lemma unit_rank_inject: "unit_rank u = unit_rank v \<longleftrightarrow> u = v"
  by (cases u; cases v) simp_all

instantiation time_unit :: linorder
begin

definition less_eq_time_unit :: "time_unit \<Rightarrow> time_unit \<Rightarrow> bool" where
  "less_eq_time_unit u v \<longleftrightarrow> unit_rank u \<le> unit_rank v"

definition less_time_unit :: "time_unit \<Rightarrow> time_unit \<Rightarrow> bool" where
  "less_time_unit u v \<longleftrightarrow> unit_rank u < unit_rank v"

instance
  by standard (auto simp: less_eq_time_unit_def less_time_unit_def unit_rank_inject)

end

section \<open>Reading: Arrow type to L type\<close>

fun l_type_of :: "(data_type \<Rightarrow> string) \<Rightarrow> data_type \<Rightarrow> int result" where
  "l_type_of shw Boolean = Inr KB"
| "l_type_of shw Int8 = Inr KG"
| "l_type_of shw UInt8 = Inr KG"
| "l_type_of shw Int16 = Inr KH"
| "l_type_of shw Int32 = Inr KI"
| "l_type_of shw Int64 = Inr KJ"
| "l_type_of shw Float32 = Inr KE"
| "l_type_of shw Float64 = Inr KF"
| "l_type_of shw Utf8 = Inr KS"
| "l_type_of shw LargeUtf8 = Inr KS"
| "l_type_of shw Utf8View = Inr KS"
| "l_type_of shw (Dictionary k v) =
     (if l_type_of shw v = Inr KS then Inr KS
      else Inl (''nyi: column type '' @ shw (Dictionary k v)))"
| "l_type_of shw (Timestamp u tz) = Inr KP"
| "l_type_of shw Date32 = Inr KD"
| "l_type_of shw (Time32 Millisecond) = Inr KT"
| "l_type_of shw (Duration u) = Inr KN"
| "l_type_of shw other = Inl (''nyi: column type '' @ shw other)"

text \<open>Nanoseconds per time unit.\<close>

primrec ns_per :: "time_unit \<Rightarrow> i64" where
  "ns_per Second = 1000000000"
| "ns_per Millisecond = 1000000"
| "ns_per Microsecond = 1000"
| "ns_per Nanosecond = 1"

text \<open>How a column decodes straight into the K payload: the decoder's width and scale.\<close>

datatype raw = RI32 | RI64 i64 | RF32 | RF64

definition raw_of :: "data_type \<Rightarrow> phys_type \<Rightarrow> raw option" where
  "raw_of dt pt = (case dt of
     Int32 \<Rightarrow> if pt = P_INT32 then Some RI32 else None
   | Date32 \<Rightarrow> if pt = P_INT32 then Some RI32 else None
   | Time32 u \<Rightarrow> if u = Millisecond \<and> pt = P_INT32 then Some RI32 else None
   | Int64 \<Rightarrow> if pt = P_INT64 then Some (RI64 1) else None
   | Timestamp u tz \<Rightarrow> if pt = P_INT64 then Some (RI64 (ns_per u)) else None
   | Duration u \<Rightarrow> if pt = P_INT64 then Some (RI64 (ns_per u)) else None
   | Float32 \<Rightarrow> if pt = P_FLOAT then Some RF32 else None
   | Float64 \<Rightarrow> if pt = P_DOUBLE then Some RF64 else None
   | _ \<Rightarrow> None)"

text \<open>Bytes the decoder writes per value.\<close>

primrec raw_width :: "raw \<Rightarrow> nat" where
  "raw_width RI32 = 4"
| "raw_width (RI64 m) = 8"
| "raw_width RF32 = 4"
| "raw_width RF64 = 8"

definition to_ns :: "data_type \<Rightarrow> i64 \<Rightarrow> i64 option" where
  "to_ns dt v = (case dt of
     Timestamp u tz \<Rightarrow> checked_mul_s v (ns_per u)
   | Duration u \<Rightarrow> checked_mul_s v (ns_per u)
   | _ \<Rightarrow> None)"

section \<open>Writing: L type to Arrow type\<close>

definition arrow_type :: "int \<Rightarrow> bool \<Rightarrow> data_type result" where
  "arrow_type t sym_dict =
    (if t = KB then Inr Boolean
     else if t = KG then Inr UInt8
     else if t = KH then Inr Int16
     else if t = KI then Inr Int32
     else if t = KJ then Inr Int64
     else if t = KE then Inr Float32
     else if t = KF then Inr Float64
     else if t = KS \<and> sym_dict then Inr (Dictionary Int32 Utf8)
     else if t = KS then Inr Utf8
     else if t = KD then Inr Date32
     else if t = KT then Inr (Time32 Millisecond)
     else if t = KP \<or> t = KZ then Inr (Timestamp Nanosecond None)
     else if t = KN then Inr (Duration Nanosecond)
     else if t = 0 then Inl ''nyi: list column''
     else Inl (''nyi: column type '' @ show_int t))"

section \<open>The type character of \<^verbatim>\<open>meta\<close>\<close>

definition type_char :: "int \<Rightarrow> char" where
  "type_char lt =
    (let T = ''*b**xhijefcspmdznuvt''
     in if 0 \<le> lt \<and> nat lt < length T then T ! nat lt else CHR ''*'')"

section \<open>Schema fields and the dictionary hint\<close>

record fld =
  f_name :: string
  f_type :: data_type
  f_null :: bool
  f_meta :: "(string \<times> string) list"

definition is_string :: "data_type \<Rightarrow> bool" where
  "is_string dt \<longleftrightarrow> dt \<in> {Utf8, LargeUtf8, Utf8View}"

text \<open>A schema is its fields and its key-value metadata.\<close>

type_synonym schema = "fld list \<times> (string \<times> string) list"

definition dict_hint :: "schema \<Rightarrow> schema option" where
  "dict_hint s =
    (let dict = Dictionary Int32 Utf8;
         any = list_ex (\<lambda>f. is_string (f_type f)) (fst s);
         fs = map (\<lambda>f. if is_string (f_type f)
                then \<lparr>f_name = f_name f, f_type = dict, f_null = f_null f, f_meta = f_meta f\<rparr>
                else f) (fst s)
     in if any then Some (fs, snd s) else None)"

section \<open>Facts about the tables\<close>

lemma ns_per_pos: "0 < sint (ns_per u)"
  by (cases u) simp_all

lemma ns_per_antimono: "u < v \<longleftrightarrow> sint (ns_per v) < sint (ns_per u)"
  by (cases u; cases v) (simp_all add: less_time_unit_def)

lemma ns_per_eq_1_iff: "ns_per u = 1 \<longleftrightarrow> u = Nanosecond"
  by (cases u) simp_all

lemma arrow_type_round:
  "arrow_type t sd = Inr dt \<Longrightarrow> l_type_of shw dt = Inr (if t = KZ then KP else t)"
  by (auto simp: arrow_type_def split: if_splits)

lemma arrow_type_error:
  "arrow_type t sd = Inl e \<Longrightarrow> t \<notin> {KB, KG, KH, KI, KJ, KE, KF, KS, KD, KT, KP, KZ, KN}"
  by (auto simp: arrow_type_def split: if_splits)

lemma raw_of_width:
  "raw_of dt pt = Some r \<Longrightarrow> \<exists>lt. l_type_of shw dt = Inr lt \<and> width lt = raw_width r \<and> lt \<noteq> KS"
  by (auto simp: raw_of_def width_def split: data_type.splits if_splits)

lemma is_string_l_type: "is_string dt \<Longrightarrow> l_type_of shw dt = Inr KS"
  by (auto simp: is_string_def)

lemma type_char_values:
  "map type_char [KB, KG, KH, KI, KJ, KE, KF, KS, KP, KD, KZ, KN, KT] = ''bxhijefspdznt''"
  by (simp add: type_char_def)

section \<open>Properties\<close>

text \<open>
  A written column reads back as the L type it had, the float datetime as a timestamp, and
  every type the writer refuses is outside the host's column types.
\<close>

theorem written_type_reads_back:
  "case arrow_type t sym_dict of
     Inr dt \<Rightarrow> l_type_of shw dt = Inr (if t = KZ then KP else t)
   | Inl e \<Rightarrow> t \<notin> {KB, KG, KH, KI, KJ, KE, KF, KS, KD, KT, KP, KZ, KN}"
proof (cases "arrow_type t sym_dict")
  case (Inl e)
  show ?thesis
    using arrow_type_error[OF Inl] by (simp add: Inl del: insert_iff)
next
  case (Inr dt)
  show ?thesis
    using arrow_type_round[OF Inr] by (simp add: Inr)
qed

end
