(* ===== verification/Convert.thy ===== *)
theory Convert
  imports NullScan ArrowTypes
begin

text \<open>
  The fixed-width conversions of \<^verbatim>\<open>src/src/read.rs\<close>: \<^verbatim>\<open>fill_prim\<close>, which
  copies an Arrow column into a K payload, and \<^verbatim>\<open>patch\<close>, which finishes a column
  the page decoder wrote straight into the payload. The last section shows that both
  answer the same values.
\<close>

section \<open>Native arithmetic\<close>

text \<open>
  The operations the source takes from Arrow's \<^verbatim>\<open>ArrowNativeTypeOp\<close>, as a
  parameter; \<open>signed_native\<close> is what that trait documents for a signed machine
  integer: wrapping add and subtract, the numeric order, a multiply that is an error on
  overflow.
\<close>

record 'a native =
  n_is_zero :: "'a \<Rightarrow> bool"
  n_is_one :: "'a \<Rightarrow> bool"
  n_add :: "'a \<Rightarrow> 'a \<Rightarrow> 'a"
  n_sub :: "'a \<Rightarrow> 'a \<Rightarrow> 'a"
  n_lt :: "'a \<Rightarrow> 'a \<Rightarrow> bool"
  n_mul :: "'a \<Rightarrow> 'a \<Rightarrow> 'a option"

definition signed_native :: "'a::len word native" where
  "signed_native = \<lparr>n_is_zero = (\<lambda>x. x = 0), n_is_one = (\<lambda>x. x = 1), n_add = (+), n_sub = (-),
     n_lt = (\<lambda>x y. sint x < sint y), n_mul = checked_mul_s\<rparr>"

lemma signed_native_sel [simp]:
  "n_is_zero signed_native x = (x = 0)"
  "n_is_one signed_native x = (x = 1)"
  "n_add signed_native x y = x + y"
  "n_sub signed_native x y = x - y"
  "n_lt signed_native x y = (sint x < sint y)"
  "n_mul signed_native x y = checked_mul_s x y"
  by (simp_all add: signed_native_def)

section \<open>Writing into a payload\<close>

definition write_at :: "nat \<Rightarrow> 'a list \<Rightarrow> 'a list \<Rightarrow> 'a list" where
  "write_at off vs d = take off d @ vs @ drop (off + length vs) d"

definition map_range :: "('a \<Rightarrow> 'a) \<Rightarrow> nat \<Rightarrow> nat \<Rightarrow> 'a list \<Rightarrow> 'a list" where
  "map_range f off n d = take off d @ map f (take n (drop off d)) @ drop (off + n) d"

lemma length_write_at [simp]: "off + length vs \<le> length d \<Longrightarrow> length (write_at off vs d) = length d"
  by (simp add: write_at_def)

lemma write_at_nth:
  "off + length vs \<le> length d \<Longrightarrow> j < length d \<Longrightarrow>
     write_at off vs d ! j = (if off \<le> j \<and> j < off + length vs then vs ! (j - off) else d ! j)"
  by (auto simp: write_at_def nth_append min_def)

lemma length_map_range [simp]: "off + n \<le> length d \<Longrightarrow> length (map_range f off n d) = length d"
  by (simp add: map_range_def)

lemma map_range_nth:
  "off + n \<le> length d \<Longrightarrow> j < length d \<Longrightarrow>
     map_range f off n d ! j = (if off \<le> j \<and> j < off + n then f (d ! j) else d ! j)"
  by (auto simp: map_range_def nth_append min_def)

lemma map_range_whole: "map_range f 0 (length d) d = map f d"
  by (simp add: map_range_def)

section \<open>Arrow column into a K payload\<close>

definition shift_down :: "'a native \<Rightarrow> 'a \<Rightarrow> 'a \<Rightarrow> 'a \<Rightarrow> 'a" where
  "shift_down ops nullv sh v =
     (let lo = n_add ops nullv sh; w = n_sub ops v sh in if n_lt ops v lo then nullv else w)"

definition fill_prim ::
    "'a native \<Rightarrow> 'a list \<Rightarrow> null_buf option \<Rightarrow> 'a list \<Rightarrow> nat \<Rightarrow> 'a \<Rightarrow> 'a \<Rightarrow> 'a list" where
  "fill_prim ops vals nulls dst off nullv sh =
    (let n = length vals;
         d = write_at off vals dst;
         d = (if \<not> n_is_zero ops sh then map_range (shift_down ops nullv sh) off n d else d)
     in case nulls of None \<Rightarrow> d | Some nb \<Rightarrow> put_all off nullv (each_null nb) d)"

text \<open>The value row \<open>i\<close> of the batch ends up with.\<close>

definition prim_row :: "'a native \<Rightarrow> 'a list \<Rightarrow> null_buf option \<Rightarrow> 'a \<Rightarrow> 'a \<Rightarrow> nat \<Rightarrow> 'a" where
  "prim_row ops vals nulls nullv sh i =
    (if (case nulls of None \<Rightarrow> True | Some nb \<Rightarrow> nb_valid nb i)
     then (if n_is_zero ops sh then vals ! i else shift_down ops nullv sh (vals ! i))
     else nullv)"

lemma length_fill_prim:
  "off + length vals \<le> length dst \<Longrightarrow> length (fill_prim ops vals nulls dst off nullv sh) = length dst"
  by (simp add: fill_prim_def Let_def split: option.splits)

lemma fill_prim_nth:
  assumes fit: "off + length vals \<le> length dst" and j: "j < length dst"
    and nb: "\<And>nb. nulls = Some nb \<Longrightarrow> nb_ok nb \<and> nb_length nb = length vals"
  shows "fill_prim ops vals nulls dst off nullv sh ! j =
    (if off \<le> j \<and> j < off + length vals then prim_row ops vals nulls nullv sh (j - off) else dst ! j)"
proof (cases nulls)
  case None
  then show ?thesis
    using fit j by (simp add: fill_prim_def prim_row_def Let_def write_at_nth map_range_nth)
next
  case (Some b)
  then show ?thesis
    using fit j nb[OF Some]
    by (simp add: fill_prim_def prim_row_def Let_def write_at_nth map_range_nth
        arrow_nulls.patched_nth)
qed

section \<open>A column decoded in place\<close>

text \<open>
  The page decoder leaves the non-null values packed at the front. \<open>patch_back\<close> is the
  backwards loop of \<^verbatim>\<open>patch\<close> over rows \<open>i - 1, \<dots>, 0\<close>; \<open>vp\<close> is the
  source index, and None is a decrement below zero.
\<close>

definition patch_shift :: "'a native \<Rightarrow> 'a \<Rightarrow> 'a \<Rightarrow> 'a \<Rightarrow> 'a \<Rightarrow> 'a" where
  "patch_shift ops nullv sh mul w =
    (let lo = n_add ops nullv sh;
         scaled = (if n_is_one ops mul then Some w else n_mul ops w mul)
     in case scaled of None \<Rightarrow> nullv
        | Some w \<Rightarrow>
            if n_is_zero ops sh then w
            else if n_lt ops w lo then nullv
            else n_sub ops w sh)"

fun patch_back ::
    "('a \<Rightarrow> 'a) \<Rightarrow> 'a \<Rightarrow> i16 list \<Rightarrow> i16 \<Rightarrow> nat \<Rightarrow> nat \<Rightarrow> 'a list \<Rightarrow> 'a list option" where
  "patch_back shift nullv dl maxdef 0 vp d = Some d"
| "patch_back shift nullv dl maxdef (Suc i) vp d =
    (if dl ! i = maxdef
     then (case vp of 0 \<Rightarrow> None
           | Suc vp' \<Rightarrow> patch_back shift nullv dl maxdef i vp' (d[i := shift (d ! vp')]))
     else patch_back shift nullv dl maxdef i vp (d[i := nullv]))"

definition patch ::
    "'a native \<Rightarrow> 'a list \<Rightarrow> nat \<Rightarrow> nat \<Rightarrow> 'a \<Rightarrow> 'a \<Rightarrow> 'a \<Rightarrow> i16 list option \<Rightarrow> i16 \<Rightarrow> 'a list option" where
  "patch ops d n vals nullv sh mul defs maxdef =
    (let one = n_is_one ops mul; shift = patch_shift ops nullv sh mul;
         spread = (case defs of Some dl \<Rightarrow> vals < n \<and> length dl \<ge> n | None \<Rightarrow> False)
     in if spread then patch_back shift nullv (the defs) maxdef n vals d
        else if \<not> n_is_zero ops sh \<or> \<not> one then Some (map_range shift 0 n d)
        else Some d)"

text \<open>What the pass should produce: each level takes the next packed value or a null.\<close>

fun spread :: "('a \<Rightarrow> 'a) \<Rightarrow> 'a \<Rightarrow> i16 \<Rightarrow> i16 list \<Rightarrow> 'a list \<Rightarrow> 'a list" where
  "spread shift nullv maxdef [] packed = []"
| "spread shift nullv maxdef (l # ls) packed =
    (if l = maxdef then shift (hd packed) # spread shift nullv maxdef ls (tl packed)
     else nullv # spread shift nullv maxdef ls packed)"

lemma length_spread [simp]: "length (spread shift nullv maxdef ls packed) = length ls"
  by (induction ls arbitrary: packed) auto

lemma spread_snoc:
  "length packed = count_list ls maxdef \<Longrightarrow>
     spread shift nullv maxdef (ls @ [l]) (packed @ rest) =
     spread shift nullv maxdef ls packed @ [if l = maxdef then shift (hd rest) else nullv]"
proof (induction ls arbitrary: packed)
  case Nil
  then show ?case by simp
next
  case (Cons l' ls)
  show ?case
  proof (cases "l' = maxdef")
    case True
    with Cons.prems obtain p ps where "packed = p # ps"
      by (cases packed) auto
    with True Cons show ?thesis by simp
  next
    case False
    with Cons show ?thesis by simp
  qed
qed

lemma count_take_Suc:
  "i < length xs \<Longrightarrow> count_list (take (Suc i) xs) x = count_list (take i xs) x + (if xs ! i = x then 1 else 0)"
  by (simp add: take_Suc_conv_app_nth)

lemma count_list_le: "count_list xs x \<le> length xs"
  by (induction xs) auto

text \<open>
  The loop is right because its source index never passes its destination: the first
  \<open>i\<close> levels consume at most \<open>i\<close> values.
\<close>

lemma patch_back_spread:
  assumes "i \<le> length dl" "i \<le> length d" "vp = count_list (take i dl) maxdef"
  shows "patch_back shift nullv dl maxdef i vp d =
    Some (spread shift nullv maxdef (take i dl) (take vp d) @ drop i d)"
  using assms
proof (induction i arbitrary: vp d)
  case 0
  then show ?case by simp
next
  case (Suc i)
  have dl: "take (Suc i) dl = take i dl @ [dl ! i]"
    using Suc.prems(1) by (simp add: take_Suc_conv_app_nth)
  have c: "count_list (take i dl) maxdef \<le> i"
    using count_list_le[of "take i dl" maxdef] by simp
  show ?case
  proof (cases "dl ! i = maxdef")
    case True
    then have vp: "vp = Suc (count_list (take i dl) maxdef)" (is "vp = Suc ?vp")
      using Suc.prems by (simp add: count_take_Suc)
    let ?d = "d[i := shift (d ! ?vp)]"
    have "patch_back shift nullv dl maxdef (Suc i) vp d =
        Some (spread shift nullv maxdef (take i dl) (take ?vp ?d) @ drop i ?d)"
      using True vp Suc.IH[of ?d ?vp] Suc.prems by simp
    moreover have "take ?vp ?d = take ?vp d"
      using c by simp
    moreover have "drop i ?d = shift (d ! ?vp) # drop (Suc i) d"
      using Suc.prems by (simp add: Cons_nth_drop_Suc[symmetric] drop_update_swap)
    moreover have "take vp d = take ?vp d @ [d ! ?vp]"
      using vp c Suc.prems by (simp add: take_Suc_conv_app_nth)
    ultimately show ?thesis
      using c Suc.prems True by (simp add: dl spread_snoc)
  next
    case False
    then have vp: "vp = count_list (take i dl) maxdef"
      using Suc.prems by (simp add: count_take_Suc)
    let ?d = "d[i := nullv]"
    have "patch_back shift nullv dl maxdef (Suc i) vp d =
        Some (spread shift nullv maxdef (take i dl) (take vp ?d) @ drop i ?d)"
      using False vp Suc.IH[of ?d vp] Suc.prems by simp
    moreover have "take vp ?d = take vp d"
      using c vp by simp
    moreover have "drop i ?d = nullv # drop (Suc i) d"
      using Suc.prems by (simp add: Cons_nth_drop_Suc[symmetric] drop_update_swap)
    moreover have "spread shift nullv maxdef (take i dl @ [dl ! i]) (take vp d @ []) =
        spread shift nullv maxdef (take i dl) (take vp d) @ [nullv]"
      using c vp Suc.prems False by (subst spread_snoc) simp_all
    ultimately show ?thesis
      using False by (simp add: dl)
  qed
qed

section \<open>The shift as a checked subtraction\<close>

text \<open>
  \<open>nullv\<close> is the type's minimum for every shifted column, so the compare-and-select
  of the copy loop is the checked subtraction it replaces.
\<close>

lemma shift_down_checked:
  assumes "sint nullv = - (2 ^ (LENGTH('a) - 1))" "0 \<le> sint (sh :: 'a::len word)"
  shows "shift_down signed_native nullv sh v =
    (case checked_sub_s v sh of None \<Rightarrow> nullv | Some w \<Rightarrow> w)"
proof -
  have "sint (nullv + sh) = sint nullv + sint sh"
    using assms sint_less[of sh] by (intro sint_add_fits) (simp add: fits_signed_def)
  moreover have "sint v - sint sh < 2 ^ (LENGTH('a) - 1)"
    using sint_less[of v] assms(2) by simp
  ultimately show ?thesis
    using assms by (auto simp: shift_down_def Let_def checked_sub_s_def fits_signed_def)
qed

lemma shift_down_NJ:
  "shift_down signed_native NJ NS2000 v = (case checked_sub_s v NS2000 of None \<Rightarrow> NJ | Some w \<Rightarrow> w)"
  by (rule shift_down_checked) (simp_all add: sint_nulls sint_epochs)

lemma shift_down_NI:
  "shift_down signed_native NI DAY2000 v = (case checked_sub_s v DAY2000 of None \<Rightarrow> NI | Some w \<Rightarrow> w)"
  by (rule shift_down_checked) (simp_all add: sint_nulls sint_epochs)

section \<open>Both decode paths agree\<close>

text \<open>A decoded column as optional rows, the values it packs, and the value each row gets.\<close>

definition packed :: "'a option list \<Rightarrow> 'a list" where
  "packed rows = map the (filter (\<lambda>r. r \<noteq> None) rows)"

definition row_value :: "'a native \<Rightarrow> 'a \<Rightarrow> 'a \<Rightarrow> 'a \<Rightarrow> 'a option \<Rightarrow> 'a" where
  "row_value ops nullv sh mul r =
    (case r of None \<Rightarrow> nullv | Some v \<Rightarrow> patch_shift ops nullv sh mul v)"

definition levels_of :: "i16 list \<Rightarrow> i16 \<Rightarrow> 'a option list \<Rightarrow> bool" where
  "levels_of dl maxdef rows \<longleftrightarrow> list_all2 (\<lambda>l r. l = maxdef \<longleftrightarrow> r \<noteq> None) dl rows"

lemma packed_simps [simp]:
  "packed [] = []"
  "packed (None # rows) = packed rows"
  "packed (Some v # rows) = v # packed rows"
  by (simp_all add: packed_def)

lemma levels_count: "levels_of dl maxdef rows \<Longrightarrow> count_list dl maxdef = length (packed rows)"
  unfolding levels_of_def
proof (induction rule: list_all2_induct)
  case (Cons l dl r rows)
  then show ?case by (cases r) auto
qed simp

lemma levels_length: "levels_of dl maxdef rows \<Longrightarrow> length dl = length rows"
  by (simp add: levels_of_def list_all2_lengthD)

lemma spread_packed:
  "levels_of dl maxdef rows \<Longrightarrow>
     spread shift nullv maxdef dl (packed rows) =
     map (\<lambda>r. case r of None \<Rightarrow> nullv | Some v \<Rightarrow> shift v) rows"
  unfolding levels_of_def
proof (induction rule: list_all2_induct)
  case (Cons l dl r rows)
  then show ?case by (cases r) auto
qed simp

lemma packed_le: "length (packed rows) \<le> length rows"
  by (simp add: packed_def)

lemma packed_full: "length (packed rows) = length rows \<Longrightarrow> map Some (packed rows) = rows"
proof (induction rows)
  case (Cons r rows)
  then show ?case
    using packed_le[of rows] by (cases r) auto
qed simp

lemma patch_shift_id:
  "n_is_zero ops sh \<Longrightarrow> n_is_one ops mul \<Longrightarrow> patch_shift ops nullv sh mul w = w"
  by (simp add: patch_shift_def)

text \<open>
  The pass is right for every column the decoder can hand over: levels that say which rows
  are null, the packed values at the front of the range, anything behind them.
\<close>

lemma patch_rows:
  assumes lv: "levels_of dl maxdef rows"
    and d: "length d = length rows" "take (length (packed rows)) d = packed rows"
  shows "patch ops d (length rows) (length (packed rows)) nullv sh mul (Some dl) maxdef =
    Some (map (row_value ops nullv sh mul) rows)"
proof (cases "length (packed rows) = length rows")
  case True
  then have dd: "d = packed rows"
    using d by simp
  have "map (row_value ops nullv sh mul) (map Some (packed rows)) = map (patch_shift ops nullv sh mul) (packed rows)"
    by (simp add: row_value_def)
  then have "map (row_value ops nullv sh mul) rows = map (patch_shift ops nullv sh mul) d"
    unfolding packed_full[OF True] dd .
  then show ?thesis
    using True d by (auto simp: patch_def Let_def map_range_def patch_shift_id map_idI)
next
  case False
  then have "length (packed rows) < length rows"
    using packed_le[of rows] by simp
  moreover have "patch_back (patch_shift ops nullv sh mul) nullv dl maxdef (length rows) (length (packed rows)) d
      = Some (map (row_value ops nullv sh mul) rows)"
    using patch_back_spread[of "length rows" dl d "length (packed rows)" maxdef]
      levels_length[OF lv] levels_count[OF lv] d spread_packed[OF lv]
    by (simp add: row_value_def[abs_def])
  ultimately show ?thesis
    using levels_length[OF lv] by (simp add: patch_def Let_def)
qed

text \<open>
  What the Arrow path sees of the same column: \<^verbatim>\<open>cast\<close> to nanoseconds in its
  safe mode nulls a row whose scaled value does not fit, and scales the others.
\<close>

definition safe_cast ::
    "'a native \<Rightarrow> 'a \<Rightarrow> 'a option list \<Rightarrow> 'a list \<Rightarrow> null_buf option \<Rightarrow> bool" where
  "safe_cast ops mul rows vals nulls \<longleftrightarrow>
     length vals = length rows \<and>
     (\<forall>nb. nulls = Some nb \<longrightarrow> nb_ok nb \<and> nb_length nb = length rows) \<and>
     (\<forall>i < length rows.
        case Option.bind (rows ! i) (\<lambda>v. if n_is_one ops mul then Some v else n_mul ops v mul) of
          None \<Rightarrow> (\<exists>nb. nulls = Some nb \<and> \<not> nb_valid nb i)
        | Some w \<Rightarrow> vals ! i = w \<and> (\<forall>nb. nulls = Some nb \<longrightarrow> nb_valid nb i))"

lemma prim_row_safe_cast:
  assumes "safe_cast ops mul rows vals nulls" "i < length rows"
  shows "prim_row ops vals nulls nullv sh i = row_value ops nullv sh mul (rows ! i)"
  using assms unfolding safe_cast_def
  by (cases "rows ! i")
     (auto simp: prim_row_def row_value_def patch_shift_def shift_down_def Let_def
       split: option.splits if_splits)

lemma fill_prim_rows:
  assumes "safe_cast ops mul rows vals nulls" "length dst = length rows"
  shows "fill_prim ops vals nulls dst 0 nullv sh = map (row_value ops nullv sh mul) rows"
proof (rule nth_equalityI)
  show "length (fill_prim ops vals nulls dst 0 nullv sh) = length (map (row_value ops nullv sh mul) rows)"
    using assms by (subst length_fill_prim) (auto simp: safe_cast_def)
next
  fix j
  assume "j < length (fill_prim ops vals nulls dst 0 nullv sh)"
  then have "j < length rows"
    using assms by (subst (asm) length_fill_prim) (auto simp: safe_cast_def)
  then show "fill_prim ops vals nulls dst 0 nullv sh ! j = map (row_value ops nullv sh mul) rows ! j"
    using assms prim_row_safe_cast[OF assms(1), of j nullv sh]
    by (subst fill_prim_nth) (auto simp: safe_cast_def)
qed

section \<open>Properties\<close>

text \<open>C11
  The two ways a fixed-width column is read give the same values: a column decoded in place
  and finished by \<^verbatim>\<open>patch\<close>, and the same column delivered by Arrow (its
  safe cast nulling what does not fit) and copied by \<^verbatim>\<open>fill_prim\<close>.
\<close>

theorem raw_arrow_agree:
  assumes "levels_of dl maxdef rows" "length d = length rows" "take (length (packed rows)) d = packed rows"
    and "safe_cast ops mul rows vals nulls" "length dst = length rows"
  shows "patch ops d (length rows) (length (packed rows)) nullv sh mul (Some dl) maxdef =
    Some (fill_prim ops vals nulls dst 0 nullv sh)"
  using assms by (simp add: patch_rows fill_prim_rows)

theorem raw_arrow_agree_witness:
  "patch signed_native [3, 99] 2 1 NJ NS2000 1000 (Some [1, 0]) 1 =
    Some (fill_prim signed_native [3000, 0 :: i64]
      (Some \<lparr>nb_chunks = [], nb_rem_len = 2, nb_rem = 1\<rparr>) [7, 7] 0 NJ NS2000)"
proof -
  have "safe_cast signed_native 1000 [Some 3, None] [3000, 0 :: i64] (Some \<lparr>nb_chunks = [], nb_rem_len = 2, nb_rem = 1\<rparr>)"
    by (simp add: safe_cast_def nb_ok_def nb_length_def nb_valid_def All_less_Suc checked_mul_s_def fits_signed_def)
  moreover have "levels_of [1, 0] 1 [Some (3 :: i64), None]"
    by (simp add: levels_of_def)
  ultimately show ?thesis
    using raw_arrow_agree[of "[1, 0]" 1 "[Some (3 :: i64), None]" "[3, 99]" signed_native 1000 "[3000, 0]"
        "Some \<lparr>nb_chunks = [], nb_rem_len = 2, nb_rem = 1\<rparr>" "[7, 7]" NJ NS2000]
    by (simp add: numeral_2_eq_2)
qed

end
