(* ===== verification/SymCache.thy ===== *)
theory SymCache
  imports Memo Convert
begin

text \<open>
  Symbols in \<^verbatim>\<open>src/src/read.rs\<close>: the direct-mapped cache in front of the
  host's intern table, the per-worker memo of resolved dictionaries, and the two
  converters that fill a symbol column. The host is two parameters: \<open>intern\<close>, its
  \<^verbatim>\<open>sn\<close>, and \<open>rd p n\<close>, the \<open>n\<close> bytes at an interned pointer. Arrow
  arrays are shared objects: \<open>deref a\<close> is the content behind the pointer \<open>a\<close>, a list
  of optional byte strings, or the error of \<^verbatim>\<open>utf8_of\<close> on it.
\<close>

text \<open>
  A symbol is an address of the host, 0 the null pointer. Addresses are not bounded here, so
  that one host can keep every byte string apart.
\<close>

type_synonym ptr = nat
type_synonym arc = nat
type_synonym utf8s = "u8 list option list result"

section \<open>The hash\<close>

definition SLOTS :: nat where "SLOTS = 4096"
definition LONG :: nat where "LONG = 4096"
definition DICTS :: nat where "DICTS = 4"

definition FXM :: u64 where "FXM = 0x517cc1b727220a95"

definition le_u64 :: "u8 list \<Rightarrow> u64" where
  "le_u64 bs = of_nat (of_le bs)"

function fxh_loop :: "u64 \<Rightarrow> u8 list \<Rightarrow> u64" where
  "fxh_loop h c =
    (if length c \<ge> 8 then fxh_loop ((h XOR le_u64 (take 8 c)) * FXM) (drop 8 c)
     else if c \<noteq> [] then (h XOR le_u64 (c @ replicate (8 - length c) 0)) * FXM
     else h)"
  by pat_completeness auto
termination
  by (relation "measure (\<lambda>(h, c). length c)") auto

declare fxh_loop.simps [simp del]

definition fxh :: "u8 list \<Rightarrow> u64" where
  "fxh b = (let h = fxh_loop (of_nat (length b)) b in h XOR drop_bit 29 h)"

section \<open>The cache\<close>

record slot =
  sl_tag :: u32
  sl_len :: u32
  sl_sym :: ptr

record sym_cache =
  sc_slots :: "slot list"
  sc_dicts :: "(arc \<times> ptr list) list"
  sc_luts :: "(arc \<times> u32 list option) list"

definition sc_new :: sym_cache where
  "sc_new = \<lparr>sc_slots = replicate SLOTS \<lparr>sl_tag = 0, sl_len = 0, sl_sym = 0\<rparr>,
     sc_dicts = [], sc_luts = []\<rparr>"

definition slot_index :: "u64 \<Rightarrow> nat" where
  "slot_index h = unat (h AND of_nat (SLOTS - 1))"

definition slot_hit :: "(ptr \<Rightarrow> nat \<Rightarrow> u8 list) \<Rightarrow> slot \<Rightarrow> u32 \<Rightarrow> u8 list \<Rightarrow> bool" where
  "slot_hit rd s tag b \<longleftrightarrow> sl_sym s \<noteq> 0 \<and> sl_tag s = tag \<and> unat (sl_len s) = length b
     \<and> rd (sl_sym s) (length b) = b"

definition sc_get ::
    "(u8 list \<Rightarrow> ptr) \<Rightarrow> (ptr \<Rightarrow> nat \<Rightarrow> u8 list) \<Rightarrow> u8 list \<Rightarrow> sym_cache \<Rightarrow> ptr \<times> sym_cache" where
  "sc_get intern rd b sy =
    (if length b \<ge> LONG then (intern b, sy)
     else let h = fxh b; k = slot_index h; s = sc_slots sy ! k; tag = ucast (drop_bit 32 h) in
       if slot_hit rd s tag b then (sl_sym s, sy)
       else let p = intern b in
         (p, sy\<lparr>sc_slots := (sc_slots sy)[k := \<lparr>sl_tag = tag, sl_len = of_nat (length b), sl_sym = p\<rparr>]\<rparr>))"

fun sc_get_all ::
    "(u8 list \<Rightarrow> ptr) \<Rightarrow> (ptr \<Rightarrow> nat \<Rightarrow> u8 list) \<Rightarrow> (sym_cache \<Rightarrow> ptr \<times> sym_cache) \<Rightarrow>
     u8 list option list \<Rightarrow> sym_cache \<Rightarrow> ptr list \<times> sym_cache" where
  "sc_get_all intern rd null_row [] sy = ([], sy)"
| "sc_get_all intern rd null_row (v # vs) sy =
    (let (p, sy1) = (case v of None \<Rightarrow> null_row sy | Some b \<Rightarrow> sc_get intern rd b sy);
         (ps, sy2) = sc_get_all intern rd null_row vs sy1
     in (p # ps, sy2))"

text \<open>
  \<^verbatim>\<open>dict_table\<close>: the dictionary's values as interned pointers, built once per array.
\<close>

definition dict_table ::
    "(u8 list \<Rightarrow> ptr) \<Rightarrow> (ptr \<Rightarrow> nat \<Rightarrow> u8 list) \<Rightarrow> (arc \<Rightarrow> utf8s) \<Rightarrow> arc \<Rightarrow> ptr \<Rightarrow> sym_cache \<Rightarrow>
     (ptr list \<times> sym_cache) result" where
  "dict_table intern rd deref vals e0 sy =
    (case mru_find vals (sc_dicts sy) of
       Some (t, ds) \<Rightarrow> Inr (t, sy\<lparr>sc_dicts := ds\<rparr>)
     | None \<Rightarrow> rbind (deref vals) (\<lambda>sa.
         let (t, sy1) = sc_get_all intern rd (\<lambda>sy. (e0, sy)) sa sy
         in Inr (t, sy1\<lparr>sc_dicts := mru_put DICTS vals t (sc_dicts sy1)\<rparr>)))"

text \<open>A dictionary array: its keys as \<^verbatim>\<open>as_usize\<close> reads them, their nulls, its values.\<close>

record dict_array =
  da_keys :: "nat list"
  da_nulls :: "null_buf option"
  da_values :: arc

definition gather :: "ptr list \<Rightarrow> ptr \<Rightarrow> nat \<Rightarrow> ptr" where
  "gather tbl e0 k = (if k < length tbl then tbl ! k else e0)"

definition fill_sym_dict ::
    "(u8 list \<Rightarrow> ptr) \<Rightarrow> (ptr \<Rightarrow> nat \<Rightarrow> u8 list) \<Rightarrow> (arc \<Rightarrow> utf8s) \<Rightarrow> dict_array \<Rightarrow> ptr list \<Rightarrow> nat \<Rightarrow>
     sym_cache \<Rightarrow> (ptr list \<times> sym_cache) result" where
  "fill_sym_dict intern rd deref a col off sy =
    (let (e0, sy1) = sc_get intern rd [] sy in
     rbind (dict_table intern rd deref (da_values a) e0 sy1) (\<lambda>(tbl, sy2).
       let d = write_at off (map (gather tbl e0) (da_keys a)) col
       in Inr (case da_nulls a of None \<Rightarrow> d | Some nb \<Rightarrow> put_all off e0 (each_null nb) d, sy2)))"

definition fill_sym_plain ::
    "(u8 list \<Rightarrow> ptr) \<Rightarrow> (ptr \<Rightarrow> nat \<Rightarrow> u8 list) \<Rightarrow> (arc \<Rightarrow> utf8s) \<Rightarrow> arc \<Rightarrow> ptr list \<Rightarrow> nat \<Rightarrow>
     sym_cache \<Rightarrow> (ptr list \<times> sym_cache) result" where
  "fill_sym_plain intern rd deref arr col off sy =
    rbind (deref arr) (\<lambda>a.
      let (e0, sy1) = sc_get intern rd [] sy;
          (ps, sy2) = sc_get_all intern rd (\<lambda>sy. (e0, sy)) a sy1
      in Inr (write_at off ps col, sy2))"

section \<open>The invariant\<close>

text \<open>
  What the library relies on of the host: interned bytes can be read back at the pointer.
\<close>

definition host_ok :: "(u8 list \<Rightarrow> ptr) \<Rightarrow> (ptr \<Rightarrow> nat \<Rightarrow> u8 list) \<Rightarrow> bool" where
  "host_ok intern rd \<longleftrightarrow> (\<forall>b. rd (intern b) (length b) = b)"

definition slot_ok :: "(u8 list \<Rightarrow> ptr) \<Rightarrow> slot \<Rightarrow> bool" where
  "slot_ok intern s \<longleftrightarrow> sl_sym s = 0 \<or> (\<exists>b. length b = unat (sl_len s) \<and> sl_sym s = intern b)"

definition table_of :: "(u8 list \<Rightarrow> ptr) \<Rightarrow> u8 list option list \<Rightarrow> ptr list" where
  "table_of intern sa = map (\<lambda>v. case v of None \<Rightarrow> intern [] | Some b \<Rightarrow> intern b) sa"

definition dict_entry_ok :: "(u8 list \<Rightarrow> ptr) \<Rightarrow> (arc \<Rightarrow> utf8s) \<Rightarrow> arc \<Rightarrow> ptr list \<Rightarrow> bool" where
  "dict_entry_ok intern deref a t \<longleftrightarrow> (\<exists>sa. deref a = Inr sa \<and> t = table_of intern sa)"

definition sc_inv :: "(u8 list \<Rightarrow> ptr) \<Rightarrow> (arc \<Rightarrow> utf8s) \<Rightarrow> sym_cache \<Rightarrow> bool" where
  "sc_inv intern deref sy \<longleftrightarrow>
     length (sc_slots sy) = SLOTS \<and> list_all (slot_ok intern) (sc_slots sy) \<and>
     length (sc_dicts sy) \<le> DICTS \<and> (\<forall>(a, t) \<in> set (sc_dicts sy). dict_entry_ok intern deref a t)"

interpretation dict_memo: memo mru_find "mru_put DICTS" set length DICTS
  by (rule mru_memo) (simp add: DICTS_def)

lemma slot_index_less: "slot_index h < SLOTS"
proof -
  have "h AND of_nat (SLOTS - 1) = take_bit 12 h"
    by (simp add: SLOTS_def take_bit_eq_mask mask_eq_exp_minus_1)
  moreover have "unat (take_bit 12 h) < 2 ^ 12"
    unfolding unsigned_take_bit_eq by (rule take_bit_nat_less_exp)
  ultimately show ?thesis
    by (simp add: slot_index_def SLOTS_def)
qed

lemma sc_new_inv: "sc_inv intern deref sc_new"
  by (simp add: sc_inv_def sc_new_def slot_ok_def list_all_iff DICTS_def)

text \<open>The cache is transparent: whatever is in it, the answer is the interned pointer.\<close>

lemma sc_get_correct:
  assumes inv: "sc_inv intern deref sy" and host: "host_ok intern rd"
    and get: "sc_get intern rd b sy = (p, sy')"
  shows "p = intern b" "sc_inv intern deref sy'" "sc_dicts sy' = sc_dicts sy" "sc_luts sy' = sc_luts sy"
proof -
  let ?k = "slot_index (fxh b)" and ?tag = "ucast (drop_bit 32 (fxh b)) :: u32"
  let ?s = "sc_slots sy ! ?k"
  have k: "?k < length (sc_slots sy)"
    using inv slot_index_less[of "fxh b"] by (simp add: sc_inv_def)
  have hit: "sl_sym ?s = intern b" if "slot_hit rd ?s ?tag b"
  proof -
    have "slot_ok intern ?s"
      using inv k by (simp add: sc_inv_def list_all_length)
    with that obtain b' where "length b' = length b" "sl_sym ?s = intern b'"
      by (auto simp: slot_hit_def slot_ok_def)
    with that host show ?thesis
      by (metis host_ok_def slot_hit_def)
  qed
  have new: "slot_ok intern \<lparr>sl_tag = ?tag, sl_len = of_nat (length b), sl_sym = intern b\<rparr>"
    if "length b < LONG"
    using that by (auto simp: slot_ok_def LONG_def unat_of_nat intro!: disjI2 exI[of _ b])
  have upd: "sc_inv intern deref (sy\<lparr>sc_slots := (sc_slots sy)[?k := s]\<rparr>)" if "slot_ok intern s" for s
    using inv that set_update_subset_insert[of "sc_slots sy" ?k s] by (auto simp: sc_inv_def list_all_iff)
  consider "length b \<ge> LONG" | "length b < LONG" "slot_hit rd ?s ?tag b"
    | "length b < LONG" "\<not> slot_hit rd ?s ?tag b"
    by linarith
  then show "p = intern b" "sc_inv intern deref sy'" "sc_dicts sy' = sc_dicts sy" "sc_luts sy' = sc_luts sy"
    using get inv hit upd[OF new] by (cases; auto simp: sc_get_def Let_def)+
qed

lemma sc_get_all_correct:
  assumes "sc_inv intern deref sy" "host_ok intern rd"
    and "sc_get_all intern rd (\<lambda>sy. (intern [], sy)) vs sy = (ps, sy')"
  shows "ps = table_of intern vs \<and> sc_inv intern deref sy' \<and> sc_dicts sy' = sc_dicts sy \<and> sc_luts sy' = sc_luts sy"
  using assms
proof (induction vs arbitrary: sy ps sy')
  case Nil
  then show ?case by (simp add: table_of_def)
next
  case (Cons v vs)
  obtain p sy1 where v: "(case v of None \<Rightarrow> (intern [], sy) | Some b \<Rightarrow> sc_get intern rd b sy) = (p, sy1)"
    by fastforce
  obtain ps1 sy2 where rest: "sc_get_all intern rd (\<lambda>sy. (intern [], sy)) vs sy1 = (ps1, sy2)"
    by fastforce
  have "p = (case v of None \<Rightarrow> intern [] | Some b \<Rightarrow> intern b) \<and> sc_inv intern deref sy1 \<and>
      sc_dicts sy1 = sc_dicts sy \<and> sc_luts sy1 = sc_luts sy"
    using v Cons.prems(1,2) sc_get_correct[of intern deref sy rd] by (cases v) auto
  moreover have "ps = p # ps1" "sy' = sy2"
    using Cons.prems(3) v rest by (simp_all split: option.splits)
  ultimately show ?case
    using Cons.IH[OF _ Cons.prems(2) rest] by (simp add: table_of_def)
qed

lemma dict_table_correct:
  assumes inv: "sc_inv intern deref sy" and host: "host_ok intern rd"
    and dt: "dict_table intern rd deref a (intern []) sy = Inr (t, sy')"
  shows "dict_entry_ok intern deref a t" "sc_inv intern deref sy'" "sc_luts sy' = sc_luts sy"
proof -
  have coh: "\<forall>(a, t) \<in> set (sc_dicts sy). dict_entry_ok intern deref a t"
    using inv by (simp add: sc_inv_def)
  consider (hit) ds where "mru_find a (sc_dicts sy) = Some (t, ds)" "sy' = sy\<lparr>sc_dicts := ds\<rparr>"
    | (miss) sa sy1 where "deref a = Inr sa"
        "sc_get_all intern rd (\<lambda>sy. (intern [], sy)) sa sy = (t, sy1)"
        "sy' = sy1\<lparr>sc_dicts := mru_put DICTS a t (sc_dicts sy1)\<rparr>"
  proof (cases "mru_find a (sc_dicts sy)")
    case None
    with dt obtain sa where sa: "deref a = Inr sa"
      by (auto simp: dict_table_def result_simps)
    obtain t1 sy1 where all: "sc_get_all intern rd (\<lambda>sy. (intern [], sy)) sa sy = (t1, sy1)"
      by fastforce
    show thesis
      using dt None sa all by (intro miss) (auto simp: dict_table_def)
  next
    case (Some r)
    with dt show thesis
      by (cases r) (intro hit, auto simp: dict_table_def)
  qed
  then have "dict_entry_ok intern deref a t \<and> sc_inv intern deref sy' \<and> sc_luts sy' = sc_luts sy"
  proof cases
    case hit
    then show ?thesis
      using inv dict_memo.find_coherent[OF hit(1) coh] dict_memo.find_bounded[OF hit(1)]
      by (simp add: sc_inv_def)
  next
    case miss
    note all = sc_get_all_correct[OF inv host miss(2)]
    then have t: "dict_entry_ok intern deref a t"
      using miss(1) by (simp add: dict_entry_ok_def)
    then have "\<forall>(a, t) \<in> set (mru_put DICTS a t (sc_dicts sy1)). dict_entry_ok intern deref a t"
      using all dict_memo.put_coherent[of "dict_entry_ok intern deref" a t "sc_dicts sy1"]
      by (simp add: sc_inv_def)
    with t show ?thesis
      using all miss(3) dict_memo.put_bound[of a t "sc_dicts sy1"] by (simp add: sc_inv_def)
  qed
  then show "dict_entry_ok intern deref a t" "sc_inv intern deref sy'" "sc_luts sy' = sc_luts sy"
    by simp_all
qed

section \<open>What a symbol column holds\<close>

text \<open>
  The optional byte string behind row \<open>i\<close> of a dictionary array: a null row, a key past
  the dictionary and a null entry all read as none.
\<close>

definition dict_row :: "u8 list option list \<Rightarrow> dict_array \<Rightarrow> nat \<Rightarrow> u8 list option" where
  "dict_row sa a i =
    (if (case da_nulls a of None \<Rightarrow> False | Some nb \<Rightarrow> \<not> nb_valid nb i) then None
     else if da_keys a ! i < length sa then sa ! (da_keys a ! i) else None)"

definition sym_of :: "(u8 list \<Rightarrow> ptr) \<Rightarrow> u8 list option \<Rightarrow> ptr" where
  "sym_of intern v = (case v of None \<Rightarrow> intern [] | Some b \<Rightarrow> intern b)"

definition dict_ok :: "dict_array \<Rightarrow> bool" where
  "dict_ok a \<longleftrightarrow> (\<forall>nb. da_nulls a = Some nb \<longrightarrow> nb_ok nb \<and> nb_length nb = length (da_keys a))"

lemma gather_table: "gather (table_of intern sa) (intern []) k =
    sym_of intern (if k < length sa then sa ! k else None)"
  by (simp add: gather_def table_of_def sym_of_def)

lemma length_table_of [simp]: "length (table_of intern sa) = length sa"
  by (simp add: table_of_def)

lemma fill_sym_dict_rows:
  assumes inv: "sc_inv intern deref sy" and host: "host_ok intern rd" and ok: "dict_ok a"
    and sa: "deref (da_values a) = Inr sa"
    and fit: "off + length (da_keys a) \<le> length col"
    and run: "fill_sym_dict intern rd deref a col off sy = Inr (col', sy')"
  shows "sc_inv intern deref sy' \<and>
    col' = write_at off (map (\<lambda>i. sym_of intern (dict_row sa a i)) [0..<length (da_keys a)]) col"
proof -
  obtain e0 sy1 where e0: "sc_get intern rd [] sy = (e0, sy1)"
    by fastforce
  note get = sc_get_correct[OF inv host e0]
  from run obtain tbl where dt: "dict_table intern rd deref (da_values a) (intern []) sy1 = Inr (tbl, sy')"
    and col': "col' = (let d = write_at off (map (gather tbl (intern [])) (da_keys a)) col in
        case da_nulls a of None \<Rightarrow> d | Some nb \<Rightarrow> put_all off (intern []) (each_null nb) d)"
    by (auto simp: fill_sym_dict_def e0 get(1) result_simps Let_def)
  note t = dict_table_correct[OF get(2) host dt]
  have tbl: "tbl = table_of intern sa"
    using t(1) sa by (simp add: dict_entry_ok_def)
  have "col' = write_at off (map (\<lambda>i. sym_of intern (dict_row sa a i)) [0..<length (da_keys a)]) col" (is "_ = ?r")
  proof (rule nth_equalityI)
    show "length col' = length ?r"
      using fit by (simp add: col' Let_def split: option.splits)
  next
    fix j
    assume "j < length col'"
    then have j: "j < length col"
      using fit by (simp add: col' Let_def split: option.splits)
    show "col' ! j = ?r ! j"
    proof (cases "da_nulls a")
      case None
      with fit j show ?thesis
        by (auto simp: col' Let_def write_at_nth dict_row_def tbl gather_table)
    next
      case (Some nb)
      with ok have "nb_ok nb" "nb_length nb = length (da_keys a)"
        by (simp_all add: dict_ok_def)
      with Some fit j show ?thesis
        by (auto simp: col' Let_def write_at_nth dict_row_def tbl gather_table
            arrow_nulls.patched_nth sym_of_def)
    qed
  qed
  with t(2) show ?thesis by simp
qed

lemma fill_sym_plain_rows:
  assumes inv: "sc_inv intern deref sy" and host: "host_ok intern rd"
    and a: "deref arr = Inr a"
    and run: "fill_sym_plain intern rd deref arr col off sy = Inr (col', sy')"
  shows "sc_inv intern deref sy' \<and> col' = write_at off (map (sym_of intern) a) col"
proof -
  obtain e0 sy1 where e0: "sc_get intern rd [] sy = (e0, sy1)"
    by fastforce
  note get = sc_get_correct[OF inv host e0]
  obtain ps sy2 where all: "sc_get_all intern rd (\<lambda>sy. (intern [], sy)) a sy1 = (ps, sy2)"
    by fastforce
  have "col' = write_at off ps col" "sy' = sy2"
    using run by (simp_all add: fill_sym_plain_def a e0 get(1) all)
  with sc_get_all_correct[OF get(2) host all] show ?thesis
    by (simp add: table_of_def sym_of_def[abs_def])
qed

lemma fill_sym_total:
  assumes "deref (da_values a) = Inr sa"
  shows "\<exists>r. fill_sym_dict intern rd deref a col off sy = Inr r"
  by (auto simp: fill_sym_dict_def dict_table_def assms Let_def split: prod.splits option.splits)

section \<open>A host\<close>

text \<open>
  A host that keeps every byte string apart: the address of a string is its bytes as a
  number, with a leading digit that keeps trailing zeros.
\<close>

definition number_intern :: "u8 list \<Rightarrow> ptr" where
  "number_intern b = of_le (b @ [1])"

definition number_rd :: "ptr \<Rightarrow> nat \<Rightarrow> u8 list" where
  "number_rd p n = to_le n p"

lemma to_le_append: "to_le (length b) (of_le (b @ xs)) = b"
proof (induction b)
  case (Cons x b)
  have "unat x < 256"
    using unsigned_less[of x, where 'a = nat] by simp
  with Cons show ?case by simp
qed simp

lemma number_host: "host_ok number_intern number_rd"
  by (simp add: host_ok_def number_intern_def number_rd_def to_le_append)

section \<open>Properties\<close>

text \<open>C16
  The symbol cache is transparent: a run of lookups through any cache the worker can have
  answers, row by row, what interning each string would.
\<close>

theorem sym_cache_transparent:
  assumes "host_ok intern rd" "sc_inv intern deref sy"
  shows "fst (sc_get_all intern rd (\<lambda>sy. (intern [], sy)) vs sy) = map (sym_of intern) vs \<and>
    sc_inv intern deref (snd (sc_get_all intern rd (\<lambda>sy. (intern [], sy)) vs sy))"
proof -
  obtain ps sy' where run: "sc_get_all intern rd (\<lambda>sy. (intern [], sy)) vs sy = (ps, sy')"
    by fastforce
  show ?thesis
    using sc_get_all_correct[OF assms(2,1) run] by (simp add: run table_of_def sym_of_def[abs_def])
qed

theorem sym_cache_transparent_witness:
  "fst (sc_get_all number_intern number_rd (\<lambda>sy. (number_intern [], sy)) [Some [97], None, Some [97]] sc_new)
     = [353, 1, 353]"
  using sym_cache_transparent[of number_intern number_rd "\<lambda>a. Inl []" sc_new "[Some [97], None, Some [97]]",
      OF number_host sc_new_inv]
  by (simp add: sym_of_def number_intern_def)

text \<open>C32
  The dictionary path and the plain path fill the same symbol column, whatever the cache
  holds: one intern per dictionary entry is worth one per row.
\<close>

theorem dict_plain_agree:
  assumes "host_ok intern rd" "sc_inv intern deref sy" "sc_inv intern deref sy'" "dict_ok a"
    and "deref (da_values a) = Inr sa" "deref arr = Inr (map (dict_row sa a) [0..<length (da_keys a)])"
    and "off + length (da_keys a) \<le> length col"
  shows "\<exists>col' t t'. fill_sym_dict intern rd deref a col off sy = Inr (col', t) \<and>
    fill_sym_plain intern rd deref arr col off sy' = Inr (col', t')"
proof -
  obtain c t where d: "fill_sym_dict intern rd deref a col off sy = Inr (c, t)"
    using fill_sym_total[of deref a sa intern rd col off sy] assms(5) by (metis surj_pair)
  obtain c' t' where p: "fill_sym_plain intern rd deref arr col off sy' = Inr (c', t')"
    unfolding fill_sym_plain_def assms(6) by (simp add: Let_def split_beta)
  have "c = c'"
    using fill_sym_dict_rows[OF assms(2,1,4,5,7) d] fill_sym_plain_rows[OF assms(3,1,6) p]
    by (simp add: o_def)
  with d p show ?thesis by blast
qed

definition ex_dict :: dict_array where
  "ex_dict = \<lparr>da_keys = [1, 0, 9], da_nulls = None, da_values = 0\<rparr>"

definition ex_deref :: "arc \<Rightarrow> utf8s" where
  "ex_deref a = (if a = 0 then Inr [Some [97], Some [98]] else Inr [Some [98], Some [97], None])"

theorem dict_plain_agree_witness:
  "\<exists>col' t t'. fill_sym_dict number_intern number_rd ex_deref ex_dict [0, 0, 0] 0 sc_new = Inr (col', t) \<and>
     fill_sym_plain number_intern number_rd ex_deref 1 [0, 0, 0] 0 sc_new = Inr (col', t')"
  by (rule dict_plain_agree[OF number_host sc_new_inv sc_new_inv, of _ _ "[Some [97], Some [98]]"])
     (simp_all add: ex_dict_def ex_deref_def dict_ok_def dict_row_def upt_rec)

end
