(* ===== verification/FillCol.thy ===== *)
theory FillCol
  imports SymCache
begin

text \<open>
  \<^verbatim>\<open>fill_col\<close> of \<^verbatim>\<open>src/src/read.rs\<close>: one Arrow batch column into the
  L column of an already validated type. A payload is typed by its element width; Arrow's
  \<^verbatim>\<open>cast\<close> kernel is the parameter \<open>cast\<close>.
\<close>

section \<open>Payloads and Arrow arrays\<close>

datatype payload =
    Pay8 "u8 list" | Pay16 "i16 list" | Pay32 "32 word list" | Pay64 "64 word list" | PaySym "ptr list"

text \<open>
  An Arrow array: its declared type and its buffers. Floats are their IEEE bits; a boolean
  array is one truth value per row, as \<^verbatim>\<open>BooleanBuffer::value\<close> answers them.
\<close>

datatype arr =
    ArrBool "bool list" "null_buf option"
  | Arr8 data_type "u8 list" "null_buf option"
  | Arr16 data_type "i16 list" "null_buf option"
  | Arr32 data_type "32 word list" "null_buf option"
  | Arr64 data_type "64 word list" "null_buf option"
  | ArrStr data_type arc
  | ArrDict data_type dict_array
  | ArrOther data_type nat

primrec arr_type :: "arr \<Rightarrow> data_type" where
  "arr_type (ArrBool bs nb) = Boolean"
| "arr_type (Arr8 dt xs nb) = dt"
| "arr_type (Arr16 dt xs nb) = dt"
| "arr_type (Arr32 dt xs nb) = dt"
| "arr_type (Arr64 dt xs nb) = dt"
| "arr_type (ArrStr dt a) = dt"
| "arr_type (ArrDict dt a) = dt"
| "arr_type (ArrOther dt n) = dt"

definition to_type :: "(arr \<Rightarrow> data_type \<Rightarrow> arr result) \<Rightarrow> arr \<Rightarrow> data_type \<Rightarrow> string \<Rightarrow> arr result" where
  "to_type cast a dt who = (if arr_type a = dt then Inr a else ctx who (cast a dt))"

text \<open>
  \<^verbatim>\<open>fill_prim\<close>'s downcast: an array whose type is not exactly the requested one
  has another layout.
\<close>

definition layout_err :: string where
  "layout_err = ''pq_read: unexpected array layout''"

definition prim8 :: "data_type \<Rightarrow> arr \<Rightarrow> payload \<Rightarrow> nat \<Rightarrow> u8 \<Rightarrow> payload result" where
  "prim8 dt a col off nullv = (case (a, col) of
     (Arr8 dt' xs nb, Pay8 d) \<Rightarrow>
       if dt' = dt then Inr (Pay8 (fill_prim signed_native xs nb d off nullv 0)) else Inl layout_err
   | _ \<Rightarrow> Inl layout_err)"

definition prim16 :: "data_type \<Rightarrow> arr \<Rightarrow> payload \<Rightarrow> nat \<Rightarrow> i16 \<Rightarrow> payload result" where
  "prim16 dt a col off nullv = (case (a, col) of
     (Arr16 dt' xs nb, Pay16 d) \<Rightarrow>
       if dt' = dt then Inr (Pay16 (fill_prim signed_native xs nb d off nullv 0)) else Inl layout_err
   | _ \<Rightarrow> Inl layout_err)"

definition prim32 :: "data_type \<Rightarrow> arr \<Rightarrow> payload \<Rightarrow> nat \<Rightarrow> 32 word \<Rightarrow> 32 word \<Rightarrow> payload result" where
  "prim32 dt a col off nullv sh = (case (a, col) of
     (Arr32 dt' xs nb, Pay32 d) \<Rightarrow>
       if dt' = dt then Inr (Pay32 (fill_prim signed_native xs nb d off nullv sh)) else Inl layout_err
   | _ \<Rightarrow> Inl layout_err)"

definition prim64 :: "data_type \<Rightarrow> arr \<Rightarrow> payload \<Rightarrow> nat \<Rightarrow> 64 word \<Rightarrow> 64 word \<Rightarrow> payload result" where
  "prim64 dt a col off nullv sh = (case (a, col) of
     (Arr64 dt' xs nb, Pay64 d) \<Rightarrow>
       if dt' = dt then Inr (Pay64 (fill_prim signed_native xs nb d off nullv sh)) else Inl layout_err
   | _ \<Rightarrow> Inl layout_err)"

text \<open>
  The float nulls are the quiet NaNs Rust's \<^verbatim>\<open>f32::NAN\<close> and \<^verbatim>\<open>f64::NAN\<close>
  spell. A float column has no shift, so the integer operations of the unused branch
  of \<open>fill_prim\<close> never apply to it.
\<close>

definition F32_NAN :: "32 word" where "F32_NAN = 0x7fc00000"
definition F64_NAN :: "64 word" where "F64_NAN = 0x7ff8000000000000"

definition fill_bool :: "arr \<Rightarrow> payload \<Rightarrow> nat \<Rightarrow> payload result" where
  "fill_bool a col off = (case (a, col) of
     (ArrBool bs nulls, Pay8 d) \<Rightarrow>
       let d = write_at off (map (\<lambda>b. of_bool b) bs) d
       in Inr (Pay8 (case nulls of None \<Rightarrow> d | Some nb \<Rightarrow> put_all off 0 (each_null nb) d))
   | _ \<Rightarrow> Inl ''pq_read: bool layout'')"

section \<open>The dispatch\<close>

definition fill_col ::
    "(u8 list \<Rightarrow> ptr) \<Rightarrow> (ptr \<Rightarrow> nat \<Rightarrow> u8 list) \<Rightarrow> (arc \<Rightarrow> utf8s) \<Rightarrow> (arr \<Rightarrow> data_type \<Rightarrow> arr result) \<Rightarrow>
     int \<Rightarrow> payload \<Rightarrow> nat \<Rightarrow> arr \<Rightarrow> sym_cache \<Rightarrow> (payload \<times> sym_cache) result" where
  "fill_col intern rd deref cast lt col off a sy =
    (let plain = (\<lambda>r. rbind r (\<lambda>p. Inr (p, sy))) in
     if lt = KB then plain (fill_bool a col off)
     else if lt = KG then
       (if arr_type a = Int8 then plain (prim8 Int8 a col off 0) else plain (prim8 UInt8 a col off 0))
     else if lt = KH then plain (prim16 Int16 a col off NH)
     else if lt = KI then plain (prim32 Int32 a col off NI 0)
     else if lt = KJ then plain (prim64 Int64 a col off NJ 0)
     else if lt = KE then plain (prim32 Float32 a col off F32_NAN 0)
     else if lt = KF then plain (prim64 Float64 a col off F64_NAN 0)
     else if lt = KP then
       rbind (to_type cast a (Timestamp Nanosecond None) ''pq_read: timestamp'') (\<lambda>ns.
         plain (prim64 (Timestamp Nanosecond None) ns col off NJ NS2000))
     else if lt = KD then plain (prim32 Date32 a col off NI DAY2000)
     else if lt = KT then plain (prim32 (Time32 Millisecond) a col off NI 0)
     else if lt = KN then
       rbind (to_type cast a (Duration Nanosecond) ''pq_read: duration'') (\<lambda>ns.
         plain (prim64 (Duration Nanosecond) ns col off NJ 0))
     else if lt = KS then
       (case (a, col) of
          (ArrDict dt da, PaySym d) \<Rightarrow>
            rbind (fill_sym_dict intern rd deref da d off sy) (\<lambda>(d, sy). Inr (PaySym d, sy))
        | (ArrStr dt s, PaySym d) \<Rightarrow>
            rbind (fill_sym_plain intern rd deref s d off sy) (\<lambda>(d, sy). Inr (PaySym d, sy))
        | _ \<Rightarrow> Inl ''pq_read: dict layout'')
     else Inl ''pq_read: internal type dispatch'')"

text \<open>The payload a vector of each L type has.\<close>

definition payload_for :: "int \<Rightarrow> payload \<Rightarrow> bool" where
  "payload_for lt col = (case col of
     Pay8 d \<Rightarrow> lt \<in> {KB, KG}
   | Pay16 d \<Rightarrow> lt = KH
   | Pay32 d \<Rightarrow> lt \<in> {KI, KE, KD, KT}
   | Pay64 d \<Rightarrow> lt \<in> {KJ, KF, KP, KN}
   | PaySym d \<Rightarrow> lt = KS)"

primrec payload_len :: "payload \<Rightarrow> nat" where
  "payload_len (Pay8 d) = length d"
| "payload_len (Pay16 d) = length d"
| "payload_len (Pay32 d) = length d"
| "payload_len (Pay64 d) = length d"
| "payload_len (PaySym d) = length d"

primrec arr_len :: "(arc \<Rightarrow> utf8s) \<Rightarrow> arr \<Rightarrow> nat" where
  "arr_len deref (ArrBool bs nb) = length bs"
| "arr_len deref (Arr8 dt xs nb) = length xs"
| "arr_len deref (Arr16 dt xs nb) = length xs"
| "arr_len deref (Arr32 dt xs nb) = length xs"
| "arr_len deref (Arr64 dt xs nb) = length xs"
| "arr_len deref (ArrStr dt s) = (case deref s of Inl e \<Rightarrow> 0 | Inr a \<Rightarrow> length a)"
| "arr_len deref (ArrDict dt da) = length (da_keys da)"
| "arr_len deref (ArrOther dt n) = n"

text \<open>A cast keeps the number of rows; that is all the bounds below ask of it.\<close>

definition cast_keeps_rows :: "(arc \<Rightarrow> utf8s) \<Rightarrow> (arr \<Rightarrow> data_type \<Rightarrow> arr result) \<Rightarrow> bool" where
  "cast_keeps_rows deref cast \<longleftrightarrow> (\<forall>a dt b. cast a dt = Inr b \<longrightarrow> arr_len deref b = arr_len deref a)"

lemma fill_sym_dict_length:
  "fill_sym_dict intern rd deref a col off sy = Inr (col', sy') \<Longrightarrow>
     off + length (da_keys a) \<le> length col \<Longrightarrow> length col' = length col"
  by (auto simp: fill_sym_dict_def result_simps Let_def split: prod.splits option.splits)

lemma prim_lengths:
  "prim8 dt a col off n8 = Inr p \<Longrightarrow> off + arr_len deref a \<le> payload_len col \<Longrightarrow>
     payload_len p = payload_len col \<and> (\<exists>d. p = Pay8 d) \<and> (\<exists>d. col = Pay8 d)"
  "prim16 dt a col off n16 = Inr p \<Longrightarrow> off + arr_len deref a \<le> payload_len col \<Longrightarrow>
     payload_len p = payload_len col \<and> (\<exists>d. p = Pay16 d) \<and> (\<exists>d. col = Pay16 d)"
  "prim32 dt a col off n32 sh32 = Inr p \<Longrightarrow> off + arr_len deref a \<le> payload_len col \<Longrightarrow>
     payload_len p = payload_len col \<and> (\<exists>d. p = Pay32 d) \<and> (\<exists>d. col = Pay32 d)"
  "prim64 dt a col off n64 sh64 = Inr p \<Longrightarrow> off + arr_len deref a \<le> payload_len col \<Longrightarrow>
     payload_len p = payload_len col \<and> (\<exists>d. p = Pay64 d) \<and> (\<exists>d. col = Pay64 d)"
  by (auto simp: prim8_def prim16_def prim32_def prim64_def length_fill_prim
      split: arr.splits payload.splits if_splits)

end
