(* ===== verification/Image.thy ===== *)
theory Image
  imports FillCol
begin

text \<open>
  What \<^verbatim>\<open>fill_col\<close> writes, as a value of its own: the image of an Arrow array
  under an L type, row by row. The converters of \<^theory_text>\<open>FillCol\<close> place exactly
  this image at their offset, whatever the payload, the cache and the offset are; the
  decoder's correctness is stated over images.
\<close>

section \<open>Images\<close>

fun pay_write :: "nat \<Rightarrow> payload \<Rightarrow> payload \<Rightarrow> payload" where
  "pay_write off (Pay8 v) (Pay8 d) = Pay8 (write_at off v d)"
| "pay_write off (Pay16 v) (Pay16 d) = Pay16 (write_at off v d)"
| "pay_write off (Pay32 v) (Pay32 d) = Pay32 (write_at off v d)"
| "pay_write off (Pay64 v) (Pay64 d) = Pay64 (write_at off v d)"
| "pay_write off (PaySym v) (PaySym d) = PaySym (write_at off v d)"
| "pay_write off v d = d"

text \<open>A payload as a list of cells, so that columns of every width share one algebra.\<close>

datatype cell = C8 u8 | C16 i16 | C32 "32 word" | C64 "64 word" | CSym ptr

primrec pay_cells :: "payload \<Rightarrow> cell list" where
  "pay_cells (Pay8 d) = map C8 d"
| "pay_cells (Pay16 d) = map C16 d"
| "pay_cells (Pay32 d) = map C32 d"
| "pay_cells (Pay64 d) = map C64 d"
| "pay_cells (PaySym d) = map CSym d"

primrec pay_kind :: "payload \<Rightarrow> nat" where
  "pay_kind (Pay8 d) = 0"
| "pay_kind (Pay16 d) = 1"
| "pay_kind (Pay32 d) = 2"
| "pay_kind (Pay64 d) = 3"
| "pay_kind (PaySym d) = 4"

lemma length_pay_cells [simp]: "length (pay_cells p) = payload_len p"
  by (cases p) simp_all

lemma map_write_at: "map f (write_at off v d) = write_at off (map f v) (map f d)"
  by (simp add: write_at_def take_map drop_map)

lemma pay_cells_write:
  "pay_kind v = pay_kind d \<Longrightarrow> pay_cells (pay_write off v d) = write_at off (pay_cells v) (pay_cells d)"
  by (cases v; cases d) (simp_all add: map_write_at)

lemma pay_kind_write [simp]: "pay_kind (pay_write off v d) = pay_kind d"
  by (cases v; cases d) simp_all

lemma payload_for_kind: "pay_kind p = pay_kind q \<Longrightarrow> payload_for lt p = payload_for lt q"
  by (cases p; cases q) (simp_all add: payload_for_def)

definition prim_image :: "'a native \<Rightarrow> 'a list \<Rightarrow> null_buf option \<Rightarrow> 'a \<Rightarrow> 'a \<Rightarrow> 'a list" where
  "prim_image ops xs nulls nullv sh = map (prim_row ops xs nulls nullv sh) [0..<length xs]"

definition bool_image :: "bool list \<Rightarrow> null_buf option \<Rightarrow> u8 list" where
  "bool_image bs nulls = map (\<lambda>i. if (case nulls of None \<Rightarrow> True | Some nb \<Rightarrow> nb_valid nb i)
     then of_bool (bs ! i) else 0) [0..<length bs]"

definition image8 :: "data_type \<Rightarrow> arr \<Rightarrow> u8 \<Rightarrow> payload result" where
  "image8 dt a nullv = (case a of
     Arr8 dt' xs nb \<Rightarrow> if dt' = dt then Inr (Pay8 (prim_image signed_native xs nb nullv 0)) else Inl layout_err
   | _ \<Rightarrow> Inl layout_err)"

definition image16 :: "data_type \<Rightarrow> arr \<Rightarrow> i16 \<Rightarrow> payload result" where
  "image16 dt a nullv = (case a of
     Arr16 dt' xs nb \<Rightarrow> if dt' = dt then Inr (Pay16 (prim_image signed_native xs nb nullv 0)) else Inl layout_err
   | _ \<Rightarrow> Inl layout_err)"

definition image32 :: "data_type \<Rightarrow> arr \<Rightarrow> 32 word \<Rightarrow> 32 word \<Rightarrow> payload result" where
  "image32 dt a nullv sh = (case a of
     Arr32 dt' xs nb \<Rightarrow> if dt' = dt then Inr (Pay32 (prim_image signed_native xs nb nullv sh)) else Inl layout_err
   | _ \<Rightarrow> Inl layout_err)"

definition image64 :: "data_type \<Rightarrow> arr \<Rightarrow> 64 word \<Rightarrow> 64 word \<Rightarrow> payload result" where
  "image64 dt a nullv sh = (case a of
     Arr64 dt' xs nb \<Rightarrow> if dt' = dt then Inr (Pay64 (prim_image signed_native xs nb nullv sh)) else Inl layout_err
   | _ \<Rightarrow> Inl layout_err)"

definition image ::
    "(u8 list \<Rightarrow> ptr) \<Rightarrow> (arc \<Rightarrow> utf8s) \<Rightarrow> (arr \<Rightarrow> data_type \<Rightarrow> arr result) \<Rightarrow> int \<Rightarrow> arr \<Rightarrow> payload result" where
  "image intern deref cast lt a =
    (if lt = KB then
       (case a of ArrBool bs nb \<Rightarrow> Inr (Pay8 (bool_image bs nb)) | _ \<Rightarrow> Inl ''pq_read: bool layout'')
     else if lt = KG then (if arr_type a = Int8 then image8 Int8 a 0 else image8 UInt8 a 0)
     else if lt = KH then image16 Int16 a NH
     else if lt = KI then image32 Int32 a NI 0
     else if lt = KJ then image64 Int64 a NJ 0
     else if lt = KE then image32 Float32 a F32_NAN 0
     else if lt = KF then image64 Float64 a F64_NAN 0
     else if lt = KP then
       rbind (to_type cast a (Timestamp Nanosecond None) ''pq_read: timestamp'') (\<lambda>ns.
         image64 (Timestamp Nanosecond None) ns NJ NS2000)
     else if lt = KD then image32 Date32 a NI DAY2000
     else if lt = KT then image32 (Time32 Millisecond) a NI 0
     else if lt = KN then
       rbind (to_type cast a (Duration Nanosecond) ''pq_read: duration'') (\<lambda>ns.
         image64 (Duration Nanosecond) ns NJ 0)
     else if lt = KS then
       (case a of
          ArrDict dt da \<Rightarrow> rbind (deref (da_values da)) (\<lambda>sa.
            Inr (PaySym (map (\<lambda>i. sym_of intern (dict_row sa da i)) [0..<length (da_keys da)])))
        | ArrStr dt s \<Rightarrow> rbind (deref s) (\<lambda>sa. Inr (PaySym (map (sym_of intern) sa)))
        | _ \<Rightarrow> Inl ''pq_read: dict layout'')
     else Inl ''pq_read: internal type dispatch'')"

section \<open>The converters write the image\<close>

definition nulls_ok :: "null_buf option \<Rightarrow> nat \<Rightarrow> bool" where
  "nulls_ok nulls n \<longleftrightarrow> (\<forall>nb. nulls = Some nb \<longrightarrow> nb_ok nb \<and> nb_length nb = n)"

primrec arr_ok :: "arr \<Rightarrow> bool" where
  "arr_ok (ArrBool bs nb) = nulls_ok nb (length bs)"
| "arr_ok (Arr8 dt xs nb) = nulls_ok nb (length xs)"
| "arr_ok (Arr16 dt xs nb) = nulls_ok nb (length xs)"
| "arr_ok (Arr32 dt xs nb) = nulls_ok nb (length xs)"
| "arr_ok (Arr64 dt xs nb) = nulls_ok nb (length xs)"
| "arr_ok (ArrStr dt s) = True"
| "arr_ok (ArrDict dt da) = dict_ok da"
| "arr_ok (ArrOther dt n) = True"

definition cast_ok :: "(arc \<Rightarrow> utf8s) \<Rightarrow> (arr \<Rightarrow> data_type \<Rightarrow> arr result) \<Rightarrow> bool" where
  "cast_ok deref cast \<longleftrightarrow> cast_keeps_rows deref cast \<and>
     (\<forall>a dt b. arr_ok a \<longrightarrow> cast a dt = Inr b \<longrightarrow> arr_ok b)"

lemma fill_prim_image:
  assumes "nulls_ok nulls (length xs)" "off + length xs \<le> length d"
  shows "fill_prim ops xs nulls d off nullv sh = write_at off (prim_image ops xs nulls nullv sh) d"
proof (rule nth_equalityI)
  show "length (fill_prim ops xs nulls d off nullv sh) = length (write_at off (prim_image ops xs nulls nullv sh) d)"
    using assms by (simp add: length_fill_prim prim_image_def)
next
  fix j
  assume "j < length (fill_prim ops xs nulls d off nullv sh)"
  then have "j < length d"
    using assms(2) by (simp add: length_fill_prim)
  then show "fill_prim ops xs nulls d off nullv sh ! j = write_at off (prim_image ops xs nulls nullv sh) d ! j"
    using assms fill_prim_nth[of off xs d j nulls ops nullv sh]
    by (auto simp: nulls_ok_def write_at_nth prim_image_def)
qed

lemma fill_bool_image:
  assumes "nulls_ok nulls (length bs)" "off + length bs \<le> length d"
  shows "fill_bool (ArrBool bs nulls) (Pay8 d) off = Inr (Pay8 (write_at off (bool_image bs nulls) d))"
proof (cases nulls)
  case None
  have "map (\<lambda>b. of_bool b :: u8) bs = map (\<lambda>i. of_bool (bs ! i)) [0..<length bs]"
    by (rule nth_equalityI) simp_all
  with None show ?thesis by (simp add: fill_bool_def bool_image_def)
next
  case (Some nb)
  let ?d = "write_at off (map (\<lambda>b. of_bool b) bs) d"
  have "put_all off 0 (each_null nb) ?d = write_at off (bool_image bs nulls) d"
  proof (rule nth_equalityI)
    show "length (put_all off 0 (each_null nb) ?d) = length (write_at off (bool_image bs nulls) d)"
      using assms by (simp add: bool_image_def)
    fix j
    assume "j < length (put_all off 0 (each_null nb) ?d)"
    then show "put_all off 0 (each_null nb) ?d ! j = write_at off (bool_image bs nulls) d ! j"
      using assms Some by (auto simp: nulls_ok_def arrow_nulls.patched_nth write_at_nth bool_image_def)
  qed
  with Some show ?thesis by (simp add: fill_bool_def)
qed

lemma prim_pay_image:
  "arr_ok a \<Longrightarrow> off + arr_len deref a \<le> payload_len col \<Longrightarrow> prim8 dt a col off n8 = Inr p \<Longrightarrow>
     \<exists>v. image8 dt a n8 = Inr (Pay8 v) \<and> length v = arr_len deref a \<and> p = pay_write off (Pay8 v) col"
  "arr_ok a \<Longrightarrow> off + arr_len deref a \<le> payload_len col \<Longrightarrow> prim16 dt a col off n16 = Inr p \<Longrightarrow>
     \<exists>v. image16 dt a n16 = Inr (Pay16 v) \<and> length v = arr_len deref a \<and> p = pay_write off (Pay16 v) col"
  "arr_ok a \<Longrightarrow> off + arr_len deref a \<le> payload_len col \<Longrightarrow> prim32 dt a col off n32 sh32 = Inr p \<Longrightarrow>
     \<exists>v. image32 dt a n32 sh32 = Inr (Pay32 v) \<and> length v = arr_len deref a \<and> p = pay_write off (Pay32 v) col"
  "arr_ok a \<Longrightarrow> off + arr_len deref a \<le> payload_len col \<Longrightarrow> prim64 dt a col off n64 sh64 = Inr p \<Longrightarrow>
     \<exists>v. image64 dt a n64 sh64 = Inr (Pay64 v) \<and> length v = arr_len deref a \<and> p = pay_write off (Pay64 v) col"
  by (auto simp: prim8_def prim16_def prim32_def prim64_def image8_def image16_def image32_def image64_def
      fill_prim_image prim_image_def split: arr.splits payload.splits if_splits)

lemma fill_sym_luts:
  assumes inv: "sc_inv intern deref sy" and host: "host_ok intern rd"
  shows "fill_sym_dict intern rd deref da d off sy = Inr (d', sy') \<Longrightarrow>
      sc_luts sy' = sc_luts sy \<and> (\<exists>sa. deref (da_values da) = Inr sa)"
    and "fill_sym_plain intern rd deref s d off sy = Inr (d', sy') \<Longrightarrow> sc_luts sy' = sc_luts sy"
proof -
  obtain e0 sy1 where e0: "sc_get intern rd [] sy = (e0, sy1)"
    by fastforce
  note get = sc_get_correct[OF inv host e0]
  show "sc_luts sy' = sc_luts sy \<and> (\<exists>sa. deref (da_values da) = Inr sa)"
    if run: "fill_sym_dict intern rd deref da d off sy = Inr (d', sy')"
  proof -
    obtain tbl where "dict_table intern rd deref (da_values da) (intern []) sy1 = Inr (tbl, sy')"
      using run by (auto simp: fill_sym_dict_def e0 get(1) result_simps Let_def)
    from dict_table_correct[OF get(2) host this] get(4) show ?thesis
      by (auto simp: dict_entry_ok_def)
  qed
  show "sc_luts sy' = sc_luts sy" if run: "fill_sym_plain intern rd deref s d off sy = Inr (d', sy')"
  proof -
    obtain sa where sa: "deref s = Inr sa"
      using run by (auto simp: fill_sym_plain_def result_simps)
    obtain ps sy2 where all: "sc_get_all intern rd (\<lambda>sy. (intern [], sy)) sa sy1 = (ps, sy2)"
      by fastforce
    have "sy' = sy2"
      using run by (simp add: fill_sym_plain_def sa e0 get(1) all)
    with sc_get_all_correct[OF get(2) host all] get(4) show ?thesis by simp
  qed
qed

definition col_written ::
    "(u8 list \<Rightarrow> ptr) \<Rightarrow> (arc \<Rightarrow> utf8s) \<Rightarrow> nat \<Rightarrow> arr \<Rightarrow> payload result \<Rightarrow> payload \<Rightarrow> payload \<Rightarrow> bool" where
  "col_written intern deref off a img col col' \<longleftrightarrow>
     (\<exists>v. img = Inr v \<and> payload_len v = arr_len deref a \<and> pay_kind v = pay_kind col \<and> col' = pay_write off v col)"

lemma col_written_prim:
  assumes "arr_ok a" "off + arr_len deref a \<le> payload_len col"
  shows "prim8 dt a col off n8 = Inr p \<Longrightarrow> col_written intern deref off a (image8 dt a n8) col p"
    "prim16 dt a col off n16 = Inr p \<Longrightarrow> col_written intern deref off a (image16 dt a n16) col p"
    "prim32 dt a col off n32 sh32 = Inr p \<Longrightarrow> col_written intern deref off a (image32 dt a n32 sh32) col p"
    "prim64 dt a col off n64 sh64 = Inr p \<Longrightarrow> col_written intern deref off a (image64 dt a n64 sh64) col p"
proof -
  note pi = prim_pay_image[OF assms]
  show "col_written intern deref off a (image8 dt a n8) col p" if run: "prim8 dt a col off n8 = Inr p"
    using pi(1)[OF run] prim_lengths(1)[OF run assms(2)] by (auto simp: col_written_def)
  show "col_written intern deref off a (image16 dt a n16) col p" if run: "prim16 dt a col off n16 = Inr p"
    using pi(2)[OF run] prim_lengths(2)[OF run assms(2)] by (auto simp: col_written_def)
  show "col_written intern deref off a (image32 dt a n32 sh32) col p" if run: "prim32 dt a col off n32 sh32 = Inr p"
    using pi(3)[OF run] prim_lengths(3)[OF run assms(2)] by (auto simp: col_written_def)
  show "col_written intern deref off a (image64 dt a n64 sh64) col p" if run: "prim64 dt a col off n64 sh64 = Inr p"
    using pi(4)[OF run] prim_lengths(4)[OF run assms(2)] by (auto simp: col_written_def)
qed

lemma col_written_bool:
  assumes "arr_ok a" "off + arr_len deref a \<le> payload_len col" "fill_bool a col off = Inr p"
  shows "\<exists>bs nb. a = ArrBool bs nb \<and> col_written intern deref off a (Inr (Pay8 (bool_image bs nb))) col p"
proof -
  from assms(3) obtain bs nb d where "a = ArrBool bs nb" "col = Pay8 d"
    by (auto simp: fill_bool_def split: arr.splits payload.splits)
  with assms fill_bool_image[of nb bs off d] show ?thesis
    by (simp add: col_written_def bool_image_def)
qed

lemma to_type_ok:
  assumes "cast_ok deref cast" "arr_ok a" "to_type cast a dt who = Inr b"
  shows "arr_ok b \<and> arr_len deref b = arr_len deref a"
  using assms by (auto simp: to_type_def cast_ok_def cast_keeps_rows_def result_simps split: if_splits)

lemma fill_col_image:
  assumes run: "fill_col intern rd deref cast lt col off a sy = Inr (col', sy')"
    and a: "arr_ok a" and c: "cast_ok deref cast" and inv: "sc_inv intern deref sy" and host: "host_ok intern rd"
    and fit: "off + arr_len deref a \<le> payload_len col"
  shows "col_written intern deref off a (image intern deref cast lt a) col col' \<and>
    sc_inv intern deref sy' \<and> sc_luts sy' = sc_luts sy"
proof -
  note prim = col_written_prim[OF a fit]
  have conv: "col_written intern deref off a (image64 dt b n64 sh64) col p"
    if "to_type cast a dt0 who = Inr b" "prim64 dt b col off n64 sh64 = Inr p" for dt0 who b dt n64 sh64 p
    using to_type_ok[OF c a that(1)] col_written_prim(4)[OF _ _ that(2), of deref intern] fit
    by (simp add: col_written_def)
  consider (B) "lt = KB" | (G) "lt = KG" | (H) "lt = KH" | (I) "lt = KI" | (J) "lt = KJ" | (E) "lt = KE"
    | (F) "lt = KF" | (P) "lt = KP" | (D) "lt = KD" | (T) "lt = KT" | (N) "lt = KN" | (S) "lt = KS"
    using run by (auto simp: fill_col_def Let_def split: if_splits)
  then show ?thesis
  proof cases
    case S
    have "(\<exists>dt da d d'. a = ArrDict dt da \<and> col = PaySym d \<and> col' = PaySym d' \<and>
          fill_sym_dict intern rd deref da d off sy = Inr (d', sy')) \<or>
        (\<exists>dt s d d'. a = ArrStr dt s \<and> col = PaySym d \<and> col' = PaySym d' \<and>
          fill_sym_plain intern rd deref s d off sy = Inr (d', sy'))"
      using run S by (auto simp: fill_col_def result_simps split: arr.splits payload.splits)
    then show ?thesis
    proof (elim disjE exE conjE)
      fix dt da d d'
      assume x: "a = ArrDict dt da" "col = PaySym d" "col' = PaySym d'"
        "fill_sym_dict intern rd deref da d off sy = Inr (d', sy')"
      then obtain sa where sa: "deref (da_values da) = Inr sa"
        using fill_sym_luts(1)[OF inv host x(4)] by blast
      show ?thesis
        using fill_sym_dict_rows[OF inv host _ sa _ x(4)] fill_sym_luts(1)[OF inv host x(4)] x a fit S sa
        by (simp add: col_written_def image_def)
    next
      fix dt s d d'
      assume x: "a = ArrStr dt s" "col = PaySym d" "col' = PaySym d'"
        "fill_sym_plain intern rd deref s d off sy = Inr (d', sy')"
      then obtain sa where sa: "deref s = Inr sa"
        by (auto simp: fill_sym_plain_def result_simps)
      show ?thesis
        using fill_sym_plain_rows[OF inv host sa x(4)] fill_sym_luts(2)[OF inv host x(4)] x S sa
        by (simp add: col_written_def image_def)
    qed
  next
    case B
    then show ?thesis
      using run inv col_written_bool[OF a fit] by (fastforce simp: fill_col_def image_def result_simps Let_def)
  qed (use run inv prim conv in \<open>auto simp: fill_col_def image_def result_simps Let_def split: if_splits\<close>)
qed

end
