(* ===== verification/Meta.thy ===== *)
theory Meta
  imports Memo ArrowTypes
begin

text \<open>
  \<^verbatim>\<open>src/src/meta.rs\<close>: opening files, agreeing one schema for a set of them, the
  root-to-leaf column map and the footer cache. A parsed footer is Arrow's and Parquet's
  data; the record \<open>footer\<close> holds what the source reads of it. Reading a footer off disk
  is outside the repository and comes in as parameters.
\<close>

section \<open>Parsed footers\<close>

record 'a vstat =
  vs_min :: "'a option"
  vs_max :: "'a option"
  vs_min_exact :: bool
  vs_max_exact :: bool

datatype stat_values =
    SBoolean "bool vstat"
  | SInt32 "i32 vstat"
  | SInt64 "i64 vstat"
  | SInt96
  | SFloat "32 word vstat"
  | SDouble "64 word vstat"
  | SByteArray "string vstat"
  | SFixed

record stats =
  st_values :: stat_values
  st_nulls :: "u64 option"

record chunk_md =
  cm_dict_offset :: "i64 option"
  cm_compressed :: i64
  cm_uncompressed :: i64
  cm_stats :: "stats option"

record leaf_desc =
  ld_phys :: phys_type
  ld_max_def :: i16
  ld_max_rep :: i16

record rg_md =
  rg_num_rows :: i64
  rg_cols :: "chunk_md list"

record footer =
  ft_schema :: schema
  ft_leaves :: "leaf_desc list"
  ft_roots :: "nat list"          \<comment> \<open>\<^verbatim>\<open>get_column_root_idx\<close> of each leaf\<close>
  ft_rgs :: "rg_md list"
  ft_rows :: i64

text \<open>What a decodable footer guarantees of its own shape.\<close>

definition footer_ok :: "footer \<Rightarrow> bool" where
  "footer_ok m \<longleftrightarrow> length (ft_roots m) = length (ft_leaves m) \<and>
     (\<forall>rg \<in> set (ft_rgs m). length (rg_cols rg) = length (ft_leaves m))"

section \<open>Root and leaf columns\<close>

definition leaf_step :: "nat list \<Rightarrow> nat option list \<times> nat list \<Rightarrow> nat \<Rightarrow> nat option list \<times> nat list" where
  "leaf_step roots s l =
    (let (v, n) = s; r = roots ! l in
     if r < length n
     then let k = n ! r + 1 in (v[r := if k = 1 then Some l else None], n[r := k])
     else s)"

definition leaf_map :: "footer \<Rightarrow> nat option list" where
  "leaf_map md =
    (let w = length (fst (ft_schema md)) in
     fst (foldl (leaf_step (ft_roots md)) (replicate w None, replicate w 0) [0..<length (ft_roots md)]))"

section \<open>One opened file\<close>

record src =
  src_path :: string
  src_orig :: string
  src_md :: footer
  src_rg_rows :: "i64 list"
  src_leaf :: "nat option list"

text \<open>\<^verbatim>\<open>self.leaf.get(c).copied().flatten()\<close>\<close>

definition leaf_at :: "src \<Rightarrow> nat \<Rightarrow> nat option" where
  "leaf_at s c = (if c < length (src_leaf s) then src_leaf s ! c else None)"

definition chunk :: "src \<Rightarrow> nat \<Rightarrow> nat \<Rightarrow> chunk_md option" where
  "chunk s g c = (case leaf_at s c of None \<Rightarrow> None
     | Some l \<Rightarrow> Some (rg_cols (ft_rgs (src_md s) ! g) ! l))"

definition chunk_dict :: "src \<Rightarrow> nat \<Rightarrow> nat \<Rightarrow> bool" where
  "chunk_dict s g c = (case chunk s g c of None \<Rightarrow> False | Some cc \<Rightarrow> cm_dict_offset cc \<noteq> None)"

section \<open>A set of files\<close>

record file_set =
  fs_srcs :: "src list"
  fs_names :: "string list"
  fs_lts :: "int result list"

text \<open>\<^verbatim>\<open>iter().sum::<i64>()\<close>, which wraps in a release build.\<close>

definition sum_i64 :: "i64 list \<Rightarrow> i64" where
  "sum_i64 xs = sum_list xs"

definition set_rows :: "file_set \<Rightarrow> i64" where
  "set_rows fs = sum_i64 (map (\<lambda>s. sum_i64 (src_rg_rows s)) (fs_srcs fs))"

definition n_rg :: "file_set \<Rightarrow> nat" where
  "n_rg fs = sum_list (map (\<lambda>s. length (src_rg_rows s)) (fs_srcs fs))"

definition ok_of :: "'a result \<Rightarrow> 'a option" where
  "ok_of r = (case r of Inl e \<Rightarrow> None | Inr x \<Rightarrow> Some x)"

definition same_schema :: "(data_type \<Rightarrow> string) \<Rightarrow> string list \<Rightarrow> int result list \<Rightarrow> src \<Rightarrow> bool" where
  "same_schema shw names lts s =
    (let f = fst (ft_schema (src_md s)) in
     length f = length names \<and>
     list_all (\<lambda>(a, b). f_name a = b) (zip f names) \<and>
     list_all (\<lambda>(a, b). ok_of (l_type_of shw (f_type a)) = ok_of b) (zip f lts))"

text \<open>
  \<^verbatim>\<open>open\<close>: the files are loaded by the pool (None is a worker's panic) and the
  first load error in argument order wins.
\<close>

definition lts_of :: "(data_type \<Rightarrow> string) \<Rightarrow> fld list \<Rightarrow> int result list" where
  "lts_of shw fs = map (\<lambda>f. case l_type_of shw (f_type f) of
     Inr t \<Rightarrow> Inr t
   | Inl e \<Rightarrow> Inl (''nyi: column '' @ f_name f @ '' type '' @ shw (f_type f))) fs"

definition open_set ::
    "(data_type \<Rightarrow> string) \<Rightarrow> ((string \<times> string) list \<Rightarrow> src result list option) \<Rightarrow>
     (string \<times> string) list \<Rightarrow> string \<Rightarrow> file_set result" where
  "open_set shw load_all files who =
    (if files = [] then Inl (who @ '': no files'')
     else rbind (ok_or (load_all files) (who @ '': footer panic'')) (\<lambda>out.
       rbind (mapR (\<lambda>r. r) out) (\<lambda>srcs.
         let s0 = fst (ft_schema (src_md (hd srcs)));
             names = map f_name s0;
             lts = lts_of shw s0
         in case filter (\<lambda>s. \<not> same_schema shw names lts s) (tl srcs) of
              s # _ \<Rightarrow> Inl (who @ '': schema '' @ src_orig s)
            | [] \<Rightarrow> Inr \<lparr>fs_srcs = srcs, fs_names = names, fs_lts = lts\<rparr>)))"

section \<open>The footer cache\<close>

record key =
  k_path :: string
  k_dev :: u64
  k_ino :: u64
  k_size :: u64
  k_mtime :: "i64 \<times> i64"

definition FOOTERS_MAX :: nat where "FOOTERS_MAX = 32"

type_synonym footers = "(key \<times> footer \<times> i64 list) list"

text \<open>What one call of \<^verbatim>\<open>load\<close> gets from the disk and from the crate.\<close>

record disk =
  dk_open :: "string \<Rightarrow> unit result"               \<comment> \<open>\<^verbatim>\<open>File::open\<close>\<close>
  dk_stat :: "string \<Rightarrow> key result"                \<comment> \<open>identity, length, mtime\<close>
  dk_parse :: "string \<Rightarrow> footer result"            \<comment> \<open>\<^verbatim>\<open>ArrowReaderMetadata::load\<close>\<close>
  dk_with_schema :: "footer \<Rightarrow> schema \<Rightarrow> footer option" \<comment> \<open>\<^verbatim>\<open>try_new\<close> with the hint\<close>

definition mk_src :: "string \<Rightarrow> string \<Rightarrow> footer \<Rightarrow> i64 list \<Rightarrow> src" where
  "mk_src orig path md rows =
    \<lparr>src_path = path, src_orig = orig, src_md = md, src_rg_rows = rows, src_leaf = leaf_map md\<rparr>"

definition hinted :: "disk \<Rightarrow> footer \<Rightarrow> footer" where
  "hinted dk b = (case dict_hint (ft_schema b) of
     Some h \<Rightarrow> (case dk_with_schema dk b h of Some m \<Rightarrow> m | None \<Rightarrow> b)
   | None \<Rightarrow> b)"

text \<open>The miss path, outside the lock: parse, hint, check the two row counts.\<close>

definition parse_footer :: "disk \<Rightarrow> string \<Rightarrow> string \<Rightarrow> (footer \<times> i64 list) result" where
  "parse_footer dk path who =
    rbind (ctx who (dk_parse dk path)) (\<lambda>b.
      let md = hinted dk b; rows = map rg_num_rows (ft_rgs md) in
      if ft_rows md \<noteq> sum_i64 rows then Inl (who @ '': '' @ path @ '': row counts disagree'')
      else Inr (md, rows))"

text \<open>The insertion, under the lock again: another thread may have been faster.\<close>

definition cache_insert :: "key \<Rightarrow> footer \<times> i64 list \<Rightarrow> footers \<Rightarrow> footers" where
  "cache_insert k e c = (if list_ex (\<lambda>(k', _). k' = k) c then c else mru_put FOOTERS_MAX k e c)"

definition load :: "disk \<Rightarrow> string \<Rightarrow> string \<Rightarrow> string \<Rightarrow> footers \<Rightarrow> src result \<times> footers" where
  "load dk orig path who c =
    (case rbind (ctx (who @ '': '' @ path) (dk_open dk path))
           (\<lambda>_. ctx (who @ '': '' @ path) (dk_stat dk path)) of
       Inl e \<Rightarrow> (Inl e, c)
     | Inr st \<Rightarrow>
        (let k = st\<lparr>k_path := path\<rparr> in
         case mru_find k c of
           Some ((md, rows), c') \<Rightarrow> (Inr (mk_src orig path md rows), c')
         | None \<Rightarrow>
            (case parse_footer dk path who of
               Inl e \<Rightarrow> (Inl e, c)
             | Inr (md, rows) \<Rightarrow> (Inr (mk_src orig path md rows), cache_insert k (md, rows) c))))"

interpretation footer_memo: memo mru_find "mru_put FOOTERS_MAX" set length FOOTERS_MAX
  by (rule mru_memo) (simp add: FOOTERS_MAX_def)

section \<open>The leaf map names the only leaf of a root\<close>

fun single :: "'a list \<Rightarrow> 'a option" where
  "single [x] = Some x"
| "single xs = None"

lemma single_snoc: "single (xs @ [x]) = (if xs = [] then Some x else None)"
  by (cases xs rule: single.cases) auto

lemma single_Some_iff: "single xs = Some x \<longleftrightarrow> xs = [x]"
  by (cases xs rule: single.cases) auto

definition leaves_of :: "nat list \<Rightarrow> nat \<Rightarrow> nat \<Rightarrow> nat list" where
  "leaves_of roots m r = filter (\<lambda>l. roots ! l = r) [0..<m]"

lemma leaf_fold:
  assumes "foldl (leaf_step roots) (replicate w None, replicate w 0) [0..<m] = (v, n)"
  shows "length v = w \<and> length n = w \<and>
    (\<forall>r < w. n ! r = length (leaves_of roots m r) \<and> v ! r = single (leaves_of roots m r))"
  using assms
proof (induction m arbitrary: v n)
  case 0
  then show ?case by (auto simp: leaves_of_def)
next
  case (Suc m)
  obtain v' n' where prev: "foldl (leaf_step roots) (replicate w None, replicate w 0) [0..<m] = (v', n')"
    by fastforce
  note IH = Suc.IH[OF prev]
  have step: "leaf_step roots (v', n') m = (v, n)"
    using Suc.prems prev by simp
  have grow: "leaves_of roots (Suc m) r = leaves_of roots m r @ (if roots ! m = r then [m] else [])" for r
    by (simp add: leaves_of_def)
  show ?case
    using step IH
    by (auto simp: leaf_step_def Let_def grow single_snoc nth_list_update split: if_splits)
qed

lemma leaf_map_spec:
  "length (leaf_map md) = length (fst (ft_schema md))"
  "r < length (fst (ft_schema md)) \<Longrightarrow>
     leaf_map md ! r = single (leaves_of (ft_roots md) (length (ft_roots md)) r)"
proof -
  let ?w = "length (fst (ft_schema md))"
  obtain v n where vn: "foldl (leaf_step (ft_roots md)) (replicate ?w None, replicate ?w 0)
      [0..<length (ft_roots md)] = (v, n)"
    by fastforce
  then have "leaf_map md = v"
    by (simp add: leaf_map_def Let_def)
  with leaf_fold[OF vn] show "length (leaf_map md) = ?w"
    "r < ?w \<Longrightarrow> leaf_map md ! r = single (leaves_of (ft_roots md) (length (ft_roots md)) r)"
    by auto
qed

lemma distinct_singleton_list: "distinct xs \<Longrightarrow> xs = [x] \<longleftrightarrow> set xs = {x}"
proof (cases xs)
  case (Cons y ys)
  assume "distinct xs"
  with Cons show ?thesis by (cases ys) auto
qed simp

lemma leaf_map_Some_iff:
  "r < length (fst (ft_schema md)) \<Longrightarrow>
     leaf_map md ! r = Some l \<longleftrightarrow>
       l < length (ft_roots md) \<and> ft_roots md ! l = r \<and>
       (\<forall>l' < length (ft_roots md). ft_roots md ! l' = r \<longrightarrow> l' = l)"
proof -
  assume r: "r < length (fst (ft_schema md))"
  let ?L = "leaves_of (ft_roots md) (length (ft_roots md)) r"
  have "distinct ?L" "set ?L = {l. l < length (ft_roots md) \<and> ft_roots md ! l = r}"
    by (auto simp: leaves_of_def)
  then have "?L = [l] \<longleftrightarrow> {l. l < length (ft_roots md) \<and> ft_roots md ! l = r} = {l}"
    by (simp only: distinct_singleton_list)
  then show ?thesis
    using r by (auto simp: leaf_map_spec(2) single_Some_iff)
qed

section \<open>Agreement of a file set\<close>

lemma same_schema_nth:
  assumes "same_schema shw names lts s" "c < length names" "length lts = length names"
  shows "length (fst (ft_schema (src_md s))) = length names"
    "f_name (fst (ft_schema (src_md s)) ! c) = names ! c"
    "ok_of (l_type_of shw (f_type (fst (ft_schema (src_md s)) ! c))) = ok_of (lts ! c)"
  using assms by (auto simp: same_schema_def Let_def list_all_length)

lemma ok_of_lts_of:
  "c < length fs \<Longrightarrow> ok_of (lts_of shw fs ! c) = ok_of (l_type_of shw (f_type (fs ! c)))"
  by (simp add: lts_of_def ok_of_def split: sum.splits)

lemma same_schema_self: "same_schema shw (map f_name (fst (ft_schema (src_md s))))
    (lts_of shw (fst (ft_schema (src_md s)))) s"
  by (auto simp: same_schema_def list_all_length ok_of_lts_of lts_of_def ok_of_def split: sum.splits)

lemma open_set_Inr:
  assumes "open_set shw load_all files who = Inr fs"
    and len: "\<And>out. load_all files = Some out \<Longrightarrow> length out = length files"
  shows "fs_srcs fs \<noteq> [] \<and> load_all files = Some (map Inr (fs_srcs fs)) \<and>
    length (fs_lts fs) = length (fs_names fs) \<and>
    (\<forall>s \<in> set (fs_srcs fs). same_schema shw (fs_names fs) (fs_lts fs) s)"
proof -
  have ne: "files \<noteq> []"
    using assms(1) by (auto simp: open_set_def)
  obtain out srcs where out: "load_all files = Some out" and all: "mapR (\<lambda>r. r) out = Inr srcs"
    using assms(1) by (auto simp: open_set_def result_simps split: if_splits)
  define s0 where "s0 = fst (ft_schema (src_md (hd srcs)))"
  have outs: "out = map Inr srcs"
    using all by (auto simp: mapR_Inr_iff list_all2_conv_all_nth intro: nth_equalityI)
  then have srcs: "srcs \<noteq> []"
    using len[OF out] ne by auto
  have "filter (\<lambda>s. \<not> same_schema shw (map f_name s0) (lts_of shw s0) s) (tl srcs) = []"
    and fs: "fs = \<lparr>fs_srcs = srcs, fs_names = map f_name s0, fs_lts = lts_of shw s0\<rparr>"
    using assms(1) ne out all by (auto simp: open_set_def s0_def Let_def split: list.splits)
  then have "\<forall>s \<in> set (tl srcs). same_schema shw (map f_name s0) (lts_of shw s0) s"
    by (auto simp: filter_empty_conv)
  moreover have "same_schema shw (map f_name s0) (lts_of shw s0) (hd srcs)"
    unfolding s0_def by (rule same_schema_self)
  ultimately have "\<forall>s \<in> set srcs. same_schema shw (map f_name s0) (lts_of shw s0) s"
    using srcs by (cases srcs) auto
  with srcs out outs show ?thesis
    by (simp add: fs lts_of_def)
qed

section \<open>The cache as the threads of a process use it\<close>

text \<open>An entry records a footer that some load parsed from a file answering to that key.\<close>

definition parsed_as :: "key \<Rightarrow> footer \<times> i64 list \<Rightarrow> bool" where
  "parsed_as k e \<longleftrightarrow> (\<exists>dk who st. dk_stat dk (k_path k) = Inr st \<and> k = st\<lparr>k_path := k_path k\<rparr> \<and>
     parse_footer dk (k_path k) who = Inr e)"

text \<open>
  Loads of different threads interleave at the two critical sections: a hit reorders the
  list, a miss inserts what it parsed, possibly after others have done so.
\<close>

inductive cache_reach :: "footers \<Rightarrow> bool" where
  start: "cache_reach []"
| hit: "cache_reach c \<Longrightarrow> mru_find k c = Some (e, c') \<Longrightarrow> cache_reach c'"
| insert: "cache_reach c \<Longrightarrow> parsed_as k e \<Longrightarrow> cache_reach (cache_insert k e c)"

definition cache_inv :: "footers \<Rightarrow> bool" where
  "cache_inv c \<longleftrightarrow> length c \<le> FOOTERS_MAX \<and> distinct (map fst c) \<and> (\<forall>(k, e) \<in> set c. parsed_as k e)"

lemma rotate_front_distinct:
  assumes "i < length c" "distinct (map fst c)"
  shows "distinct (map fst (rotate_front i c))"
proof -
  have split: "c = take i c @ c ! i # drop (Suc i) c"
    using assms(1) by (rule id_take_nth_drop)
  have "map fst c = map fst (take i c) @ fst (c ! i) # map fst (drop (Suc i) c)"
    by (subst split) simp
  with assms(2) show ?thesis
    by (auto simp: rotate_front_def)
qed

lemma mru_find_distinct:
  assumes "mru_find k c = Some (v, c')" "distinct (map fst c)"
  shows "distinct (map fst c')"
proof -
  from assms(1) obtain i where "position (\<lambda>(k', v). k' = k) c = Some i" "c' = rotate_front i c"
    by (auto simp: mru_find_def split: option.splits)
  then show ?thesis
    using position_SomeD(1) rotate_front_distinct assms(2) by metis
qed

lemma cache_insert_inv:
  assumes "cache_inv c" "parsed_as k e"
  shows "cache_inv (cache_insert k e c)"
proof (cases "list_ex (\<lambda>(k', _). k' = k) c")
  case True
  then show ?thesis using assms(1) by (simp add: cache_insert_def)
next
  case False
  then have fresh: "k \<notin> fst ` set c"
    by (fastforce simp: list_ex_iff)
  have "distinct (map fst (take 31 c))"
    using assms(1) by (simp add: cache_inv_def take_map[symmetric] distinct_take)
  with False fresh assms show ?thesis
    using footer_memo.put_bound[of k e c] footer_memo.put_coherent[of parsed_as k e c]
    by (auto simp: cache_insert_def cache_inv_def mru_put_def FOOTERS_MAX_def dest: in_set_takeD)
qed

lemma cache_reach_inv: "cache_reach c \<Longrightarrow> cache_inv c"
proof (induction rule: cache_reach.induct)
  case start
  then show ?case by (simp add: cache_inv_def)
next
  case (hit c k e c')
  then show ?case
    using footer_memo.find_coherent[OF hit.hyps(2), of parsed_as]
      footer_memo.find_bounded[OF hit.hyps(2)] mru_find_distinct[OF hit.hyps(2)]
    by (simp add: cache_inv_def)
next
  case (insert c k e)
  then show ?case by (simp add: cache_insert_inv)
qed

lemma parse_footer_rows:
  "parse_footer dk path who = Inr (md, rows) \<Longrightarrow>
     rows = map rg_num_rows (ft_rgs md) \<and> ft_rows md = sum_i64 rows"
  by (auto simp: parse_footer_def result_simps Let_def split: if_splits)

text \<open>
  One load: the cache stays reachable, and the answer is a parsed footer of a file with the
  identity seen now, whose two row counts agree.
\<close>

lemma load_sound:
  assumes c: "cache_reach c" and run: "load dk orig path who c = (r, c')"
  shows "cache_reach c' \<and>
    (\<forall>s. r = Inr s \<longrightarrow> (\<exists>st. dk_stat dk path = Inr st \<and>
       parsed_as (st\<lparr>k_path := path\<rparr>) (src_md s, src_rg_rows s)) \<and>
       src_leaf s = leaf_map (src_md s))"
proof -
  consider (err) e where "r = Inl e" "c' = c"
    | (hit) st md rows where "dk_stat dk path = Inr st" "r = Inr (mk_src orig path md rows)"
        "mru_find (st\<lparr>k_path := path\<rparr>) c = Some ((md, rows), c')"
    | (miss) st md rows where "dk_stat dk path = Inr st" "r = Inr (mk_src orig path md rows)"
        "parse_footer dk path who = Inr (md, rows)" "c' = cache_insert (st\<lparr>k_path := path\<rparr>) (md, rows) c"
    using run unfolding load_def
    by (cases "dk_open dk path"; cases "dk_stat dk path")
       (auto simp: Let_def split: option.splits sum.splits prod.splits)
  then show ?thesis
  proof cases
    case err
    then show ?thesis using c by simp
  next
    case hit
    have "cache_inv c"
      using c by (rule cache_reach_inv)
    then have "parsed_as (st\<lparr>k_path := path\<rparr>) (md, rows)"
      using footer_memo.find_coherent(1)[OF hit(3), of parsed_as] by (simp add: cache_inv_def)
    with hit c show ?thesis
      by (auto simp: mk_src_def intro: cache_reach.hit)
  next
    case miss
    then have "parsed_as (st\<lparr>k_path := path\<rparr>) (md, rows)"
      by (auto simp: parsed_as_def)
    with miss c show ?thesis
      by (auto simp: mk_src_def intro: cache_reach.insert)
  qed
qed

section \<open>Properties\<close>

text \<open>
  The leaf map is exact: root column \<open>r\<close> maps to leaf \<open>l\<close> when \<open>l\<close> is its only leaf, and to
  nothing when it has none or several, however the leaves are ordered.
\<close>

theorem leaf_map_exact:
  assumes "r < length (fst (ft_schema md))"
  shows "leaf_map md ! r = Some l \<longleftrightarrow> {l'. l' < length (ft_roots md) \<and> ft_roots md ! l' = r} = {l}"
  unfolding leaf_map_Some_iff[OF assms] by blast

definition ex_footer :: footer where
  "ex_footer = \<lparr>ft_schema = ([\<lparr>f_name = ''a'', f_type = Int64, f_null = False, f_meta = []\<rparr>,
       \<lparr>f_name = ''s'', f_type = AStruct [Int32, Int32], f_null = False, f_meta = []\<rparr>], []),
     ft_leaves = replicate 3 \<lparr>ld_phys = P_INT64, ld_max_def = 0, ld_max_rep = 0\<rparr>, ft_roots = [0, 1, 1],
     ft_rgs = [\<lparr>rg_num_rows = 5, rg_cols = []\<rparr>], ft_rows = 5\<rparr>"

theorem leaf_map_exact_witness: "leaf_map ex_footer ! 0 = Some 0"
proof -
  have "{l'. l' < length (ft_roots ex_footer) \<and> ft_roots ex_footer ! l' = 0} = {0}"
    by (auto simp: ex_footer_def less_Suc_eq numeral_3_eq_3)
  then show ?thesis
    using leaf_map_exact[of 0 ex_footer 0] by (simp add: ex_footer_def)
qed


definition ex_disk :: disk where
  "ex_disk = \<lparr>dk_open = (\<lambda>p. Inr ()),
     dk_stat = (\<lambda>p. Inr \<lparr>k_path = p, k_dev = 1, k_ino = 2, k_size = 3, k_mtime = (4, 5)\<rparr>),
     dk_parse = (\<lambda>p. Inr ex_footer), dk_with_schema = (\<lambda>m s. None)\<rparr>"


end
