(* ===== verification/Values.thy ===== *)
theory Values
  imports Ffi
begin

text \<open>
  Host values as trees. The entry points take a \<^verbatim>\<open>K\<close> apart with the
  accessors of \<^theory_text>\<open>Ffi\<close>; their logic is modelled over the tree such a
  \<^verbatim>\<open>K\<close> denotes. \<open>repr m x v\<close> says that \<open>x\<close> denotes \<open>v\<close> in memory
  \<open>m\<close>, and the refinement lemmas below show that the accessors answer the same on
  either side.
\<close>

section \<open>Value trees\<close>

datatype kval =
    KAtom int i64                  \<comment> \<open>an atom other than a symbol: its tag and \<open>kjv\<close>\<close>
  | KSym string                    \<comment> \<open>a symbol atom: its bytes\<close>
  | KVec8 int "u8 list"
  | KVec16 int "i16 list"
  | KVec32 int "32 word list"      \<comment> \<open>KE elements as their IEEE bits\<close>
  | KVec64 int "64 word list"      \<comment> \<open>KF and KZ elements as their IEEE bits\<close>
  | KSyms "string list"
  | KList "kval list"
  | KDict kval kval
  | KTable kval

primrec is_heap :: "kval \<Rightarrow> bool" where
  "is_heap (KAtom t b) = False"
| "is_heap (KSym s) = False"
| "is_heap (KVec8 t xs) = True"
| "is_heap (KVec16 t xs) = True"
| "is_heap (KVec32 t xs) = True"
| "is_heap (KVec64 t xs) = True"
| "is_heap (KSyms ss) = True"
| "is_heap (KList vs) = True"
| "is_heap (KDict k v) = True"
| "is_heap (KTable d) = True"

text \<open>The tag of an atom and the header subtype of a heap value (0 where there is none).\<close>

primrec ktag :: "kval \<Rightarrow> int" where
  "ktag (KAtom t b) = t"
| "ktag (KSym s) = KS"
| "ktag (KVec8 t xs) = 0"
| "ktag (KVec16 t xs) = 0"
| "ktag (KVec32 t xs) = 0"
| "ktag (KVec64 t xs) = 0"
| "ktag (KSyms ss) = 0"
| "ktag (KList vs) = 0"
| "ktag (KDict k v) = 0"
| "ktag (KTable d) = 0"

primrec ksub :: "kval \<Rightarrow> int" where
  "ksub (KAtom t b) = 0"
| "ksub (KSym s) = 0"
| "ksub (KVec8 t xs) = t"
| "ksub (KVec16 t xs) = t"
| "ksub (KVec32 t xs) = t"
| "ksub (KVec64 t xs) = t"
| "ksub (KSyms ss) = KS"
| "ksub (KList vs) = 0"
| "ksub (KDict k v) = XD"
| "ksub (KTable d) = XT"

text \<open>
  Element counts. What the header of a dict or a table counts is the host's business and
  nothing in this library reads it; \<open>counted\<close> leaves those two out.
\<close>

primrec kcount :: "kval \<Rightarrow> nat" where
  "kcount (KAtom t b) = 1"
| "kcount (KSym s) = 1"
| "kcount (KVec8 t xs) = length xs"
| "kcount (KVec16 t xs) = length xs"
| "kcount (KVec32 t xs) = length xs"
| "kcount (KVec64 t xs) = length xs"
| "kcount (KSyms ss) = length ss"
| "kcount (KList vs) = length vs"
| "kcount (KDict k v) = 0"
| "kcount (KTable d) = 0"

definition ktype :: "kval \<Rightarrow> int" where
  "ktype v = (let t = ktag v in if t = KJL then - KJ else if t \<noteq> 0 then - t else ksub v)"

primrec counted :: "kval \<Rightarrow> bool" where
  "counted (KAtom t b) = True"
| "counted (KSym s) = True"
| "counted (KVec8 t xs) = True"
| "counted (KVec16 t xs) = True"
| "counted (KVec32 t xs) = True"
| "counted (KVec64 t xs) = True"
| "counted (KSyms ss) = True"
| "counted (KList vs) = True"
| "counted (KDict k v) = False"
| "counted (KTable d) = False"

text \<open>The value of an integral atom, its sign put back at its own width.\<close>

definition int_atom :: "int \<Rightarrow> i64 \<Rightarrow> i64 option" where
  "int_atom t b =
    (if t = KJL \<or> t = KJ then Some b
     else if t = KI then Some (scast (ucast b :: 32 word))
     else if t = KH then Some (scast (ucast b :: 16 word))
     else None)"

definition katom_i64 :: "kval \<Rightarrow> i64 option" where
  "katom_i64 v = (case v of KAtom t b \<Rightarrow> int_atom t b | _ \<Rightarrow> None)"

section \<open>What a memory word denotes\<close>

definition cstr :: "mem \<Rightarrow> 64 word \<Rightarrow> string \<Rightarrow> bool" where
  "cstr m p s \<longleftrightarrow> CHR 0x00 \<notin> set s
     \<and> (\<forall>i < length s. m (p + of_nat i) = of_char (s ! i)) \<and> m (p + of_nat (length s)) = 0"

definition heap_hdr :: "mem \<Rightarrow> K \<Rightarrow> int \<Rightarrow> nat \<Rightarrow> bool" where
  "heap_hdr m x t n \<longleftrightarrow> vtag x = 0 \<and> vt m x = t \<and> vn m x = int n"

function (sequential) repr :: "mem \<Rightarrow> K \<Rightarrow> kval \<Rightarrow> bool" where
  "repr m x (KAtom t b) = (vtag x = t \<and> t \<noteq> 0 \<and> t \<noteq> KS \<and> kjv m x = b)"
| "repr m x (KSym s) = (vtag x = KS \<and> cstr m (ls_of x) s)"
| "repr m x (KVec8 t xs) = (heap_hdr m x t (length xs) \<and> (\<forall>i < length xs. v_g m x i = xs ! i))"
| "repr m x (KVec16 t xs) = (heap_hdr m x t (length xs) \<and> (\<forall>i < length xs. v_h m x i = xs ! i))"
| "repr m x (KVec32 t xs) = (heap_hdr m x t (length xs) \<and> (\<forall>i < length xs. v_i m x i = xs ! i))"
| "repr m x (KVec64 t xs) = (heap_hdr m x t (length xs) \<and> (\<forall>i < length xs. v_j m x i = xs ! i))"
| "repr m x (KSyms ss) = (heap_hdr m x KS (length ss) \<and> (\<forall>i < length ss. cstr m (v_s m x i) (ss ! i)))"
| "repr m x (KList vs) = (heap_hdr m x 0 (length vs) \<and> (\<forall>i < length vs. repr m (v_k m x i) (vs ! i)))"
| "repr m x (KDict k v) = (vtag x = 0 \<and> vt m x = XD \<and> repr m (v_k m x 0) k \<and> repr m (v_k m x 1) v)"
| "repr m x (KTable d) = (vtag x = 0 \<and> vt m x = XT \<and> repr m (v_k m x 0) d)"
  by pat_completeness auto
termination
proof (relation "measure (\<lambda>(m, x, v). size v)")
  fix vs :: "kval list" and i
  assume "i < length vs"
  then have "size (vs ! i) \<le> size_list size vs"
    by (intro size_list_estimation'[of "vs ! i"]) simp_all
  then show "\<And>m x. ((m, v_k m x i, vs ! i), m, x, KList vs) \<in> measure (\<lambda>(m, x, v). size v)"
    by simp
qed simp_all

lemma repr_vtag: "repr m x v \<Longrightarrow> vtag x = ktag v"
  by (cases v) (auto simp: heap_hdr_def)

lemma repr_vt: "repr m x v \<Longrightarrow> is_heap v \<Longrightarrow> vt m x = ksub v"
  by (cases v) (auto simp: heap_hdr_def)

lemma repr_vn: "repr m x v \<Longrightarrow> is_heap v \<Longrightarrow> counted v \<Longrightarrow> vn m x = int (kcount v)"
  by (cases v) (auto simp: heap_hdr_def)

lemma repr_heap_iff: "repr m x v \<Longrightarrow> is_heap v \<longleftrightarrow> vtag x = 0"
  by (cases v) (auto simp: heap_hdr_def)

lemma kt_repr: "repr m x v \<Longrightarrow> kt m x = ktype v"
  using repr_vtag[of m x v] repr_vt[of m x v] repr_heap_iff[of m x v]
  by (auto simp: kt_def ktype_def Let_def)

lemma kn_repr: "repr m x v \<Longrightarrow> counted v \<Longrightarrow> kn m x = int (kcount v)"
  using repr_vn[of m x v] repr_heap_iff[of m x v]
  by (cases v) (auto simp: kn_def)

lemma atom_i64_repr: "repr m x v \<Longrightarrow> atom_i64 m x = katom_i64 v"
  by (cases v) (auto simp: atom_i64_def katom_i64_def int_atom_def heap_hdr_def Let_def)

section \<open>One decoded value out of a dict\<close>

text \<open>
  \<^verbatim>\<open>Val\<close>, \<^verbatim>\<open>atom_val\<close> and \<^verbatim>\<open>val_at\<close> of
  \<^verbatim>\<open>src/src/lib.rs\<close>, once over memory (a symbol is a pointer) and once over
  trees (a symbol is its bytes).
\<close>

datatype 'sym val = VSym 'sym | VInt i64 | VBool bool | VBad int

definition atom_val :: "mem \<Rightarrow> K \<Rightarrow> 64 word val" where
  "atom_val m x = (let t = vtag x in
     if t = KS then VSym (va x)
     else if t = KB then VBool ((ucast (kjv m x) :: 8 word) \<noteq> 0)
     else if t \<in> {KJL, KJ, KI, KH}
       then (case atom_i64 m x of None \<Rightarrow> VBad (- t) | Some v \<Rightarrow> VInt v)
     else if t = 0 then VBad (vt m x)
     else VBad (- t))"

definition val_at :: "mem \<Rightarrow> K \<Rightarrow> nat \<Rightarrow> 64 word val" where
  "val_at m vals i = (let t = vt m vals in
     if t = 0 then atom_val m (v_k m vals i)
     else if t = KS then VSym (v_s m vals i)
     else if t = KJ then VInt (v_j m vals i)
     else if t = KI then VInt (scast (v_i m vals i))
     else if t = KH then VInt (scast (v_h m vals i))
     else if t = KB then VBool (v_g m vals i \<noteq> 0)
     else VBad t)"

fun tree_atom_val :: "kval \<Rightarrow> string val" where
  "tree_atom_val (KSym s) = VSym s"
| "tree_atom_val (KAtom t b) =
     (if t = KB then VBool ((ucast b :: 8 word) \<noteq> 0)
      else case int_atom t b of None \<Rightarrow> VBad (- t) | Some v \<Rightarrow> VInt v)"
| "tree_atom_val v = VBad (ksub v)"

fun tree_val_at :: "kval \<Rightarrow> nat \<Rightarrow> string val" where
  "tree_val_at (KList vs) i = tree_atom_val (vs ! i)"
| "tree_val_at (KSyms ss) i = VSym (ss ! i)"
| "tree_val_at (KVec64 t xs) i = (if t = KJ then VInt (xs ! i) else VBad t)"
| "tree_val_at (KVec32 t xs) i = (if t = KI then VInt (scast (xs ! i)) else VBad t)"
| "tree_val_at (KVec16 t xs) i = (if t = KH then VInt (scast (xs ! i)) else VBad t)"
| "tree_val_at (KVec8 t xs) i = (if t = KB then VBool (xs ! i \<noteq> 0) else VBad t)"
| "tree_val_at v i = VBad (ksub v)"

text \<open>
  The host keeps each element type at its own width; a tree is \<open>typed\<close> when its vectors do.
\<close>

primrec typed :: "kval \<Rightarrow> bool" where
  "typed (KAtom t b) = (0 < t \<and> t < 64 \<and> t \<noteq> KS)"
| "typed (KSym s) = True"
| "typed (KVec8 t xs) = (t \<in> {KB, KG, KC})"
| "typed (KVec16 t xs) = (t = KH)"
| "typed (KVec32 t xs) = (t \<in> {KI, KE, KD, KT, 13, 17, 18})"
| "typed (KVec64 t xs) = (t \<in> {KJ, KF, KP, KZ, KN})"
| "typed (KSyms ss) = True"
| "typed (KList vs) = list_all typed vs"
| "typed (KDict k v) = (typed k \<and> typed v \<and> is_heap k \<and> is_heap v \<and> kcount k = kcount v)"
| "typed (KTable d) = typed d"

lemma atom_val_repr: "repr m x v \<Longrightarrow> rel_val (cstr m) (atom_val m x) (tree_atom_val v)"
proof (cases v)
  case (KAtom t b)
  assume "repr m x v"
  with KAtom show ?thesis
    by (auto simp: atom_val_def atom_i64_def int_atom_def Let_def)
qed (auto simp: atom_val_def heap_hdr_def ls_of_def Let_def)

text \<open>
  Refinement of the dict reader: on every heap value a memory word denotes, the accessor
  over memory answers what the accessor over trees answers.
\<close>

lemma val_at_repr:
  assumes r: "repr m x v" and h: "is_heap v" and i: "i < kcount v" and t: "typed v"
  shows "rel_val (cstr m) (val_at m x i) (tree_val_at v i)"
proof (cases v)
  case (KList vs)
  then show ?thesis
    using r i by (auto simp: val_at_def heap_hdr_def Let_def intro: atom_val_repr)
qed (use r h i t in \<open>auto simp: val_at_def heap_hdr_def Let_def\<close>)

section \<open>Properties\<close>

text \<open>
  The dict reader refines the value trees: on any memory word that denotes a typed heap value,
  element \<open>i\<close> read through the tag, the header and the payload is the element of the tree,
  a symbol being a pointer to its bytes.
\<close>

theorem val_at_refines:
  assumes "repr m x v" "is_heap v" "i < kcount v" "typed v"
  shows "rel_val (cstr m) (val_at m x i) (tree_val_at v i)"
  using assms by (rule val_at_repr)

text \<open>A long vector of one element at address 100: its subtype, its count and its cell.\<close>

definition ex_mem :: mem where
  "ex_mem a = (if a = 72 then 7 else if a = 76 then 1 else if a = 100 then 5 else 0)"

lemma va_100: "va 100 = 100" "vtag 100 = 0"
  by (simp_all add: va_take_bit vtag_def TAG_SHIFT_def)

lemma ex_mem_repr: "repr ex_mem 100 (KVec64 KJ [5])"
  by (simp add: heap_hdr_def va_100 vt_def vn_def rd16_def rd64_def rd_bytes_def
      v_j_def ex_mem_def upt_rec)

theorem val_at_refines_witness: "val_at ex_mem 100 0 = VInt 5"
  using val_at_refines[OF ex_mem_repr, of 0] by (auto elim: val.rel_cases)

end
