(* ===== verification/Stats.thy ===== *)
theory Stats
  imports Meta FillCol Values
begin

text \<open>
  The answer of \<^verbatim>\<open>pq_meta\<close>: \<^verbatim>\<open>dict\<close>, \<^verbatim>\<open>sizes\<close>,
  \<^verbatim>\<open>enc_of\<close> and \<^verbatim>\<open>stats_of\<close> of \<^verbatim>\<open>src/src/meta.rs\<close>, as
  the value tree the host receives. \<^verbatim>\<open>ktn\<close> is the host's allocator: a vector of
  a given type and length with arbitrary contents.
\<close>

section \<open>Vectors of the host\<close>

fun vec_of :: "int \<Rightarrow> nat \<Rightarrow> kval \<Rightarrow> bool" where
  "vec_of t n (KVec8 t' xs) = (t' = t \<and> t \<in> {KB, KG} \<and> length xs = n)"
| "vec_of t n (KVec16 t' xs) = (t' = t \<and> t = KH \<and> length xs = n)"
| "vec_of t n (KVec32 t' xs) = (t' = t \<and> t \<in> {KI, KE, KD, KT} \<and> length xs = n)"
| "vec_of t n (KVec64 t' xs) = (t' = t \<and> t \<in> {KJ, KF, KP, KN} \<and> length xs = n)"
| "vec_of t n (KSyms ss) = (t = KS \<and> length ss = n)"
| "vec_of t n x = False"

definition L_TYPES :: "int set" where
  "L_TYPES = {KB, KG, KH, KI, KJ, KE, KF, KS, KP, KD, KT, KN}"

definition ktn_ok :: "(int \<Rightarrow> nat \<Rightarrow> kval) \<Rightarrow> bool" where
  "ktn_ok ktn \<longleftrightarrow> (\<forall>t \<in> L_TYPES. \<forall>n. vec_of t n (ktn t n))"

text \<open>Stores through the typed views; a view of another width is never taken.\<close>

fun set8 :: "kval \<Rightarrow> nat \<Rightarrow> u8 \<Rightarrow> kval" where
  "set8 (KVec8 t xs) g v = KVec8 t (xs[g := v])" | "set8 x g v = x"
fun set16 :: "kval \<Rightarrow> nat \<Rightarrow> i16 \<Rightarrow> kval" where
  "set16 (KVec16 t xs) g v = KVec16 t (xs[g := v])" | "set16 x g v = x"
fun set32 :: "kval \<Rightarrow> nat \<Rightarrow> 32 word \<Rightarrow> kval" where
  "set32 (KVec32 t xs) g v = KVec32 t (xs[g := v])" | "set32 x g v = x"
fun set64 :: "kval \<Rightarrow> nat \<Rightarrow> 64 word \<Rightarrow> kval" where
  "set64 (KVec64 t xs) g v = KVec64 t (xs[g := v])" | "set64 x g v = x"
fun set_sym :: "kval \<Rightarrow> nat \<Rightarrow> string \<Rightarrow> kval" where
  "set_sym (KSyms ss) g v = KSyms (ss[g := v])" | "set_sym x g v = x"

fun at32 :: "kval \<Rightarrow> nat \<Rightarrow> 32 word" where
  "at32 (KVec32 t xs) g = xs ! g" | "at32 x g = 0"
fun at64 :: "kval \<Rightarrow> nat \<Rightarrow> 64 word" where
  "at64 (KVec64 t xs) g = xs ! g" | "at64 x g = 0"

section \<open>One statistic\<close>

definition put_null :: "int \<Rightarrow> kval \<Rightarrow> nat \<Rightarrow> kval" where
  "put_null lt col g =
    (if lt = KB \<or> lt = KG then set8 col g 0
     else if lt = KH then set16 col g NH
     else if lt = KI \<or> lt = KD \<or> lt = KT then set32 col g NI
     else if lt = KJ \<or> lt = KP \<or> lt = KN then set64 col g NJ
     else if lt = KE then set32 col g F32_NAN
     else if lt = KF then set64 col g F64_NAN
     else if lt = KS then set_sym col g []
     else col)"

definition pick :: "'a vstat \<Rightarrow> bool \<Rightarrow> 'a option" where
  "pick s hi = (if hi then (if vs_max_exact s then vs_max s else None)
                else if vs_min_exact s then vs_min s else None)"

definition put_opt :: "(kval \<Rightarrow> nat \<Rightarrow> 'a \<Rightarrow> kval) \<Rightarrow> kval \<Rightarrow> nat \<Rightarrow> 'a option \<Rightarrow> kval" where
  "put_opt put col g v = (case v of None \<Rightarrow> col | Some x \<Rightarrow> put col g x)"

definition put_stat :: "int \<Rightarrow> data_type \<Rightarrow> kval \<Rightarrow> nat \<Rightarrow> stat_values \<Rightarrow> bool \<Rightarrow> kval" where
  "put_stat lt dt col g st hi = (case st of
     SBoolean s \<Rightarrow> if lt = KB then put_opt set8 col g (map_option of_bool (pick s hi)) else col
   | SInt32 s \<Rightarrow>
       if lt = KG then put_opt set8 col g (map_option ucast (pick s hi))
       else if lt = KH then put_opt set16 col g (map_option ucast (pick s hi))
       else if lt = KI \<or> lt = KT then put_opt set32 col g (pick s hi)
       else if lt = KD then
         put_opt set32 col g (Option.bind (pick s hi) (\<lambda>v. checked_sub_s v DAY2000))
       else col
   | SInt64 s \<Rightarrow>
       if lt = KJ then put_opt set64 col g (pick s hi)
       else if lt = KP then put_opt set64 col g
         (Option.bind (Option.bind (pick s hi) (to_ns dt)) (\<lambda>v. checked_sub_s v NS2000))
       else if lt = KN then put_opt set64 col g (Option.bind (pick s hi) (to_ns dt))
       else col
   | SFloat s \<Rightarrow> if lt = KE then put_opt set32 col g (pick s hi) else col
   | SDouble s \<Rightarrow> if lt = KF then put_opt set64 col g (pick s hi) else col
   | SByteArray s \<Rightarrow> if lt = KS then put_opt set_sym col g (pick s hi) else col
   | SInt96 \<Rightarrow> col
   | SFixed \<Rightarrow> col)"

section \<open>The statistics of a set\<close>

definition null_count :: "stats option \<Rightarrow> i64" where
  "null_count st = (case Option.bind st st_nulls of None \<Rightarrow> NJ | Some v \<Rightarrow> v)"

text \<open>The row groups of a set in global order, each with its file.\<close>

definition set_rgs :: "file_set \<Rightarrow> (src \<times> rg_md) list" where
  "set_rgs fs = concat (map (\<lambda>s. map (\<lambda>g. (s, g)) (ft_rgs (src_md s))) (fs_srcs fs))"

definition col_type :: "src \<Rightarrow> nat \<Rightarrow> data_type" where
  "col_type s c = f_type (fst (ft_schema (src_md s)) ! c)"

definition stat_step ::
    "int \<Rightarrow> nat \<Rightarrow> kval \<times> kval \<times> kval \<Rightarrow> nat \<times> src \<times> rg_md \<Rightarrow> kval \<times> kval \<times> kval" where
  "stat_step lt c cols x =
    (let (mn, mx, nc) = cols; (g, s, rg) = x;
         mn = put_null lt mn g; mx = put_null lt mx g;
         st = cm_stats (rg_cols rg ! c);
         nc = set64 nc g (null_count st)
     in case st of
          None \<Rightarrow> (mn, mx, nc)
        | Some st \<Rightarrow> (put_stat lt (col_type s c) mn g (st_values st) False,
                      put_stat lt (col_type s c) mx g (st_values st) True, nc))"

definition stats_col :: "(int \<Rightarrow> nat \<Rightarrow> kval) \<Rightarrow> file_set \<Rightarrow> nat \<Rightarrow> int \<Rightarrow> kval" where
  "stats_col ktn fs c lt =
    (let ng = n_rg fs;
         (mn, mx, nc) = foldl (stat_step lt c) (ktn lt ng, ktn lt ng, ktn KJ ng)
           (enumerate 0 (set_rgs fs))
     in KDict (KSyms [''min'', ''max'', ''null'']) (KList [mn, mx, nc]))"

definition stats_of :: "(int \<Rightarrow> nat \<Rightarrow> kval) \<Rightarrow> file_set \<Rightarrow> int list \<Rightarrow> kval" where
  "stats_of ktn fs lts = KList (map (\<lambda>(c, lt). stats_col ktn fs c lt) (enumerate 0 lts))"

definition sizes :: "file_set \<Rightarrow> nat \<Rightarrow> kval \<times> kval" where
  "sizes fs nc =
    (let walk = (\<lambda>size. KList (map (\<lambda>s. KList (map (\<lambda>r.
           KVec64 KJ (map (\<lambda>c. size (rg_cols r ! c)) [0..<nc])) (ft_rgs (src_md s)))) (fs_srcs fs)))
     in (walk cm_compressed, walk cm_uncompressed))"

definition enc_of :: "file_set \<Rightarrow> nat \<Rightarrow> kval" where
  "enc_of fs nc = KVec8 KB (map (\<lambda>c.
     of_bool (0 < n_rg fs \<and>
       list_all (\<lambda>s. list_all (\<lambda>g. chunk_dict s g c) [0..<length (src_rg_rows s)]) (fs_srcs fs)))
     [0..<nc])"

definition meta_keys :: "string list" where
  "meta_keys = [''files'', ''cols'', ''types'', ''rows'', ''rg'', ''bytes'', ''stats'', ''ubytes'', ''enc'']"

definition dict :: "(int \<Rightarrow> nat \<Rightarrow> kval) \<Rightarrow> file_set \<Rightarrow> kval result" where
  "dict ktn fs = rbind (mapR (\<lambda>t. t) (fs_lts fs)) (\<lambda>lts.
     let nc = length lts;
         (bytes, ubytes) = sizes fs nc
     in Inr (KDict (KSyms meta_keys)
          (KList [KSyms (map src_orig (fs_srcs fs)), KSyms (fs_names fs),
             KVec8 KC (bytes_of (map type_char lts)), KAtom KJ (set_rows fs),
             KList (map (\<lambda>s. KVec64 KJ (src_rg_rows s)) (fs_srcs fs)),
             bytes, stats_of ktn fs lts, ubytes, enc_of fs nc])))"

section \<open>What a bound promises\<close>

text \<open>The value behind slot \<open>g\<close> of a statistics column, null first, then the extremum.\<close>

lemma put_null_vec: "vec_of lt n col \<Longrightarrow> vec_of lt n (put_null lt col g)"
  by (cases col) (auto simp: put_null_def)

lemma put_opt_cases:
  "P col \<Longrightarrow> (\<And>x. v = Some x \<Longrightarrow> P (put col g x)) \<Longrightarrow> P (put_opt put col g v)"
  by (auto simp: put_opt_def split: option.splits)

lemma set_vec:
  "vec_of lt n col \<Longrightarrow> vec_of lt n (set8 col g a)" "vec_of lt n col \<Longrightarrow> vec_of lt n (set16 col g b)"
  "vec_of lt n col \<Longrightarrow> vec_of lt n (set32 col g c)" "vec_of lt n col \<Longrightarrow> vec_of lt n (set64 col g d)"
  "vec_of lt n col \<Longrightarrow> vec_of lt n (set_sym col g s)"
  by (cases col; simp)+

lemma put_stat_vec: "vec_of lt n col \<Longrightarrow> vec_of lt n (put_stat lt dt col g st hi)"
  by (cases st) (auto simp: put_stat_def put_opt_def set_vec split: option.splits)

section \<open>Every slot is written, and from its own row group\<close>

text \<open>What one row group leaves in its slot of a column of machine words.\<close>

definition rg_stats :: "nat \<Rightarrow> src \<times> rg_md \<Rightarrow> stats option" where
  "rg_stats c x = cm_stats (rg_cols (snd x) ! c)"

definition put_rg :: "int \<Rightarrow> nat \<Rightarrow> kval \<Rightarrow> nat \<Rightarrow> src \<times> rg_md \<Rightarrow> bool \<Rightarrow> kval" where
  "put_rg lt c col g x hi = (case rg_stats c x of
     None \<Rightarrow> put_null lt col g
   | Some st \<Rightarrow> put_stat lt (col_type (fst x) c) (put_null lt col g) g (st_values st) hi)"

definition slot32 :: "int \<Rightarrow> nat \<Rightarrow> bool \<Rightarrow> src \<times> rg_md \<Rightarrow> 32 word" where
  "slot32 lt c hi x = at32 (put_rg lt c (KVec32 lt [0]) 0 x hi) 0"

definition slot64 :: "int \<Rightarrow> nat \<Rightarrow> bool \<Rightarrow> src \<times> rg_md \<Rightarrow> 64 word" where
  "slot64 lt c hi x = at64 (put_rg lt c (KVec64 lt [0]) 0 x hi) 0"

lemma stat_step_put_rg:
  "stat_step lt c (mn, mx, nc) (g, x) =
    (put_rg lt c mn g x False, put_rg lt c mx g x True, set64 nc g (null_count (rg_stats c x)))"
  by (cases x) (simp add: stat_step_def put_rg_def rg_stats_def Let_def split: option.splits)

lemma put_rg_64:
  "lt \<in> {KJ, KP, KN} \<Longrightarrow> g < length xs \<Longrightarrow> put_rg lt c (KVec64 lt xs) g x hi = KVec64 lt (xs[g := slot64 lt c hi x])"
  by (auto simp: put_rg_def slot64_def put_null_def put_stat_def put_opt_def
      split: option.splits stat_values.splits)

lemma put_rg_32:
  "lt \<in> {KI, KD, KT} \<Longrightarrow> g < length xs \<Longrightarrow> put_rg lt c (KVec32 lt xs) g x hi = KVec32 lt (xs[g := slot32 lt c hi x])"
  by (auto simp: put_rg_def slot32_def put_null_def put_stat_def put_opt_def
      split: option.splits stat_values.splits)

lemma take_update_snoc: "k < length xs \<Longrightarrow> take (Suc k) (xs[k := v]) = take k xs @ [v]"
  by (simp add: take_Suc_conv_app_nth)

lemma stat_fold:
  fixes V :: "'a list \<Rightarrow> kval"
  assumes put: "\<And>xs g x hi. g < length xs \<Longrightarrow> put_rg lt c (V xs) g x hi = V (xs[g := f hi x])"
  shows "length mn = k + length rs \<Longrightarrow> length mx = k + length rs \<Longrightarrow> length nc = k + length rs \<Longrightarrow>
    foldl (stat_step lt c) (V mn, V mx, KVec64 KJ nc) (enumerate k rs) =
      (V (take k mn @ map (f False) rs), V (take k mx @ map (f True) rs),
       KVec64 KJ (take k nc @ map (\<lambda>x. null_count (rg_stats c x)) rs))"
proof (induction rs arbitrary: k mn mx nc)
  case Nil
  then show ?case by simp
next
  case (Cons r rs)
  have "stat_step lt c (V mn, V mx, KVec64 KJ nc) (k, r) =
      (V (mn[k := f False r]), V (mx[k := f True r]), KVec64 KJ (nc[k := null_count (rg_stats c r)]))"
    using Cons.prems by (simp add: stat_step_put_rg put)
  then show ?case
    using Cons.prems Cons.IH[of "mn[k := f False r]" "Suc k" "mx[k := f True r]"
        "nc[k := null_count (rg_stats c r)]"]
    by (simp add: take_update_snoc)
qed

definition set_ok :: "file_set \<Rightarrow> bool" where
  "set_ok fs \<longleftrightarrow> (\<forall>s \<in> set (fs_srcs fs). src_rg_rows s = map rg_num_rows (ft_rgs (src_md s)))"

lemma n_rg_set_rgs: "set_ok fs \<Longrightarrow> n_rg fs = length (set_rgs fs)"
proof -
  assume "set_ok fs"
  then have "map (\<lambda>s. length (src_rg_rows s)) (fs_srcs fs) = map (\<lambda>s. length (ft_rgs (src_md s))) (fs_srcs fs)"
    by (simp add: set_ok_def)
  then show ?thesis
    unfolding n_rg_def set_rgs_def length_concat map_map o_def length_map by (rule arg_cong)
qed

lemma ktn_ok_cases:
  assumes "ktn_ok ktn"
  shows "lt \<in> {KJ, KP, KN} \<Longrightarrow> \<exists>xs. ktn lt n = KVec64 lt xs \<and> length xs = n"
    "lt \<in> {KI, KD, KT} \<Longrightarrow> \<exists>xs. ktn lt n = KVec32 lt xs \<and> length xs = n"
proof -
  have v: "vec_of t n (ktn t n)" if "t \<in> L_TYPES" for t
    using assms that by (auto simp: ktn_ok_def)
  show "lt \<in> {KJ, KP, KN} \<Longrightarrow> \<exists>xs. ktn lt n = KVec64 lt xs \<and> length xs = n"
    using v[of lt] by (cases "ktn lt n") (auto simp: L_TYPES_def)
  show "lt \<in> {KI, KD, KT} \<Longrightarrow> \<exists>xs. ktn lt n = KVec32 lt xs \<and> length xs = n"
    using v[of lt] by (cases "ktn lt n") (auto simp: L_TYPES_def)
qed

lemma stats_col_words:
  assumes ktn: "ktn_ok ktn" and ok: "set_ok fs"
  shows "lt \<in> {KJ, KP, KN} \<Longrightarrow> stats_col ktn fs c lt = KDict (KSyms [''min'', ''max'', ''null'']) (KList
      [KVec64 lt (map (slot64 lt c False) (set_rgs fs)), KVec64 lt (map (slot64 lt c True) (set_rgs fs)),
       KVec64 KJ (map (\<lambda>x. null_count (rg_stats c x)) (set_rgs fs))])"
    and "lt \<in> {KI, KD, KT} \<Longrightarrow> stats_col ktn fs c lt = KDict (KSyms [''min'', ''max'', ''null'']) (KList
      [KVec32 lt (map (slot32 lt c False) (set_rgs fs)), KVec32 lt (map (slot32 lt c True) (set_rgs fs)),
       KVec64 KJ (map (\<lambda>x. null_count (rg_stats c x)) (set_rgs fs))])"
proof -
  let ?n = "n_rg fs"
  obtain nc where nc: "ktn KJ ?n = KVec64 KJ nc" "length nc = ?n"
    using ktn_ok_cases(1)[OF ktn, of KJ ?n] by auto
  note n = n_rg_set_rgs[OF ok]
  show "stats_col ktn fs c lt = KDict (KSyms [''min'', ''max'', ''null'']) (KList
      [KVec64 lt (map (slot64 lt c False) (set_rgs fs)), KVec64 lt (map (slot64 lt c True) (set_rgs fs)),
       KVec64 KJ (map (\<lambda>x. null_count (rg_stats c x)) (set_rgs fs))])" if lt: "lt \<in> {KJ, KP, KN}"
  proof -
    obtain xs where xs: "ktn lt ?n = KVec64 lt xs" "length xs = ?n"
      using ktn_ok_cases(1)[OF ktn lt] by blast
    show ?thesis
      using stat_fold[of lt c "KVec64 lt" "\<lambda>hi. slot64 lt c hi" xs 0 "set_rgs fs" xs nc] put_rg_64[OF lt] xs nc n
      by (simp add: stats_col_def)
  qed
  show "stats_col ktn fs c lt = KDict (KSyms [''min'', ''max'', ''null'']) (KList
      [KVec32 lt (map (slot32 lt c False) (set_rgs fs)), KVec32 lt (map (slot32 lt c True) (set_rgs fs)),
       KVec64 KJ (map (\<lambda>x. null_count (rg_stats c x)) (set_rgs fs))])" if lt: "lt \<in> {KI, KD, KT}"
  proof -
    obtain xs where xs: "ktn lt ?n = KVec32 lt xs" "length xs = ?n"
      using ktn_ok_cases(2)[OF ktn lt] by blast
    show ?thesis
      using stat_fold[of lt c "KVec32 lt" "\<lambda>hi. slot32 lt c hi" xs 0 "set_rgs fs" xs nc] put_rg_32[OF lt] xs nc n
      by (simp add: stats_col_def)
  qed
qed

section \<open>A bound is never on the wrong side\<close>

text \<open>
  The footer's own promise about one row group of an INT64 column: an extremum it calls
  exact bounds every value stored there.
\<close>

definition bounds_values :: "'a::len word vstat \<Rightarrow> 'a word list \<Rightarrow> bool" where
  "bounds_values s vs \<longleftrightarrow>
     (\<forall>m v. pick s False = Some m \<longrightarrow> v \<in> set vs \<longrightarrow> sint m \<le> sint v) \<and>
     (\<forall>m v. pick s True = Some m \<longrightarrow> v \<in> set vs \<longrightarrow> sint v \<le> sint m)"

definition epoch64 :: "int \<Rightarrow> i64" where
  "epoch64 lt = (if lt = KP then NS2000 else 0)"

definition epoch32 :: "int \<Rightarrow> i32" where
  "epoch32 lt = (if lt = KD then DAY2000 else 0)"

text \<open>The two readings of one stored value: as a bound and as a row.\<close>

definition as_bound64 :: "int \<Rightarrow> i64 \<Rightarrow> i64 \<Rightarrow> i64 option" where
  "as_bound64 lt m v = Option.bind (checked_mul_s v m) (\<lambda>w. checked_sub_s w (epoch64 lt))"

lemma checked_mul_1: "checked_mul_s v 1 = Some (v :: i64)"
  using fits_signed_sint[of v] by (simp add: checked_mul_s_def)

lemma checked_sub_0: "checked_sub_s v 0 = Some (v :: 'a::len word)"
  using fits_signed_sint[of v] by (simp add: checked_sub_s_def)

lemma slot64_SInt64:
  assumes "raw_of (col_type s c) P_INT64 = Some (RI64 m)" "l_type_of shw (col_type s c) = Inr lt"
    and "rg_stats c (s, rg) = Some st" "st_values st = SInt64 vs"
  shows "slot64 lt c hi (s, rg) =
    (case Option.bind (pick vs hi) (as_bound64 lt m) of None \<Rightarrow> NJ | Some b \<Rightarrow> b)"
  using assms
  by (auto simp: raw_of_def slot64_def put_rg_def put_null_def put_stat_def put_opt_def as_bound64_def
      to_ns_def epoch64_def checked_mul_1 checked_sub_0
      split: data_type.splits if_splits option.splits bind_splits)

lemma NS2000_nonzero: "NS2000 \<noteq> 0"
  by (simp add: NS2000_def)

lemma row_value64:
  assumes "m \<noteq> 0"
  shows "row_value signed_native NJ (epoch64 lt) m (Some v) =
    (case as_bound64 lt m v of None \<Rightarrow> NJ | Some b \<Rightarrow> b)"
proof -
  have *: "sint w < sint (NJ + NS2000) \<longleftrightarrow> checked_sub_s w NS2000 = None" for w :: i64
    using fits_signed_sint[of w]
    by (auto simp: checked_sub_s_def fits_signed_def NJ_def NS2000_def)
  have sub: "checked_sub_s w NS2000 = Some u \<Longrightarrow> w - NS2000 = u" for w u :: i64
    by (simp add: checked_sub_s_def split: if_splits)
  show ?thesis
    by (cases "checked_mul_s v m"; cases "m = 1"; cases "lt = KP")
       (auto simp: row_value_def patch_shift_def as_bound64_def epoch64_def checked_mul_1 checked_sub_0 Let_def *
         NS2000_nonzero sub split: option.splits)
qed

lemma as_bound64_mono:
  assumes "0 < sint m" "sint v \<le> sint w" "as_bound64 lt m v = Some a" "as_bound64 lt m w = Some b"
  shows "sint a \<le> sint b"
proof -
  have "sint v * sint m \<le> sint w * sint m"
    using assms by (intro mult_right_mono) simp_all
  then show ?thesis
    using assms(3,4) by (auto simp: as_bound64_def split: bind_splits dest!: checked_mul_s_Some checked_sub_s_Some)
qed

lemma raw_scale_pos: "raw_of dt P_INT64 = Some (RI64 m) \<Longrightarrow> 0 < sint m"
  using ns_per_pos by (auto simp: raw_of_def split: data_type.splits if_splits)

text \<open>
  The reported minimum of a row group is the column's null or at or below every value the
  reader delivers out of it, nulls apart; the maximum likewise.
\<close>

lemma slot64_bounds:
  assumes raw: "raw_of (col_type s c) P_INT64 = Some (RI64 m)" "l_type_of shw (col_type s c) = Inr lt"
    and st: "rg_stats c (s, rg) = Some st" "st_values st = SInt64 sv" and bv: "bounds_values sv vs"
    and v: "v \<in> set vs" "row_value signed_native NJ (epoch64 lt) m (Some v) \<noteq> NJ"
  shows "slot64 lt c False (s, rg) = NJ \<or>
      sint (slot64 lt c False (s, rg)) \<le> sint (row_value signed_native NJ (epoch64 lt) m (Some v))"
    "slot64 lt c True (s, rg) = NJ \<or>
      sint (row_value signed_native NJ (epoch64 lt) m (Some v)) \<le> sint (slot64 lt c True (s, rg))"
proof -
  have m: "0 < sint m"
    using raw(1) by (rule raw_scale_pos)
  then have "m \<noteq> 0"
    by auto
  then obtain a where a: "as_bound64 lt m v = Some a"
      "row_value signed_native NJ (epoch64 lt) m (Some v) = a"
    using v(2) by (cases "as_bound64 lt m v") (auto simp: row_value64)
  show "slot64 lt c False (s, rg) = NJ \<or>
      sint (slot64 lt c False (s, rg)) \<le> sint (row_value signed_native NJ (epoch64 lt) m (Some v))"
    using bv v(1) as_bound64_mono[OF m _ _ a(1)] a(2)
    by (auto simp: slot64_SInt64[OF raw st] bounds_values_def split: option.splits bind_splits)
  show "slot64 lt c True (s, rg) = NJ \<or>
      sint (row_value signed_native NJ (epoch64 lt) m (Some v)) \<le> sint (slot64 lt c True (s, rg))"
  proof (cases "Option.bind (pick sv True) (as_bound64 lt m)")
    case None
    then show ?thesis by (simp add: slot64_SInt64[OF raw st])
  next
    case (Some b)
    then obtain w where "pick sv True = Some w" "as_bound64 lt m w = Some b"
      by (auto split: bind_splits)
    moreover from this have "sint v \<le> sint w"
      using bv v(1) by (simp add: bounds_values_def)
    ultimately have "sint a \<le> sint b"
      using as_bound64_mono[OF m _ a(1)] by blast
    with Some a(2) show ?thesis
      by (simp add: slot64_SInt64[OF raw st])
  qed
qed

lemma slot32_SInt32:
  assumes "raw_of (col_type s c) P_INT32 = Some RI32" "l_type_of shw (col_type s c) = Inr lt"
    and "rg_stats c (s, rg) = Some st" "st_values st = SInt32 vs"
  shows "slot32 lt c hi (s, rg) =
    (case Option.bind (pick vs hi) (\<lambda>v. checked_sub_s v (epoch32 lt)) of None \<Rightarrow> NI | Some b \<Rightarrow> b)"
  using assms
  by (auto simp: raw_of_def slot32_def put_rg_def put_null_def put_stat_def put_opt_def epoch32_def checked_sub_0
      split: data_type.splits if_splits option.splits bind_splits)

lemma row_value32:
  "row_value signed_native NI (epoch32 lt) 1 (Some v) =
    (case checked_sub_s v (epoch32 lt) of None \<Rightarrow> NI | Some b \<Rightarrow> b)"
proof (cases "lt = KD")
  case True
  have "DAY2000 \<noteq> 0"
    by (simp add: DAY2000_def)
  then have "row_value signed_native NI (epoch32 lt) 1 (Some v) = shift_down signed_native NI DAY2000 v"
    using True by (simp add: row_value_def patch_shift_def shift_down_def epoch32_def Let_def)
  then show ?thesis
    using True by (simp add: shift_down_NI epoch32_def)
next
  case False
  then show ?thesis
    by (simp add: row_value_def patch_shift_def epoch32_def checked_sub_0)
qed

lemma slot32_bounds:
  assumes raw: "raw_of (col_type s c) P_INT32 = Some RI32" "l_type_of shw (col_type s c) = Inr lt"
    and st: "rg_stats c (s, rg) = Some st" "st_values st = SInt32 sv" and bv: "bounds_values sv vs"
    and v: "v \<in> set vs" "row_value signed_native NI (epoch32 lt) 1 (Some v) \<noteq> NI"
  shows "slot32 lt c False (s, rg) = NI \<or>
      sint (slot32 lt c False (s, rg)) \<le> sint (row_value signed_native NI (epoch32 lt) 1 (Some v))"
    "slot32 lt c True (s, rg) = NI \<or>
      sint (row_value signed_native NI (epoch32 lt) 1 (Some v)) \<le> sint (slot32 lt c True (s, rg))"
proof -
  obtain a where a: "checked_sub_s v (epoch32 lt) = Some a"
      "row_value signed_native NI (epoch32 lt) 1 (Some v) = a"
    using v(2) by (cases "checked_sub_s v (epoch32 lt)") (auto simp: row_value32)
  note sub = a(1)[THEN checked_sub_s_Some]
  show "slot32 lt c False (s, rg) = NI \<or>
      sint (slot32 lt c False (s, rg)) \<le> sint (row_value signed_native NI (epoch32 lt) 1 (Some v))"
    using bv v(1) a(2) sub
    by (fastforce simp: slot32_SInt32[OF raw st] bounds_values_def split: option.splits bind_splits
        dest!: checked_sub_s_Some)
  show "slot32 lt c True (s, rg) = NI \<or>
      sint (row_value signed_native NI (epoch32 lt) 1 (Some v)) \<le> sint (slot32 lt c True (s, rg))"
    using bv v(1) a(2) sub
    by (fastforce simp: slot32_SInt32[OF raw st] bounds_values_def split: option.splits bind_splits
        dest!: checked_sub_s_Some)
qed

section \<open>Properties\<close>

text \<open>The 64-bit bounds \<^verbatim>\<open>pq_meta\<close> reports of one column: row group by row group.\<close>

fun stat_vec :: "kval \<Rightarrow> nat \<Rightarrow> kval" where
  "stat_vec (KDict k (KList vs)) i = vs ! i"
| "stat_vec x i = x"

text \<open>
  Pruning on the statistics of a 64-bit column never loses a row: in the vectors
  \<^verbatim>\<open>pq_meta\<close> builds, the minimum of a row group, unless it is the null, is at most
  every value the reader delivers from that row group, and the maximum is at least that
  value, whatever the time unit and the epoch shift, as long as the footer's own exact
  extrema bound what is stored. A value that leaves the i64 range is delivered as the null
  and is no exception.
\<close>

theorem stats_prune_sound:
  assumes "ktn_ok ktn" "set_ok fs" "lt \<in> {KJ, KP, KN}"
    and "g < length (set_rgs fs)" "set_rgs fs ! g = (s, rg)"
    and "raw_of (col_type s c) P_INT64 = Some (RI64 m)" "l_type_of shw (col_type s c) = Inr lt"
    and "rg_stats c (s, rg) = Some st" "st_values st = SInt64 sv" "bounds_values sv vs"
    and "v \<in> set vs" "row_value signed_native NJ (epoch64 lt) m (Some v) \<noteq> NJ"
  shows "(at64 (stat_vec (stats_col ktn fs c lt) 0) g = NJ \<or>
      sint (at64 (stat_vec (stats_col ktn fs c lt) 0) g) \<le> sint (row_value signed_native NJ (epoch64 lt) m (Some v))) \<and>
    (at64 (stat_vec (stats_col ktn fs c lt) 1) g = NJ \<or>
      sint (row_value signed_native NJ (epoch64 lt) m (Some v)) \<le> sint (at64 (stat_vec (stats_col ktn fs c lt) 1) g))"
  using slot64_bounds[OF assms(6-12)] assms(4,5)
  unfolding stats_col_words(1)[OF assms(1-3)] by simp

text \<open>
  The same for the 32-bit columns: ints, dates with their epoch shift, and times.
\<close>

theorem stats_prune_sound32:
  assumes "ktn_ok ktn" "set_ok fs" "lt \<in> {KI, KD, KT}"
    and "g < length (set_rgs fs)" "set_rgs fs ! g = (s, rg)"
    and "raw_of (col_type s c) P_INT32 = Some RI32" "l_type_of shw (col_type s c) = Inr lt"
    and "rg_stats c (s, rg) = Some st" "st_values st = SInt32 sv" "bounds_values sv vs"
    and "v \<in> set vs" "row_value signed_native NI (epoch32 lt) 1 (Some v) \<noteq> NI"
  shows "(at32 (stat_vec (stats_col ktn fs c lt) 0) g = NI \<or>
      sint (at32 (stat_vec (stats_col ktn fs c lt) 0) g) \<le> sint (row_value signed_native NI (epoch32 lt) 1 (Some v))) \<and>
    (at32 (stat_vec (stats_col ktn fs c lt) 1) g = NI \<or>
      sint (row_value signed_native NI (epoch32 lt) 1 (Some v)) \<le> sint (at32 (stat_vec (stats_col ktn fs c lt) 1) g))"
  using slot32_bounds[OF assms(6-12)] assms(4,5)
  unfolding stats_col_words(2)[OF assms(1-3)] by simp

definition ex_stats :: "stats \<Rightarrow> phys_type \<Rightarrow> data_type \<Rightarrow> file_set" where
  "ex_stats st pt dt = \<lparr>fs_srcs = [\<lparr>src_path = ''a'', src_orig = ''a'',
     src_md = \<lparr>ft_schema = ([\<lparr>f_name = ''c'', f_type = dt, f_null = False, f_meta = []\<rparr>], []),
       ft_leaves = [\<lparr>ld_phys = pt, ld_max_def = 0, ld_max_rep = 0\<rparr>], ft_roots = [0],
       ft_rgs = [\<lparr>rg_num_rows = 2, rg_cols = [\<lparr>cm_dict_offset = None, cm_compressed = 20, cm_uncompressed = 20,
         cm_stats = Some st\<rparr>]\<rparr>], ft_rows = 2\<rparr>,
     src_rg_rows = [2], src_leaf = [Some 0]\<rparr>], fs_names = [''c''], fs_lts = []\<rparr>"

fun ex_ktn :: "int \<Rightarrow> nat \<Rightarrow> kval" where
  "ex_ktn lt n = (if lt = KB \<or> lt = KG then KVec8 lt (replicate n 0) else if lt = KH then KVec16 lt (replicate n 0)
     else if lt \<in> {KI, KE, KD, KT} then KVec32 lt (replicate n 0) else if lt = KS then KSyms (replicate n [])
     else KVec64 lt (replicate n 0))"

lemma ex_ktn_ok: "ktn_ok ex_ktn"
  by (auto simp: ktn_ok_def L_TYPES_def)

definition ex_ts :: "i64 vstat" where
  "ex_ts = \<lparr>vs_min = Some 946684800000007, vs_max = Some 946684800000009, vs_min_exact = True, vs_max_exact = True\<rparr>"

definition ex_ts_set :: file_set where
  "ex_ts_set = ex_stats \<lparr>st_values = SInt64 ex_ts, st_nulls = Some 0\<rparr> P_INT64 (Timestamp Microsecond None)"

definition ex_dates :: "i32 vstat" where
  "ex_dates = \<lparr>vs_min = Some 10958, vs_max = Some 10960, vs_min_exact = True, vs_max_exact = True\<rparr>"

definition ex_dates_set :: file_set where
  "ex_dates_set = ex_stats \<lparr>st_values = SInt32 ex_dates, st_nulls = Some 0\<rparr> P_INT32 Date32"

theorem stats_prune_sound_witness:
  "at64 (stat_vec (stats_col ex_ktn ex_ts_set 0 KP) 0) 0 = NJ \<or>
   sint (at64 (stat_vec (stats_col ex_ktn ex_ts_set 0 KP) 0) 0) \<le> sint (8000 :: i64)"
proof -
  let ?x = "(hd (fs_srcs ex_ts_set), hd (ft_rgs (src_md (hd (fs_srcs ex_ts_set)))))"
  have row: "row_value signed_native NJ (epoch64 KP) 1000 (Some 946684800000008) = (8000 :: i64)"
    by (simp add: row_value_def patch_shift_def epoch64_def NS2000_def NJ_def signed_native_def checked_mul_s_def
        fits_signed_def Let_def)
  have "row_value signed_native NJ (epoch64 KP) 1000 (Some 946684800000008) \<noteq> NJ"
    unfolding row by (simp add: NJ_def)
  moreover have "bounds_values ex_ts [946684800000008]"
    by (simp add: bounds_values_def pick_def ex_ts_def)
  moreover have "set_ok ex_ts_set" "0 < length (set_rgs ex_ts_set)" "set_rgs ex_ts_set ! 0 = ?x"
      "rg_stats 0 ?x = Some \<lparr>st_values = SInt64 ex_ts, st_nulls = Some 0\<rparr>"
      "raw_of (col_type (fst ?x) 0) P_INT64 = Some (RI64 1000)" "l_type_of (\<lambda>t. []) (col_type (fst ?x) 0) = Inr KP"
    by (simp_all add: ex_ts_set_def set_ok_def ex_stats_def set_rgs_def rg_stats_def raw_of_def col_type_def)
  ultimately show ?thesis
    using stats_prune_sound[OF ex_ktn_ok, of ex_ts_set KP 0 "fst ?x" "snd ?x" 0 1000 "\<lambda>t. []"
        "\<lparr>st_values = SInt64 ex_ts, st_nulls = Some 0\<rparr>" ex_ts "[946684800000008]" 946684800000008]
    unfolding row by simp
qed

theorem stats_prune_sound32_witness:
  "at32 (stat_vec (stats_col ex_ktn ex_dates_set 0 KD) 0) 0 = NI \<or>
   sint (at32 (stat_vec (stats_col ex_ktn ex_dates_set 0 KD) 0) 0) \<le> sint (2 :: i32)"
proof -
  let ?x = "(hd (fs_srcs ex_dates_set), hd (ft_rgs (src_md (hd (fs_srcs ex_dates_set)))))"
  have row: "row_value signed_native NI (epoch32 KD) 1 (Some 10959) = (2 :: i32)"
    by (simp add: row_value_def patch_shift_def epoch32_def DAY2000_def NI_def signed_native_def Let_def)
  have "row_value signed_native NI (epoch32 KD) 1 (Some 10959) \<noteq> NI"
    unfolding row by (simp add: NI_def)
  moreover have "bounds_values ex_dates [10959]"
    by (simp add: bounds_values_def pick_def ex_dates_def)
  moreover have "set_ok ex_dates_set" "0 < length (set_rgs ex_dates_set)" "set_rgs ex_dates_set ! 0 = ?x"
      "rg_stats 0 ?x = Some \<lparr>st_values = SInt32 ex_dates, st_nulls = Some 0\<rparr>"
      "raw_of (col_type (fst ?x) 0) P_INT32 = Some RI32" "l_type_of (\<lambda>t. []) (col_type (fst ?x) 0) = Inr KD"
    by (simp_all add: ex_dates_set_def set_ok_def ex_stats_def set_rgs_def rg_stats_def raw_of_def col_type_def)
  ultimately show ?thesis
    using stats_prune_sound32[OF ex_ktn_ok, of ex_dates_set KD 0 "fst ?x" "snd ?x" 0 "\<lambda>t. []"
        "\<lparr>st_values = SInt32 ex_dates, st_nulls = Some 0\<rparr>" ex_dates "[10959]" 10959]
    unfolding row by simp
qed

definition ex_int8_set :: file_set where
  "ex_int8_set = ex_stats \<lparr>st_values = SInt32 \<lparr>vs_min = Some (-1), vs_max = Some 1, vs_min_exact = True,
     vs_max_exact = True\<rparr>, st_nulls = Some 0\<rparr> P_INT32 Int8"

text \<open>
  The statistics of a signed byte column are read as unsigned bytes: for a column that holds
  the single value -1 between the exact bounds -1 and 1 the reported minimum is 255 and the
  reported maximum 1, so the interval they span is empty.
\<close>

theorem int8_bounds_invert:
  "l_type_of shw (col_type (hd (fs_srcs ex_int8_set)) 0) = Inr KG \<and>
   stats_col ex_ktn ex_int8_set 0 KG =
     KDict (KSyms [''min'', ''max'', ''null'']) (KList [KVec8 KG [255], KVec8 KG [1], KVec64 KJ [0]])"
proof -
  have "ucast (-1 :: i32) = (255 :: u8)"
    by code_simp
  then show ?thesis
    by (simp add: ex_int8_set_def ex_stats_def stats_col_def n_rg_def set_rgs_def stat_step_def put_stat_def put_null_def
        put_opt_def pick_def null_count_def col_type_def Let_def)
qed

text \<open>
  A timestamp, duration or long is delivered exactly or not at all: scaled to nanoseconds and
  shifted to the host's epoch in unbounded arithmetic, or the null when either the scaled or
  the shifted value leaves the i64 range. Nothing wraps, for any unit and any stored value.
\<close>

theorem temporal_exact:
  "row_value signed_native NJ (epoch64 lt) (ns_per u) (Some v) =
    (let x = sint v * sint (ns_per u); y = x - sint (epoch64 lt) in
     if fits_signed TYPE(64) x \<and> fits_signed TYPE(64) y then of_int y else NJ)"
proof -
  have nz: "ns_per u \<noteq> 0"
    by (cases u) simp_all
  show ?thesis
  proof (cases "fits_signed TYPE(64) (sint v * sint (ns_per u))")
    case True
    then have "sint (v * ns_per u) = sint v * sint (ns_per u)"
      by (rule sint_mul_fits)
    with True show ?thesis
      unfolding row_value64[OF nz] by (simp add: as_bound64_def checked_mul_s_def checked_sub_s_def Let_def)
  next
    case False
    then show ?thesis
      unfolding row_value64[OF nz] by (simp add: as_bound64_def checked_mul_s_def)
  qed
qed

end
