(* ===== verification/Select.thy ===== *)
theory Select
  imports Stats
begin

text \<open>
  Projection in \<^verbatim>\<open>src/src/read.rs\<close>: \<^verbatim>\<open>select\<close> resolves the wanted
  columns against a file set and decides which of them decode straight into K;
  \<^verbatim>\<open>split\<close> cuts the selection into the parts that workers decode
  independently. A projection mask is the list of root columns it keeps.
\<close>

section \<open>Resolving a projection\<close>

record sel =
  sel_out :: "nat list"
  sel_lts :: "int list"
  sel_uniq :: "nat list"
  sel_raw :: "raw option list"

definition leaf_of :: "src \<Rightarrow> nat \<Rightarrow> leaf_desc" where
  "leaf_of s l = ft_leaves (src_md s) ! l"

text \<open>The loop over the files of the set; the early return of \<^verbatim>\<open>?\<close> is None.\<close>

fun raw_scan :: "nat \<Rightarrow> nat \<Rightarrow> raw option \<Rightarrow> src list \<Rightarrow> raw option" where
  "raw_scan c i r [] = r"
| "raw_scan c i r (s # ss) =
    (case leaf_at s c of
       None \<Rightarrow> None
     | Some l \<Rightarrow>
         let d = leaf_of s l;
             ri = raw_of (col_type s c) (ld_phys d);
             r = (if i = 0 \<or> ri = r then ri else None);
             r = (if ld_max_rep d \<noteq> 0 then None else r)
         in raw_scan c (Suc i) r ss)"

definition resolve :: "file_set \<Rightarrow> string list option \<Rightarrow> string \<Rightarrow> nat list result" where
  "resolve fs want who = (case want of
     None \<Rightarrow> Inr [0..<length (fs_names fs)]
   | Some w \<Rightarrow> mapR (\<lambda>n. ok_or (position (\<lambda>x. x = n) (fs_names fs)) (who @ '': no column '' @ n)) w)"

definition select :: "file_set \<Rightarrow> string list option \<Rightarrow> string \<Rightarrow> sel result" where
  "select fs want who =
    rbind (resolve fs want who) (\<lambda>out.
    rbind (mapR (\<lambda>c. fs_lts fs ! c) out) (\<lambda>lts.
      let uniq = remdups_adj (sort out) in
      if length uniq \<noteq> length out then Inl (who @ '': duplicate column'')
      else Inr \<lparr>sel_out = out, sel_lts = lts, sel_uniq = uniq,
                sel_raw = map (\<lambda>c. raw_scan c 0 None (fs_srcs fs)) out\<rparr>))"

section \<open>Cutting a selection into parts\<close>

record part =
  pt_raw :: "nat list"
  pt_outs :: "nat list"
  pt_bat :: "nat list"
  pt_masks :: "nat list list"

definition raw_part :: "nat \<Rightarrow> part" where
  "raw_part p = \<lparr>pt_raw = [p], pt_outs = [], pt_bat = [], pt_masks = []\<rparr>"

text \<open>
  \<^verbatim>\<open>binary_search\<close> in a sorted list without repeats is the position of the element.
\<close>

definition arrow_part :: "file_set \<Rightarrow> sel \<Rightarrow> nat list \<Rightarrow> part" where
  "arrow_part fs sl outs =
    (let want = map (\<lambda>p. sel_out sl ! p) outs; srt = sort want
     in \<lparr>pt_raw = [], pt_outs = outs, pt_bat = map (\<lambda>c. the (position (\<lambda>x. x = c) srt)) want,
         pt_masks = map (\<lambda>s. srt) (fs_srcs fs)\<rparr>)"

definition piece :: "'a list \<Rightarrow> nat \<Rightarrow> nat \<Rightarrow> 'a list" where
  "piece xs k j = (let n = length xs; a = j * n div k; b = (j + 1) * n div k in take (b - a) (drop a xs))"

definition split_sel :: "file_set \<Rightarrow> sel \<Rightarrow> nat \<Rightarrow> part list" where
  "split_sel fs sl k =
    (let ps = [0..<length (sel_out sl)];
         parts = map raw_part (filter (\<lambda>p. sel_raw sl ! p \<noteq> None) ps);
         arw = filter (\<lambda>p. sel_raw sl ! p = None) ps;
         n = length arw
     in if n = 0 then parts
        else let k = max 1 (min k n) in
          parts @ map (arrow_part fs sl) (filter (\<lambda>outs. outs \<noteq> []) (map (piece arw k) [0..<k])))"

section \<open>A resolved selection\<close>

definition sel_ok :: "file_set \<Rightarrow> sel \<Rightarrow> bool" where
  "sel_ok fs sl \<longleftrightarrow> distinct (sel_out sl) \<and>
     list_all (\<lambda>c. c < length (fs_names fs)) (sel_out sl) \<and>
     length (sel_lts sl) = length (sel_out sl) \<and>
     (\<forall>i < length (sel_out sl). fs_lts fs ! (sel_out sl ! i) = Inr (sel_lts sl ! i)) \<and>
     sel_uniq sl = sort (sel_out sl) \<and>
     sel_raw sl = map (\<lambda>c. raw_scan c 0 None (fs_srcs fs)) (sel_out sl)"

lemma distinct_remdups_adj: "sorted (xs :: nat list) \<Longrightarrow> distinct (remdups_adj xs)"
proof (induction xs rule: remdups_adj.induct)
  case (3 x y xs)
  then show ?case by (cases "x = y") (fastforce simp: less_le)+
qed simp_all

lemma uniq_length_iff: "length (remdups_adj (sort xs)) = length xs \<longleftrightarrow> distinct (xs :: nat list)"
proof
  assume "length (remdups_adj (sort xs)) = length xs"
  moreover have "card (set xs) = length (remdups_adj (sort xs))"
    using distinct_card[OF distinct_remdups_adj[OF sorted_sort]] by simp
  ultimately show "distinct xs"
    by (intro card_distinct) simp
next
  assume "distinct xs"
  then show "length (remdups_adj (sort xs)) = length xs"
    by (simp add: remdups_adj_distinct)
qed

lemma resolve_bound: "resolve fs want who = Inr out \<Longrightarrow> c \<in> set out \<Longrightarrow> c < length (fs_names fs)"
  by (fastforce simp: resolve_def result_simps list_all2_conv_all_nth in_set_conv_nth
      dest: position_SomeD split: option.splits)

lemma select_Inr_iff:
  "select fs want who = Inr sl \<longleftrightarrow>
     resolve fs want who = Inr (sel_out sl) \<and> sel_ok fs sl"
proof
  assume "select fs want who = Inr sl"
  then obtain out lts where *: "resolve fs want who = Inr out" "list_all2 (\<lambda>c t. fs_lts fs ! c = Inr t) out lts"
      "length (remdups_adj (sort out)) = length out"
      "sl = \<lparr>sel_out = out, sel_lts = lts, sel_uniq = remdups_adj (sort out),
         sel_raw = map (\<lambda>c. raw_scan c 0 None (fs_srcs fs)) out\<rparr>"
    by (auto simp: select_def result_simps Let_def split: if_splits)
  then have "distinct out"
    by (simp add: uniq_length_iff)
  with * show "resolve fs want who = Inr (sel_out sl) \<and> sel_ok fs sl"
    using resolve_bound[OF *(1)]
    by (auto simp: sel_ok_def list_all_iff list_all2_conv_all_nth remdups_adj_distinct)
next
  assume *: "resolve fs want who = Inr (sel_out sl) \<and> sel_ok fs sl"
  then have "mapR (\<lambda>c. fs_lts fs ! c) (sel_out sl) = Inr (sel_lts sl)"
    by (simp add: mapR_Inr_iff list_all2_conv_all_nth sel_ok_def)
  with * show "select fs want who = Inr sl"
    by (cases sl) (auto simp: select_def sel_ok_def remdups_adj_distinct)
qed

lemma resolve_names:
  assumes "resolve fs (Some w) who = Inr out"
  shows "map (\<lambda>c. fs_names fs ! c) out = w"
proof (rule nth_equalityI)
  have *: "length w = length out"
    "\<And>i. i < length w \<Longrightarrow> position (\<lambda>x. x = w ! i) (fs_names fs) = Some (out ! i)"
    using assms by (auto simp: resolve_def result_simps list_all2_conv_all_nth)
  then show "length (map (\<lambda>c. fs_names fs ! c) out) = length w"
    by simp
  show "map (\<lambda>c. fs_names fs ! c) out ! i = w ! i" if "i < length (map (\<lambda>c. fs_names fs ! c) out)" for i
    using that * position_SomeD(2)[OF *(2)[of i]] by simp
qed

text \<open>A repeated wanted name is refused, and so is a name the set does not have.\<close>

lemma select_want_distinct:
  assumes "select fs (Some w) who = Inr sl"
  shows "distinct w"
proof -
  have r: "resolve fs (Some w) who = Inr (sel_out sl)" and ok: "sel_ok fs sl"
    using assms by (simp_all add: select_Inr_iff)
  have pos: "\<And>i. i < length w \<Longrightarrow> position (\<lambda>x. x = w ! i) (fs_names fs) = Some (sel_out sl ! i)"
    "length (sel_out sl) = length w"
    using r by (auto simp: resolve_def result_simps list_all2_conv_all_nth)
  show ?thesis
  proof (unfold distinct_conv_nth, intro allI impI notI)
    fix i j
    assume ij: "i < length w" "j < length w" "i \<noteq> j" "w ! i = w ! j"
    then have "sel_out sl ! i = sel_out sl ! j"
      using pos(1)[of i] pos(1)[of j] by simp
    with ij pos(2) ok show False
      by (simp add: sel_ok_def nth_eq_iff_index_eq)
  qed
qed

section \<open>Zero-copy columns\<close>

lemma raw_scan_None: "raw_scan c (Suc i) None ss = Some r \<Longrightarrow> False"
proof (induction ss arbitrary: i)
  case (Cons s ss)
  then show ?case
    by (auto simp: Let_def split: option.splits if_splits)
qed simp

lemma raw_scan_Suc:
  "raw_scan c (Suc i) r0 ss = Some r \<Longrightarrow> r0 = Some r \<and>
     (\<forall>s \<in> set ss. \<exists>l. leaf_at s c = Some l \<and> ld_max_rep (leaf_of s l) = 0 \<and>
        raw_of (col_type s c) (ld_phys (leaf_of s l)) = Some r)"
proof (induction ss arbitrary: i r0)
  case Nil
  then show ?case by simp
next
  case (Cons s ss)
  then obtain l where l: "leaf_at s c = Some l"
    by (auto split: option.splits)
  let ?d = "leaf_of s l" and ?ri = "raw_of (col_type s c) (ld_phys (leaf_of s l))"
  have step: "raw_scan c (Suc (Suc i)) (if ld_max_rep ?d \<noteq> 0 then None else if ?ri = r0 then ?ri else None) ss = Some r"
    using Cons.prems l by (simp add: Let_def)
  with Cons.IH[OF step] l show ?case
    by (auto split: if_splits)
qed

lemma raw_scan_agree:
  assumes "raw_scan c 0 None ss = Some r" "s \<in> set ss"
  shows "\<exists>l. leaf_at s c = Some l \<and> ld_max_rep (leaf_of s l) = 0 \<and>
    raw_of (col_type s c) (ld_phys (leaf_of s l)) = Some r"
proof (cases ss)
  case Nil
  with assms show ?thesis by simp
next
  case (Cons t ts)
  then obtain l where l: "leaf_at t c = Some l"
    using assms(1) by (auto split: option.splits)
  let ?ri = "raw_of (col_type t c) (ld_phys (leaf_of t l))"
  have "raw_scan c (Suc 0) (if ld_max_rep (leaf_of t l) \<noteq> 0 then None else ?ri) ts = Some r"
    using assms(1) l Cons by (simp add: Let_def)
  from raw_scan_Suc[OF this] assms(2) l Cons show ?thesis
    by (auto split: if_splits)
qed

section \<open>The parts cover the selection\<close>

lemma pieces_concat_upto:
  "0 < k \<Longrightarrow> concat (map (piece xs k) [0..<m]) = take (m * length xs div k) xs"
proof (induction m)
  case 0
  then show ?case by simp
next
  case (Suc m)
  let ?a = "m * length xs div k" and ?b = "Suc m * length xs div k"
  have le: "?a \<le> ?b"
    by (rule div_le_mono) simp
  then have "take ?b xs = take ?a xs @ take (?b - ?a) (drop ?a xs)"
    by (metis le_add_diff_inverse take_add)
  with Suc show ?case
    by (simp add: piece_def Let_def)
qed

lemma pieces_concat: "0 < k \<Longrightarrow> concat (map (piece xs k) [0..<k]) = xs"
  using pieces_concat_upto[of k xs k] by simp

lemma concat_filter_nonempty: "concat (filter (\<lambda>xs. xs \<noteq> []) xss) = concat xss"
  by (induction xss) auto

text \<open>
  Every result column is in exactly one part: the zero-copy ones first, one each, then the
  Arrow ones in order.
\<close>

lemma split_sel_columns:
  "concat (map (\<lambda>p. pt_raw p @ pt_outs p) (split_sel fs sl k)) =
     filter (\<lambda>p. sel_raw sl ! p \<noteq> None) [0..<length (sel_out sl)] @
     filter (\<lambda>p. sel_raw sl ! p = None) [0..<length (sel_out sl)]"
proof -
  have raw: "concat (map (\<lambda>p. pt_raw p @ pt_outs p) (map raw_part xs)) = xs" for xs
    by (induction xs) (simp_all add: raw_part_def)
  have arw: "concat (map (\<lambda>p. pt_raw p @ pt_outs p) (map (arrow_part fs sl) yss)) = concat yss" for yss
    by (induction yss) (simp_all add: arrow_part_def Let_def)
  let ?arw = "filter (\<lambda>p. sel_raw sl ! p = None) [0..<length (sel_out sl)]"
  show ?thesis
  proof (cases "length ?arw = 0")
    case True
    then show ?thesis
      by (simp add: split_sel_def Let_def raw del: map_map)
  next
    case False
    let ?k = "max 1 (min k (length ?arw))"
    have "concat (filter (\<lambda>outs. outs \<noteq> []) (map (piece ?arw ?k) [0..<?k])) = ?arw"
      unfolding concat_filter_nonempty by (rule pieces_concat) simp
    with False show ?thesis
      by (simp add: split_sel_def Let_def raw arw del: map_map)
  qed
qed

text \<open>
  One part is one reader: a part decodes a zero-copy column or Arrow columns, never both and
  never nothing, and each Arrow column is found at its place in the part's own batch.
\<close>

definition part_ok :: "file_set \<Rightarrow> sel \<Rightarrow> part \<Rightarrow> bool" where
  "part_ok fs sl p \<longleftrightarrow>
     ((\<exists>q. pt_raw p = [q] \<and> q < length (sel_out sl) \<and> sel_raw sl ! q \<noteq> None) \<and> pt_outs p = [] \<or>
      pt_raw p = [] \<and> pt_outs p \<noteq> [] \<and>
        (\<forall>q \<in> set (pt_outs p). q < length (sel_out sl) \<and> sel_raw sl ! q = None) \<and>
        length (pt_masks p) = length (fs_srcs fs) \<and> length (pt_bat p) = length (pt_outs p) \<and>
        (\<forall>mask \<in> set (pt_masks p). sorted mask \<and> set mask = (\<lambda>q. sel_out sl ! q) ` set (pt_outs p) \<and>
           (\<forall>i < length (pt_outs p). pt_bat p ! i < length mask \<and>
              mask ! (pt_bat p ! i) = sel_out sl ! (pt_outs p ! i))))"

lemma arrow_part_ok:
  assumes "outs \<noteq> []" "\<forall>q \<in> set outs. q < length (sel_out sl) \<and> sel_raw sl ! q = None"
  shows "part_ok fs sl (arrow_part fs sl outs)"
proof -
  let ?want = "map (\<lambda>p. sel_out sl ! p) outs"
  have "the (position (\<lambda>x. x = ?want ! i) (sort ?want)) < length outs \<and>
      sort ?want ! the (position (\<lambda>x. x = ?want ! i) (sort ?want)) = sel_out sl ! (outs ! i)"
    if "i < length outs" for i
  proof -
    have "?want ! i \<in> set (sort ?want)"
      using that by simp
    then obtain j where "position (\<lambda>x. x = ?want ! i) (sort ?want) = Some j"
      using position_None_iff[of "\<lambda>x. x = ?want ! i" "sort ?want"] by (metis not_None_eq)
    from this position_SomeD[OF this] that show ?thesis
      by simp
  qed
  with assms show ?thesis
    by (auto simp: part_ok_def arrow_part_def Let_def)
qed

lemma set_piece: "set (piece xs k j) \<subseteq> set xs"
  by (auto simp: piece_def Let_def dest: in_set_takeD in_set_dropD)

lemma split_sel_parts: "p \<in> set (split_sel fs sl k) \<Longrightarrow> part_ok fs sl p"
proof -
  assume p: "p \<in> set (split_sel fs sl k)"
  let ?arw = "filter (\<lambda>p. sel_raw sl ! p = None) [0..<length (sel_out sl)]"
  from p consider (raw) q where "p = raw_part q" "q < length (sel_out sl)" "sel_raw sl ! q \<noteq> None"
    | (arrow) k j where "p = arrow_part fs sl (piece ?arw k j)" "piece ?arw k j \<noteq> []"
    by (fastforce simp: split_sel_def Let_def split: if_splits)
  then show ?thesis
  proof cases
    case raw
    then show ?thesis by (simp add: part_ok_def raw_part_def)
  next
    case arrow
    have "\<forall>q \<in> set (piece ?arw k j). q < length (sel_out sl) \<and> sel_raw sl ! q = None"
      using set_piece[of ?arw k j] by auto
    with arrow show ?thesis
      using arrow_part_ok by blast
  qed
qed

section \<open>Properties\<close>


definition ex_names :: file_set where
  "ex_names = \<lparr>fs_srcs = [], fs_names = [''a'', ''b''], fs_lts = [Inr KJ, Inr KF]\<rparr>"


text \<open>
  The parts of a selection share its columns out: every result column belongs to exactly one
  part, once, whatever number of parts is asked for.
\<close>

theorem parts_share_columns:
  "distinct (concat (map (\<lambda>p. pt_raw p @ pt_outs p) (split_sel fs sl k))) \<and>
   set (concat (map (\<lambda>p. pt_raw p @ pt_outs p) (split_sel fs sl k))) = {..<length (sel_out sl)}"
  unfolding split_sel_columns by auto

text \<open>
  Reading every column does not check for duplicate names: a file with two columns of one
  name is selected whole, although naming that column twice is refused.
\<close>

theorem select_all_keeps_duplicates:
  "let fs = \<lparr>fs_srcs = [], fs_names = [''a'', ''a''], fs_lts = [Inr KJ, Inr KJ]\<rparr> in
     map_sum id sel_out (select fs None who) = Inr [0, 1] \<and>
     select fs (Some [''a'', ''a'']) who = Inl (who @ '': duplicate column'')"
  by (simp add: select_def resolve_def Let_def)

end
