(* ===== verification/RawCol.thy ===== *)
theory RawCol
  imports Image Select
begin

text \<open>
  \<^verbatim>\<open>raw_col\<close> of \<^verbatim>\<open>src/src/read.rs\<close>: decoding a column chunk
  straight into the K payload, a batch at a time. The page decoder is a parameter: asked
  for at most \<open>want\<close> records it answers how many it read, the non-null values packed and
  the definition levels, and its next state.
\<close>

section \<open>The loop\<close>

definition BATCH_ROWS :: nat where "BATCH_ROWS = 65536"

type_synonym ('st, 'a) rd = "'st \<Rightarrow> nat \<Rightarrow> ((nat \<times> 'a list \<times> i16 list) \<times> 'st) result"

text \<open>
  One batch: the values land at the front of the free range, then \<^verbatim>\<open>patch\<close>
  finishes the records read.
\<close>

definition raw_batch ::
    "'a native \<Rightarrow> 'a \<Rightarrow> 'a \<Rightarrow> 'a \<Rightarrow> i16 \<Rightarrow> string \<Rightarrow> nat \<Rightarrow> nat \<Rightarrow> nat \<Rightarrow> 'a list \<Rightarrow> i16 list \<Rightarrow> 'a list \<Rightarrow>
     'a list outcome" where
  "raw_batch ops nullv sh mul maxdef who at want recs vals defs d =
    (if length vals > want then Some (Inl (who @ '': values buffer moved''))
     else if 0 < sint maxdef \<and> length vals < recs \<and> length defs < recs
     then Some (Inl (who @ '': definition levels short''))
     else case patch ops (drop at (write_at at vals d)) recs (length vals) nullv sh mul
                 (if 0 < sint maxdef then Some defs else None) maxdef of
            None \<Rightarrow> None
          | Some t \<Rightarrow> Some (Inr (take at d @ t)))"

function raw_loop ::
    "('st, 'a) rd \<Rightarrow> 'a native \<Rightarrow> 'a \<Rightarrow> 'a \<Rightarrow> 'a \<Rightarrow> i16 \<Rightarrow> string \<Rightarrow> nat \<Rightarrow> nat \<Rightarrow> nat \<Rightarrow> 'st \<Rightarrow> 'a list \<Rightarrow>
     ('a list \<times> nat) outcome" where
  "raw_loop next ops nullv sh mul maxdef who off rows done st d =
    (let want = min BATCH_ROWS (rows - done) in
     if want = 0 then Some (Inr (d, done))
     else obind (Some (ctx who (next st want))) (\<lambda>((recs, vals, defs), st').
       obind (raw_batch ops nullv sh mul maxdef who (off + done) want recs vals defs d) (\<lambda>d'.
         if recs = 0 then Some (Inr (d', done))
         else raw_loop next ops nullv sh mul maxdef who off rows (done + recs) st' d')))"
  by pat_completeness auto
termination
  by (relation "measure (\<lambda>(next, ops, nullv, sh, mul, maxdef, who, off, rows, done, st, d). rows - done)")
     (auto simp: BATCH_ROWS_def)

declare raw_loop.simps [simp del]

section \<open>The four element types\<close>

text \<open>
  The crate's readers: one state per column chunk, with a typed view for each physical type
  the source asks for.
\<close>

record 'st column_reader =
  cr_open :: "src \<Rightarrow> nat \<Rightarrow> nat \<Rightarrow> 'st result"
  cr_typed :: "raw \<Rightarrow> 'st \<Rightarrow> bool"
  cr_next32 :: "('st, 32 word) rd"
  cr_next64 :: "('st, 64 word) rd"

definition F32_ONE :: "32 word" where "F32_ONE = 0x3f800000"
definition F64_ONE :: "64 word" where "F64_ONE = 0x3ff0000000000000"

text \<open>
  A float column has no shift and no scale: of the float operations only the comparisons
  with 0.0 and 1.0 are reached, on the constants themselves.
\<close>

definition float_native :: "'a::len word \<Rightarrow> 'a word native" where
  "float_native one = signed_native\<lparr>n_is_one := (\<lambda>x. x = one)\<rparr>"

definition raw_col ::
    "'st column_reader \<Rightarrow> src \<Rightarrow> nat \<Rightarrow> nat \<Rightarrow> raw \<Rightarrow> int \<Rightarrow> payload \<Rightarrow> nat \<Rightarrow> nat \<Rightarrow> string \<Rightarrow>
     (payload \<times> nat) outcome" where
  "raw_col cr s g leaf rt lt col off rows who =
    obind (Some (ctx who (cr_open cr s g leaf))) (\<lambda>st.
      let maxdef = ld_max_def (leaf_of s leaf) in
      if \<not> cr_typed cr rt st then Some (Inl (who @ '': column reader type''))
      else case (rt, col) of
        (RI32, Pay32 d) \<Rightarrow>
          obind (raw_loop (cr_next32 cr) signed_native NI (if lt = KD then DAY2000 else 0) 1
            maxdef who off rows 0 st d) (\<lambda>(d, n). Some (Inr (Pay32 d, n)))
      | (RI64 m, Pay64 d) \<Rightarrow>
          obind (raw_loop (cr_next64 cr) signed_native NJ (if lt = KP then NS2000 else 0) m
            maxdef who off rows 0 st d) (\<lambda>(d, n). Some (Inr (Pay64 d, n)))
      | (RF32, Pay32 d) \<Rightarrow>
          obind (raw_loop (cr_next32 cr) (float_native F32_ONE) F32_NAN 0 F32_ONE
            maxdef who off rows 0 st d) (\<lambda>(d, n). Some (Inr (Pay32 d, n)))
      | (RF64, Pay64 d) \<Rightarrow>
          obind (raw_loop (cr_next64 cr) (float_native F64_ONE) F64_NAN 0 F64_ONE
            maxdef who off rows 0 st d) (\<lambda>(d, n). Some (Inr (Pay64 d, n)))
      | _ \<Rightarrow> None)"

section \<open>What the page decoder promises\<close>

text \<open>
  \<open>rest st\<close> is what is still to come, one entry per record, and \<open>mdef st\<close> the column's
  maximum definition level. The decoder reads a bounded prefix of the rest, nothing only
  at the end, packs the values present and gives the level of each record.
\<close>

definition rd_ok :: "('st \<Rightarrow> i16) \<Rightarrow> ('st, 'a) rd \<Rightarrow> ('st \<Rightarrow> 'a option list) \<Rightarrow> bool" where
  "rd_ok mdef next rest \<longleftrightarrow>
     (\<forall>st want recs vals defs st'. 0 < want \<longrightarrow> next st want = Inr ((recs, vals, defs), st') \<longrightarrow>
        recs \<le> want \<and> recs \<le> length (rest st) \<and> (recs = 0 \<longrightarrow> rest st = []) \<and>
        vals = packed (take recs (rest st)) \<and> rest st' = drop recs (rest st) \<and> mdef st' = mdef st \<and>
        (0 < sint (mdef st) \<longrightarrow> levels_of defs (mdef st) (take recs (rest st))) \<and>
        (\<not> 0 < sint (mdef st) \<longrightarrow> None \<notin> set (take recs (rest st))))"

lemma packed_all: "None \<notin> set rows \<Longrightarrow> length (packed rows) = length rows"
proof (induction rows)
  case (Cons r rows)
  then show ?case by (cases r) auto
qed simp

lemma patch_rows_prefix:
  assumes n: "length rows \<le> length d" and d: "take (length (packed rows)) d = packed rows"
    and lv: "length (packed rows) < length rows \<Longrightarrow> \<exists>dl. defs = Some dl \<and> levels_of dl maxdef rows"
  shows "patch ops d (length rows) (length (packed rows)) nullv sh mul defs maxdef =
    Some (map (row_value ops nullv sh mul) rows @ drop (length rows) d)"
proof (cases "length (packed rows) = length rows")
  case True
  have all: "map Some (packed rows) = rows"
    using True by (rule packed_full)
  have "take (length rows) d = packed rows"
    using d True by simp
  moreover have "map (patch_shift ops nullv sh mul) (packed rows) = map (row_value ops nullv sh mul) rows"
    by (subst (2) all[symmetric]) (simp add: row_value_def)
  moreover have "d = packed rows @ drop (length rows) d"
    using append_take_drop_id[of "length rows" d] calculation(1) by simp
  ultimately show ?thesis
    using True by (auto simp: patch_def Let_def map_range_def patch_shift_id map_idI split: option.splits)
next
  case False
  then have less: "length (packed rows) < length rows"
    using packed_le[of rows] by simp
  then obtain dl where dl: "defs = Some dl" "levels_of dl maxdef rows"
    using lv by blast
  have "patch_back (patch_shift ops nullv sh mul) nullv dl maxdef (length rows) (length (packed rows)) d
      = Some (map (row_value ops nullv sh mul) rows @ drop (length rows) d)"
    using patch_back_spread[of "length rows" dl d "length (packed rows)" maxdef]
      levels_length[OF dl(2)] levels_count[OF dl(2)] n d spread_packed[OF dl(2)]
    by (simp add: row_value_def[abs_def])
  with less dl show ?thesis
    using levels_length[OF dl(2)] by (simp add: patch_def Let_def)
qed

lemma raw_batch_rows:
  assumes rows: "recs = length rows" "vals = packed rows" "recs \<le> want" "at + want \<le> length d"
    and lv: "0 < sint maxdef \<Longrightarrow> levels_of defs maxdef rows" "\<not> 0 < sint maxdef \<Longrightarrow> None \<notin> set rows"
  shows "raw_batch ops nullv sh mul maxdef who at want recs vals defs d =
    Some (Inr (write_at at (map (row_value ops nullv sh mul) rows) d))"
proof -
  have le: "length (packed rows) \<le> length rows"
    by (rule packed_le)
  let ?d = "drop at (write_at at vals d)"
  have wd: "?d = vals @ drop (at + length vals) d"
    using rows le by (simp add: write_at_def)
  have "patch ops ?d recs (length vals) nullv sh mul (if 0 < sint maxdef then Some defs else None) maxdef =
      Some (map (row_value ops nullv sh mul) rows @ drop (length rows) ?d)"
    unfolding rows(1,2)
  proof (rule patch_rows_prefix)
    show "length rows \<le> length (drop at (write_at at (packed rows) d))"
      using rows le by simp
    show "take (length (packed rows)) (drop at (write_at at (packed rows) d)) = packed rows"
      using wd rows(2) by simp
    show "\<exists>dl. (if 0 < sint maxdef then Some defs else None) = Some dl \<and> levels_of dl maxdef rows"
      if "length (packed rows) < length rows"
      using that lv packed_all[of rows] by (cases "0 < sint maxdef") auto
  qed
  moreover have "drop (length rows) ?d = drop (at + length rows) d"
    unfolding wd using rows(2) le by (simp add: add.commute)
  moreover have "\<not> (0 < sint maxdef \<and> length vals < recs \<and> length defs < recs)"
    using lv(1) levels_length rows(1) by fastforce
  ultimately show ?thesis
    using rows le by (simp add: raw_batch_def write_at_def)
qed

lemma write_at_append:
  "off + length a + length b \<le> length d \<Longrightarrow>
     write_at (off + length a) b (write_at off a d) = write_at off (a @ b) d"
  by (rule nth_equalityI) (auto simp: write_at_nth nth_append)

text \<open>
  The loop delivers every record the chunk has, up to the rows asked for, each as its row
  value, and leaves the rest of the payload alone.
\<close>

lemma raw_loop_rows:
  assumes rd: "rd_ok mdef next rest" and md: "mdef st = maxdef"
    and dn: "done \<le> rows" and fit: "off + rows \<le> length d"
    and run: "raw_loop next ops nullv sh mul maxdef who off rows done st d = Some (Inr (d', n))"
  shows "n = min rows (done + length (rest st)) \<and>
    d' = write_at (off + done) (map (row_value ops nullv sh mul) (take (n - done) (rest st))) d"
  using md dn fit run
proof (induction "rows - done" arbitrary: "done" st d rule: less_induct)
  case less
  let ?want = "min BATCH_ROWS (rows - done)"
  show ?case
  proof (cases "?want = 0")
    case True
    then have "done = rows"
      using less.prems(2) by (simp add: BATCH_ROWS_def split: if_splits)
    with less.prems show ?thesis
      by (simp add: raw_loop.simps[of "next"] write_at_def)
  next
    case False
    note unf = less.prems(4)[unfolded raw_loop.simps[of "next" ops nullv sh mul maxdef who off rows "done" st d]]
    from unf False obtain recs vals dl st' d1 where nx: "next st ?want = Inr ((recs, vals, dl), st')"
      and batch: "raw_batch ops nullv sh mul maxdef who (off + done) ?want recs vals dl d = Some (Inr d1)"
      and cont: "(if recs = 0 then Some (Inr (d1, done))
          else raw_loop next ops nullv sh mul maxdef who off rows (done + recs) st' d1) = Some (Inr (d', n))"
      by (auto simp: Let_def result_simps)
    have pr: "recs \<le> ?want" "recs \<le> length (rest st)" "recs = 0 \<longrightarrow> rest st = []"
        "vals = packed (take recs (rest st))" "rest st' = drop recs (rest st)" "mdef st' = mdef st"
        "0 < sint maxdef \<longrightarrow> levels_of dl maxdef (take recs (rest st))"
        "\<not> 0 < sint maxdef \<longrightarrow> None \<notin> set (take recs (rest st))"
      using rd False nx less.prems(1) unfolding rd_ok_def by blast+
    have d1: "d1 = write_at (off + done) (map (row_value ops nullv sh mul) (take recs (rest st))) d"
      using batch raw_batch_rows[of recs "take recs (rest st)" vals ?want "off + done" d maxdef dl] pr less.prems
      by simp
    show ?thesis
    proof (cases "recs = 0")
      case True
      with cont pr d1 less.prems(2) show ?thesis by auto
    next
      case more: False
      have bound: "done + recs \<le> rows"
        using pr(1) less.prems(2) by linarith
      have len: "length d1 = length d"
        using d1 bound less.prems by simp
      have IH: "n = min rows (done + recs + length (rest st'))"
          "d' = write_at (off + (done + recs)) (map (row_value ops nullv sh mul) (take (n - (done + recs)) (rest st'))) d1"
        using less.hyps[of "done + recs" st' d1] cont more bound len less.prems pr(1,6) by auto
      have k: "n - done = recs + (n - (done + recs))" "length (take recs (rest st)) = recs"
          "length (take (n - (done + recs)) (rest st')) = n - (done + recs)" "n \<le> rows"
        using IH(1) pr(2,5) bound by auto
      have "d' = write_at (off + done) (map (row_value ops nullv sh mul) (take recs (rest st)) @
          map (row_value ops nullv sh mul) (take (n - (done + recs)) (rest st'))) d"
        unfolding IH(2) d1 add.assoc[symmetric]
        using write_at_append[of "off + done" "map (row_value ops nullv sh mul) (take recs (rest st))"
            "map (row_value ops nullv sh mul) (take (n - (done + recs)) (rest st'))" d] k less.prems(3) bound
        by simp
      also have "map (row_value ops nullv sh mul) (take recs (rest st)) @
          map (row_value ops nullv sh mul) (take (n - (done + recs)) (rest st')) =
          map (row_value ops nullv sh mul) (take (n - done) (rest st))"
        unfolding k(1) pr(5) by (simp add: take_add)
      finally show ?thesis
        using IH(1) pr(2,5) by simp
    qed
  qed
qed

section \<open>A whole chunk\<close>

text \<open>The content of a column chunk as the four readers see it, and its image in the payload.\<close>

record chunk_rows =
  ck32 :: "32 word option list"
  ck64 :: "64 word option list"

definition cr_ok ::
    "'st column_reader \<Rightarrow> ('st \<Rightarrow> i16) \<Rightarrow> ('st \<Rightarrow> chunk_rows) \<Rightarrow> (src \<Rightarrow> nat \<Rightarrow> nat \<Rightarrow> chunk_rows) \<Rightarrow> bool" where
  "cr_ok cr mdef rest content \<longleftrightarrow>
     rd_ok mdef (cr_next32 cr) (\<lambda>st. ck32 (rest st)) \<and> rd_ok mdef (cr_next64 cr) (\<lambda>st. ck64 (rest st)) \<and>
     (\<forall>s g l st. cr_open cr s g l = Inr st \<longrightarrow> rest st = content s g l \<and> mdef st = ld_max_def (leaf_of s l))"

definition raw_image :: "raw \<Rightarrow> int \<Rightarrow> chunk_rows \<Rightarrow> payload" where
  "raw_image rt lt ck = (case rt of
     RI32 \<Rightarrow> Pay32 (map (row_value signed_native NI (if lt = KD then DAY2000 else 0) 1) (ck32 ck))
   | RI64 m \<Rightarrow> Pay64 (map (row_value signed_native NJ (if lt = KP then NS2000 else 0) m) (ck64 ck))
   | RF32 \<Rightarrow> Pay32 (map (row_value (float_native F32_ONE) F32_NAN 0 F32_ONE) (ck32 ck))
   | RF64 \<Rightarrow> Pay64 (map (row_value (float_native F64_ONE) F64_NAN 0 F64_ONE) (ck64 ck)))"

lemma raw_col_image:
  assumes cr: "cr_ok cr mdef rest content" and fit: "off + rows \<le> payload_len col"
    and run: "raw_col cr s g leaf rt lt col off rows who = Some (Inr (col', n))"
  shows "n = min rows (payload_len (raw_image rt lt (content s g leaf))) \<and>
    pay_kind col' = pay_kind col \<and>
    pay_cells col' = write_at off (take n (pay_cells (raw_image rt lt (content s g leaf)))) (pay_cells col)"
proof -
  have r32: "rd_ok mdef (cr_next32 cr) (\<lambda>st. ck32 (rest st))" and r64: "rd_ok mdef (cr_next64 cr) (\<lambda>st. ck64 (rest st))"
    using cr by (simp_all add: cr_ok_def)
  obtain st where st: "cr_open cr s g leaf = Inr st"
    using run by (auto simp: raw_col_def result_simps)
  then have c: "rest st = content s g leaf" "mdef st = ld_max_def (leaf_of s leaf)"
    using cr by (simp_all add: cr_ok_def)
  note l32 = raw_loop_rows[OF r32 c(2) le0] and l64 = raw_loop_rows[OF r64 c(2) le0]
  show ?thesis
    using run fit c(1) st
    by (cases rt; cases col)
       (auto simp: raw_col_def raw_image_def result_simps Let_def take_map map_write_at split: if_splits
         dest!: l32[rotated] l64[rotated])
qed

end
