(* ===== verification/Codes.thy ===== *)
theory Codes
  imports Meta FillCol
begin

text \<open>
  Symbol columns as a pair of a dictionary and codes (\<^verbatim>\<open>src/src/read.rs\<close>): reading
  dictionary pages, the union over a read window (\<^verbatim>\<open>codes_plan\<close>), the worker's
  memo of lookup tables (\<^verbatim>\<open>SymCache::lut\<close>) and the converter
  \<^verbatim>\<open>fill_codes\<close>. The page reader is a parameter; a panic is None.
\<close>

section \<open>Dictionary pages\<close>

text \<open>One row group of a window: file, row group, first result row, rows.\<close>

type_synonym rg = "nat \<times> nat \<times> nat \<times> nat"

definition all_dict :: "file_set \<Rightarrow> rg list \<Rightarrow> nat \<Rightarrow> bool" where
  "all_dict fs rgs c = list_all (\<lambda>(f, g, _, _). chunk_dict (fs_srcs fs ! f) g c) rgs"

datatype page = DictionaryPage "u8 list" u32 | OtherPage

record page_src =
  pg_open :: "src \<Rightarrow> unit result"
  pg_next :: "src \<Rightarrow> nat \<Rightarrow> nat \<Rightarrow> page option result"

type_synonym dict_buf = "u64 \<times> u8 list \<times> (u32 \<times> u32) list"

text \<open>\<open>buf.get(i..i + 4)\<close>, then a length that stays inside the buffer.\<close>

fun page_spans :: "string \<Rightarrow> u8 list \<Rightarrow> nat \<Rightarrow> nat \<Rightarrow> (u32 \<times> u32) list result" where
  "page_spans err buf 0 i = Inr []"
| "page_spans err buf (Suc k) i =
    (if i + 4 \<le> length buf then
       let n = of_le (take 4 (drop i buf)) in
       if i + 4 + n \<le> length buf
       then rbind (page_spans err buf k (i + 4 + n)) (\<lambda>r. Inr ((of_nat (i + 4), of_nat n) # r))
       else Inl err
     else Inl err)"

text \<open>\<open>&buf[o as usize..(o + n) as usize]\<close>, the sum taken in 32 bits; None is a panic.\<close>

definition span_slice :: "u8 list \<Rightarrow> u32 \<times> u32 \<Rightarrow> u8 list option" where
  "span_slice buf s = (let a = unat (fst s); b = unat (fst s + snd s) in
     if a \<le> b \<and> b \<le> length buf then Some (take (b - a) (drop a buf)) else None)"

definition GOLDEN :: u64 where "GOLDEN = 0x9E3779B97F4A7C15"

definition set_hash :: "u8 list list \<Rightarrow> u64" where
  "set_hash es = foldl (\<lambda>h e. h XOR (fxh e * GOLDEN)) (fxh (to_le 8 (length es))) es"

definition dict_page :: "page_src \<Rightarrow> src \<Rightarrow> nat \<Rightarrow> nat \<Rightarrow> string \<Rightarrow> dict_buf result option" where
  "dict_page ps s g c who =
    (case ctx (who @ '': '' @ src_path s) (pg_open ps s) of
       Inl e \<Rightarrow> Some (Inl e)
     | Inr _ \<Rightarrow>
        (case chunk s g c of
           None \<Rightarrow> Some (Inr (0, [], []))
         | Some cc \<Rightarrow>
            (case ctx who (pg_next ps s g c) of
               Inl e \<Rightarrow> Some (Inl e)
             | Inr (Some (DictionaryPage buf k)) \<Rightarrow>
                (case page_spans (who @ '': '' @ src_path s @ '': short dictionary'') buf (unat k) 0 of
                   Inl e \<Rightarrow> Some (Inl e)
                 | Inr spans \<Rightarrow> map_option (\<lambda>es. Inr (set_hash es, buf, spans))
                                  (those (map (span_slice buf) spans)))
             | Inr _ \<Rightarrow> Some (Inr (0, [], [])))))"

section \<open>The union dictionary\<close>

record codes =
  cd_d :: "ptr list"
  cd_ix :: "u8 list \<Rightarrow> u32 option"
  cd_empty :: u32
  cd_lt :: int

definition codes_width :: "nat \<Rightarrow> int" where
  "codes_width n = (if n \<le> 256 then KG else if n \<le> 32768 then KH else KI)"

type_synonym union = "ptr list \<times> (u8 list \<Rightarrow> u32 option)"

definition merge_entry :: "(u8 list \<Rightarrow> ptr) \<Rightarrow> union \<Rightarrow> u8 list \<Rightarrow> union" where
  "merge_entry intern u v = (let (d, ix) = u in
     if ix v = None then (d @ [intern v], ix(v \<mapsto> of_nat (length d))) else (d, ix))"

text \<open>Statistics are the only cheap answer to whether a chunk holds nulls.\<close>

definition may_null :: "file_set \<Rightarrow> rg \<Rightarrow> nat \<Rightarrow> bool" where
  "may_null fs r c = (let (f, g, _, _) = r in case chunk (fs_srcs fs ! f) g c of
     None \<Rightarrow> True
   | Some cc \<Rightarrow> (case cm_stats cc of None \<Rightarrow> True
      | Some s \<Rightarrow> (case st_nulls s of None \<Rightarrow> True | Some k \<Rightarrow> k > 0)))"

fun merge_pages ::
    "(u8 list \<Rightarrow> ptr) \<Rightarrow> file_set \<Rightarrow> nat \<Rightarrow> union \<times> bool \<times> u64 set \<Rightarrow> (rg \<times> dict_buf result) list \<Rightarrow>
     (union \<times> bool) option result" where
  "merge_pages intern fs c (u, nulls, seen) [] = Inr (Some (u, nulls))"
| "merge_pages intern fs c (u, nulls, seen) ((r, p) # rest) =
    rbind p (\<lambda>(h, buf, spans).
      if spans = [] then Inr None
      else let u' = (if h \<in> seen then u
              else foldl (merge_entry intern) u (map (\<lambda>s. the (span_slice buf s)) spans))
        in merge_pages intern fs c (u', nulls \<or> may_null fs r c, insert h seen) rest)"

definition close_union :: "(u8 list \<Rightarrow> ptr) \<Rightarrow> union \<times> bool \<Rightarrow> codes" where
  "close_union intern un = (let ((d, ix), nulls) = un;
     (d', ix', empty) = (case ix [] of
        Some i \<Rightarrow> (d, ix, i)
      | None \<Rightarrow> let id = of_nat (length d) in
          if nulls then (d @ [intern []], ix([] \<mapsto> id), id) else (d, ix, id))
     in \<lparr>cd_d = d', cd_ix = ix', cd_empty = empty,
         cd_lt = codes_width (max (length d') (unat empty + 1))\<rparr>)"

definition codes_plan ::
    "(u8 list \<Rightarrow> ptr) \<Rightarrow> page_src \<Rightarrow> file_set \<Rightarrow> rg list \<Rightarrow> nat \<Rightarrow> string \<Rightarrow> codes option result" where
  "codes_plan intern ps fs rgs c who =
    (if rgs = [] \<or> \<not> all_dict fs rgs c then Inr None
     else rbind (ok_or (those (map (\<lambda>(f, g, _, _). dict_page ps (fs_srcs fs ! f) g c who) rgs))
                  (who @ '': dictionary panic''))
       (\<lambda>out. rbind (merge_pages intern fs c (([], Map.empty), False, {}) (zip rgs out))
         (\<lambda>r. Inr (map_option (close_union intern) r))))"

section \<open>Lookup tables and codes\<close>

definition lut_ids :: "codes \<Rightarrow> u8 list option list \<Rightarrow> u32 list option" where
  "lut_ids cd sa = those (map (\<lambda>v. cd_ix cd (case v of None \<Rightarrow> [] | Some b \<Rightarrow> b)) sa)"

definition sc_lut :: "(arc \<Rightarrow> utf8s) \<Rightarrow> arc \<Rightarrow> codes \<Rightarrow> sym_cache \<Rightarrow> (u32 list option \<times> sym_cache) result" where
  "sc_lut deref vals cd sy =
    (case mru_find vals (sc_luts sy) of
       Some (t, ts) \<Rightarrow> Inr (t, sy\<lparr>sc_luts := ts\<rparr>)
     | None \<Rightarrow> rbind (deref vals) (\<lambda>sa.
         let t = lut_ids cd sa in Inr (t, sy\<lparr>sc_luts := mru_put DICTS vals t (sc_luts sy)\<rparr>)))"

definition lut_at :: "u32 list \<Rightarrow> u32 \<Rightarrow> nat \<Rightarrow> u32" where
  "lut_at lut e k = (if k < length lut then lut ! k else e)"

definition store_codes :: "(u32 \<Rightarrow> 'a) \<Rightarrow> u32 list \<Rightarrow> u32 \<Rightarrow> dict_array \<Rightarrow> nat \<Rightarrow> 'a list \<Rightarrow> 'a list" where
  "store_codes narrow lut e a off d =
    (let d = write_at off (map (\<lambda>k. narrow (lut_at lut e k)) (da_keys a)) d
     in case da_nulls a of None \<Rightarrow> d | Some nb \<Rightarrow> put_all off (narrow e) (each_null nb) d)"

text \<open>The last component is what the call stored into \<^verbatim>\<open>give\<close>.\<close>

definition fill_codes ::
    "(arc \<Rightarrow> utf8s) \<Rightarrow> dict_array \<Rightarrow> codes \<Rightarrow> payload \<Rightarrow> nat \<Rightarrow> sym_cache \<Rightarrow> (payload \<times> sym_cache \<times> bool) result" where
  "fill_codes deref a cd col off sy =
    rbind (sc_lut deref (da_values a) cd sy) (\<lambda>(t, sy').
      case t of
        None \<Rightarrow> Inr (col, sy', True)
      | Some lut \<Rightarrow>
          Inr (case col of
                 Pay8 d \<Rightarrow> Pay8 (store_codes ucast lut (cd_empty cd) a off d)
               | Pay16 d \<Rightarrow> Pay16 (store_codes ucast lut (cd_empty cd) a off d)
               | Pay32 d \<Rightarrow> Pay32 (store_codes (\<lambda>x. x) lut (cd_empty cd) a off d)
               | _ \<Rightarrow> col, sy', False))"

definition KEY_TYPES :: "data_type set" where
  "KEY_TYPES = {Int8, Int16, Int32, Int64, UInt8, UInt16, UInt32, UInt64}"

definition sym_codes ::
    "(arc \<Rightarrow> utf8s) \<Rightarrow> arr \<Rightarrow> codes \<Rightarrow> payload \<Rightarrow> nat \<Rightarrow> sym_cache \<Rightarrow> (payload \<times> sym_cache \<times> bool) result" where
  "sym_codes deref arr cd col off sy = (case arr_type arr of
     Dictionary k v \<Rightarrow>
       if k \<in> KEY_TYPES then
         (case arr of ArrDict dt a \<Rightarrow> fill_codes deref a cd col off sy
          | _ \<Rightarrow> Inl ''pq_read: dictionary layout'')
       else Inr (col, sy, True)
   | _ \<Rightarrow> Inr (col, sy, True))"

section \<open>The spans of a page\<close>

text \<open>
  The entries as a PLAIN page spells them; the parser finds exactly these, and a page whose
  bytes end early is an error.
\<close>

definition plain_entry :: "u8 list \<Rightarrow> u8 list" where
  "plain_entry e = to_le 4 (length e) @ e"

lemma span_slice_of_nat:
  assumes "a + n \<le> length buf" "length buf < 2 ^ 32"
  shows "span_slice buf (of_nat a, of_nat n) = Some (take n (drop a buf))"
proof -
  have "unat (of_nat a :: u32) = a"
    using assms by (intro unat_of_nat_small) simp
  moreover have "unat (of_nat a + of_nat n :: u32) = a + n"
    using assms unat_of_nat_small[of "a + n", where 'a = 32] by simp
  ultimately show ?thesis
    using assms(1) by (simp add: span_slice_def Let_def)
qed

lemma page_spans_plain:
  assumes "length buf < 2 ^ 32" "buf = pre @ concat (map plain_entry es) @ rest"
  shows "\<exists>spans. page_spans err buf (length es) (length pre) = Inr spans \<and>
    map (span_slice buf) spans = map Some es"
  using assms
proof (induction es arbitrary: pre)
  case Nil
  then show ?case by simp
next
  case (Cons e es)
  let ?pre = "pre @ plain_entry e"
  have len: "length pre + 4 + length e \<le> length buf"
    by (simp add: Cons.prems(2) plain_entry_def)
  have n: "of_le (take 4 (drop (length pre) buf)) = length e"
    using Cons.prems len by (simp add: plain_entry_def of_le_to_le)
  obtain spans where sp: "page_spans err buf (length es) (length ?pre) = Inr spans"
      "map (span_slice buf) spans = map Some es"
    using Cons.IH[of ?pre] Cons.prems by auto
  have "length ?pre = length pre + 4 + length e"
    by (simp add: plain_entry_def)
  moreover have "span_slice buf (of_nat (length pre + 4), of_nat (length e)) = Some e"
    using span_slice_of_nat[of "length pre + 4" "length e" buf] len Cons.prems
    by (simp add: plain_entry_def)
  ultimately show ?case
    using sp n len by (simp add: Let_def add.assoc)
qed

lemma page_spans_in_range:
  "page_spans err buf k i = Inr spans \<Longrightarrow> length buf < 2 ^ 32 \<Longrightarrow>
     list_all (\<lambda>s. span_slice buf s \<noteq> None) spans \<and> length spans = k"
proof (induction err buf k i arbitrary: spans rule: page_spans.induct)
  case (1 err buf i)
  then show ?case by simp
next
  case (2 err buf k i)
  let ?n = "of_le (take 4 (drop i buf))"
  have fit: "i + 4 + ?n \<le> length buf"
    using "2.prems" by (auto simp: Let_def split: if_splits)
  then obtain r where r: "page_spans err buf k (i + 4 + ?n) = Inr r"
      "spans = (of_nat (i + 4), of_nat ?n) # r"
    using "2.prems" by (auto simp: Let_def result_simps)
  then have "span_slice buf (of_nat (i + 4), of_nat ?n) \<noteq> None"
    using fit "2.prems"(2) span_slice_of_nat[of "i + 4" ?n buf] by simp
  then show ?case
    using "2.IH"[OF _ refl _ r(1)] fit r "2.prems"(2) by simp
qed

section \<open>The union is first seen, without repeats\<close>

definition add_key :: "'a list \<Rightarrow> 'a \<Rightarrow> 'a list" where
  "add_key ks v = (if v \<in> set ks then ks else ks @ [v])"

definition first_seen :: "'a list \<Rightarrow> 'a list" where
  "first_seen vs = foldl add_key [] vs"

lemma foldl_add_key_old: "set vs \<subseteq> set ks \<Longrightarrow> foldl add_key ks vs = ks"
  by (induction vs arbitrary: ks) (auto simp: add_key_def)

lemma foldl_add_key_set: "set (foldl add_key ks vs) = set ks \<union> set vs"
  by (induction vs arbitrary: ks) (auto simp: add_key_def)

lemma foldl_add_key_distinct: "distinct ks \<Longrightarrow> distinct (foldl add_key ks vs)"
  by (induction vs arbitrary: ks) (auto simp: add_key_def)

text \<open>The index names the position of each key, as the 32-bit number the code keeps.\<close>

definition index_of :: "u8 list list \<Rightarrow> u8 list \<Rightarrow> u32 option" where
  "index_of ks v = map_option of_nat (position (\<lambda>k. k = v) ks)"

definition union_of :: "(u8 list \<Rightarrow> ptr) \<Rightarrow> u8 list list \<Rightarrow> union" where
  "union_of intern ks = (map intern ks, index_of ks)"

lemma position_snoc:
  "position p (xs @ [x]) = (case position p xs of Some i \<Rightarrow> Some i
     | None \<Rightarrow> if p x then Some (length xs) else None)"
  by (induction xs) (auto split: option.splits)

lemma index_of_None: "index_of ks v = None \<longleftrightarrow> v \<notin> set ks"
  by (auto simp: index_of_def position_None_iff)

lemma merge_entry_union: "merge_entry intern (union_of intern ks) v = union_of intern (add_key ks v)"
proof (cases "v \<in> set ks")
  case True
  then show ?thesis
    by (simp add: merge_entry_def union_of_def add_key_def index_of_None)
next
  case False
  have "(index_of ks)(v \<mapsto> of_nat (length ks)) = index_of (ks @ [v])"
  proof
    fix w
    show "((index_of ks)(v \<mapsto> of_nat (length ks))) w = index_of (ks @ [v]) w"
      using False position_None_iff[of "\<lambda>k. k = v" ks]
      by (auto simp: index_of_def position_snoc split: option.splits)
  qed
  with False show ?thesis
    by (simp add: merge_entry_def union_of_def add_key_def index_of_None)
qed

lemma merge_entries_union:
  "foldl (merge_entry intern) (union_of intern ks) vs = union_of intern (foldl add_key ks vs)"
  by (induction vs arbitrary: ks) (simp_all add: merge_entry_union)

text \<open>The entries of a page that parsed.\<close>

definition page_entries :: "dict_buf \<Rightarrow> u8 list list" where
  "page_entries p = map (\<lambda>s. the (span_slice (fst (snd p)) s)) (snd (snd p))"

text \<open>
  A repeat of a page hash is a repeat of its entry set. Where that fails the union misses a
  value, and the reader notices it row by row.
\<close>

definition hashes_faithful :: "dict_buf list \<Rightarrow> bool" where
  "hashes_faithful ps \<longleftrightarrow> (\<forall>i < length ps. \<forall>j < i.
     fst (ps ! j) = fst (ps ! i) \<longrightarrow> set (page_entries (ps ! i)) \<subseteq> set (page_entries (ps ! j)))"

lemma merge_pages_union:
  assumes "merge_pages intern fs c (union_of intern ks, nulls, seen) (zip rs ps) = Inr (Some (u, n))"
    and "length ps = length rs"
  shows "(\<exists>ks'. u = union_of intern (foldl add_key ks ks')) \<and>
    (\<exists>bufs. ps = map Inr bufs \<and> n = (nulls \<or> list_ex (\<lambda>r. may_null fs r c) rs) \<and> list_all (\<lambda>b. snd (snd b) \<noteq> []) bufs)"
  using assms
proof (induction rs arbitrary: ks nulls seen ps)
  case Nil
  then show ?case by (auto intro: exI[of _ "[]"])
next
  case (Cons r rs)
  then obtain p ps' where ps: "ps = p # ps'" "length ps' = length rs"
    by (cases ps) auto
  with Cons.prems obtain h buf spans where p: "p = Inr (h, buf, spans)" "spans \<noteq> []"
    by (cases p) (auto split: if_splits)
  define es where "es = (if h \<in> seen then [] else page_entries (h, buf, spans))"
  have "merge_pages intern fs c (union_of intern (foldl add_key ks es), nulls \<or> may_null fs r c, insert h seen)
      (zip rs ps') = Inr (Some (u, n))"
    using Cons.prems p ps
    by (auto simp: es_def page_entries_def merge_entries_union Let_def split: if_splits)
  note IH = Cons.IH[OF this ps(2)]
  then obtain ks' bufs where "u = union_of intern (foldl add_key (foldl add_key ks es) ks')" "ps' = map Inr bufs"
      "n = ((nulls \<or> may_null fs r c) \<or> list_ex (\<lambda>r. may_null fs r c) rs)" "list_all (\<lambda>b. snd (snd b) \<noteq> []) bufs"
    by blast
  then show ?case
    using p ps by (auto simp flip: foldl_append intro!: exI[of _ "(h, buf, spans) # bufs"])
qed

text \<open>With faithful hashes the union is exactly the first-seen order of all the entries.\<close>

lemma merge_pages_first_seen:
  assumes "merge_pages intern fs c (union_of intern ks, nulls, seen) (zip rs (map Inr bufs)) = Inr (Some (u, n))"
    and "length bufs = length rs" "hashes_faithful (done @ bufs)" "seen = set (map fst done)"
    and "\<forall>b \<in> set done. set (page_entries b) \<subseteq> set ks"
  shows "u = union_of intern (foldl add_key ks (concat (map page_entries bufs)))"
  using assms
proof (induction rs arbitrary: ks nulls seen bufs "done")
  case Nil
  then show ?case by simp
next
  case (Cons r rs)
  then obtain b bs where bufs: "bufs = b # bs" "length bs = length rs"
    by (cases bufs) auto
  obtain h buf spans where b: "b = (h, buf, spans)"
    by (cases b)
  define ks1 where "ks1 = foldl add_key ks (page_entries b)"
  have old: "ks1 = ks" if seen: "h \<in> seen"
  proof -
    from seen Cons.prems(4) obtain j where j: "j < length done" "fst (done ! j) = h"
      by (auto simp: in_set_conv_nth)
    have "set (page_entries b) \<subseteq> set (page_entries (done ! j))"
      using Cons.prems(3) j bufs b
      unfolding hashes_faithful_def by (metis (no_types, lifting) fst_conv length_append less_add_same_cancel1
        list.size(3) length_greater_0_conv nth_append nth_append_length list.distinct(1))
    with j Cons.prems(5) have "set (page_entries b) \<subseteq> set ks"
      using nth_mem[OF j(1)] by blast
    then show ?thesis
      unfolding ks1_def by (rule foldl_add_key_old)
  qed
  have rest: "merge_pages intern fs c (union_of intern ks1, nulls \<or> may_null fs r c, insert h seen)
      (zip rs (map Inr bs)) = Inr (Some (u, n))"
    using Cons.prems(1) bufs b old
    by (auto simp: ks1_def page_entries_def merge_entries_union Let_def split: if_splits)
  have "\<forall>b' \<in> set (done @ [b]). set (page_entries b') \<subseteq> set ks1"
    using Cons.prems(5) by (auto simp: ks1_def foldl_add_key_set)
  moreover have "hashes_faithful ((done @ [b]) @ bs)" "insert h seen = set (map fst (done @ [b]))"
    using Cons.prems(3,4) bufs b by simp_all
  ultimately have "u = union_of intern (foldl add_key ks1 (concat (map page_entries bs)))"
    using Cons.IH[OF rest bufs(2)] by blast
  then show ?case
    by (simp add: bufs ks1_def)
qed

section \<open>What a plan promises\<close>

definition plan_keys :: "(u8 list \<Rightarrow> ptr) \<Rightarrow> u8 list list \<Rightarrow> codes \<Rightarrow> bool" where
  "plan_keys intern ks cd \<longleftrightarrow> distinct ks \<and> cd_d cd = map intern ks \<and> cd_ix cd = index_of ks \<and>
     cd_empty cd = (case index_of ks [] of Some i \<Rightarrow> i | None \<Rightarrow> of_nat (length ks)) \<and>
     cd_lt cd = codes_width (max (length ks) (unat (cd_empty cd) + 1))"

lemma close_union_keys:
  assumes "distinct ks"
  shows "plan_keys intern (if nulls then add_key ks [] else ks) (close_union intern (union_of intern ks, nulls))"
proof (cases "index_of ks []")
  case None
  have "union_of intern (add_key ks []) = (map intern ks @ [intern []], (index_of ks)([] \<mapsto> of_nat (length ks)))"
    using None merge_entry_union[of intern ks "[]"] by (simp add: merge_entry_def union_of_def)
  then have ix: "(index_of ks)([] \<mapsto> of_nat (length ks)) = index_of (add_key ks [])"
    by (simp add: union_of_def)
  have fresh: "[] \<notin> set ks"
    using None by (simp add: index_of_None)
  then have "index_of (ks @ [[]]) [] = Some (of_nat (length ks))"
    using ix by (auto simp: add_key_def dest: fun_cong[of _ _ "[]"])
  with None assms ix fresh show ?thesis
    by (auto simp: plan_keys_def close_union_def union_of_def add_key_def Let_def)
next
  case (Some i)
  then have "add_key ks [] = ks"
    using index_of_None[of ks "[]"] by (simp add: add_key_def)
  with Some assms show ?thesis
    by (simp add: plan_keys_def close_union_def union_of_def Let_def)
qed

lemma codes_plan_keys:
  assumes "codes_plan intern ps fs rgs c who = Inr (Some cd)"
  shows "\<exists>ks. plan_keys intern ks cd \<and> (list_ex (\<lambda>r. may_null fs r c) rgs \<longrightarrow> [] \<in> set ks)"
proof -
  obtain out un n where out: "those (map (\<lambda>(f, g, _, _). dict_page ps (fs_srcs fs ! f) g c who) rgs) = Some out"
    and m: "merge_pages intern fs c (([], Map.empty), False, {}) (zip rgs out) = Inr (Some (un, n))"
    and cd: "cd = close_union intern (un, n)"
    using assms by (auto simp: codes_plan_def result_simps split: if_splits)
  have start: "([], Map.empty) = union_of intern []"
    by (auto simp: union_of_def index_of_def)
  have len: "length out = length rgs"
    using out[unfolded those_Some_iff, THEN arg_cong, of length] by simp
  obtain ks' where un: "un = union_of intern (foldl add_key [] ks')" and n: "n = list_ex (\<lambda>r. may_null fs r c) rgs"
    using merge_pages_union[OF m[unfolded start] len] by blast
  have "distinct (foldl add_key [] ks')"
    by (rule foldl_add_key_distinct) simp
  then have "plan_keys intern (if n then add_key (foldl add_key [] ks') [] else foldl add_key [] ks') cd"
    unfolding cd un by (rule close_union_keys)
  moreover have "[] \<in> set (add_key (foldl add_key [] ks') [])"
    by (simp add: add_key_def)
  ultimately show ?thesis
    using n by (cases n) auto
qed

section \<open>A code means its symbol\<close>

text \<open>
  How the host reads the pair back: \<open>D[C]\<close>, an index past the end answering the null
  symbol.
\<close>

definition sym_at :: "(u8 list \<Rightarrow> ptr) \<Rightarrow> ptr list \<Rightarrow> nat \<Rightarrow> ptr" where
  "sym_at intern d i = (if i < length d then d ! i else intern [])"

definition code_vec :: "payload \<Rightarrow> nat list" where
  "code_vec p = (case p of Pay8 d \<Rightarrow> map unat d | Pay16 d \<Rightarrow> map (\<lambda>x. nat (sint x)) d
     | Pay32 d \<Rightarrow> map (\<lambda>x. nat (sint x)) d | Pay64 d \<Rightarrow> [] | PaySym d \<Rightarrow> [])"

text \<open>Below 2^31 entries every id fits the vector chosen for it.\<close>

definition small_plan :: "codes \<Rightarrow> bool" where
  "small_plan cd \<longleftrightarrow> length (cd_d cd) < 2 ^ 31"

lemma index_of_Some:
  assumes "index_of ks v = Some i" "length ks < 2 ^ 32"
  shows "unat i < length ks \<and> ks ! unat i = v"
proof -
  obtain j where j: "position (\<lambda>k. k = v) ks = Some j" "i = of_nat j"
    using assms(1) by (auto simp: index_of_def)
  have "j < length ks" "ks ! j = v"
    using position_SomeD[OF j(1)] by auto
  moreover have "unat i = j"
    unfolding j(2) using \<open>j < length ks\<close> assms(2) by (intro unat_of_nat_small) simp
  ultimately show ?thesis by simp
qed

lemma plan_id:
  assumes "plan_keys intern ks cd" "small_plan cd" "cd_ix cd v = Some i"
  shows "sym_at intern (cd_d cd) (unat i) = intern v" "unat i < max (length ks) (unat (cd_empty cd) + 1)"
proof -
  have "length ks < 2 ^ 32"
    using assms(1,2) by (simp add: small_plan_def plan_keys_def)
  then have "unat i < length ks \<and> ks ! unat i = v"
    using assms index_of_Some[of ks v i] by (simp add: plan_keys_def)
  then show "sym_at intern (cd_d cd) (unat i) = intern v" "unat i < max (length ks) (unat (cd_empty cd) + 1)"
    using assms(1) by (auto simp: sym_at_def plan_keys_def)
qed

lemma plan_empty:
  assumes "plan_keys intern ks cd" "small_plan cd"
  shows "sym_at intern (cd_d cd) (unat (cd_empty cd)) = intern []" "unat (cd_empty cd) \<le> length ks"
proof -
  have len: "length ks < 2 ^ 31" "length (cd_d cd) = length ks"
    using assms by (simp_all add: small_plan_def plan_keys_def)
  show "sym_at intern (cd_d cd) (unat (cd_empty cd)) = intern []"
  proof (cases "index_of ks []")
    case None
    then have "unat (cd_empty cd) = length ks"
      using assms len unat_of_nat_small[of "length ks", where 'a = 32] by (simp add: plan_keys_def)
    with len show ?thesis by (simp add: sym_at_def)
  next
    case (Some i)
    with assms have "cd_ix cd [] = Some (cd_empty cd)"
      by (simp add: plan_keys_def)
    then show ?thesis
      by (rule plan_id(1)[OF assms])
  qed
  show "unat (cd_empty cd) \<le> length ks"
    using assms(1) len index_of_Some[of ks "[]"] unat_of_nat_small[of "length ks", where 'a = 32]
    by (cases "index_of ks []") (auto simp: plan_keys_def less_imp_le)
qed

definition code_row :: "u32 list \<Rightarrow> u32 \<Rightarrow> dict_array \<Rightarrow> nat \<Rightarrow> u32" where
  "code_row lut e a i =
    (if (case da_nulls a of None \<Rightarrow> False | Some nb \<Rightarrow> \<not> nb_valid nb i) then e
     else lut_at lut e (da_keys a ! i))"

lemma length_store_codes:
  "off + length (da_keys a) \<le> length d \<Longrightarrow> length (store_codes narrow lut e a off d) = length d"
  by (simp add: store_codes_def Let_def split: option.splits)

lemma store_codes_nth:
  assumes ok: "dict_ok a" and fit: "off + length (da_keys a) \<le> length d" and j: "j < length d"
  shows "store_codes narrow lut e a off d ! j =
    (if off \<le> j \<and> j < off + length (da_keys a) then narrow (code_row lut e a (j - off)) else d ! j)"
proof (cases "da_nulls a")
  case None
  with fit j show ?thesis
    by (auto simp: store_codes_def Let_def write_at_nth code_row_def)
next
  case (Some nb)
  with ok have "nb_ok nb" "nb_length nb = length (da_keys a)"
    by (simp_all add: dict_ok_def)
  with Some fit j show ?thesis
    by (auto simp: store_codes_def Let_def write_at_nth code_row_def arrow_nulls.patched_nth)
qed

lemma lut_ids_nth:
  assumes "lut_ids cd sa = Some lut"
  shows "length lut = length sa"
    "k < length sa \<Longrightarrow> cd_ix cd (case sa ! k of None \<Rightarrow> [] | Some b \<Rightarrow> b) = Some (lut ! k)"
proof -
  have *: "map (\<lambda>v. cd_ix cd (case v of None \<Rightarrow> [] | Some b \<Rightarrow> b)) sa = map Some lut"
    using assms by (simp add: lut_ids_def those_Some_iff)
  from arg_cong[OF *, of length] show len: "length lut = length sa"
    by simp
  show "k < length sa \<Longrightarrow> cd_ix cd (case sa ! k of None \<Rightarrow> [] | Some b \<Rightarrow> b) = Some (lut ! k)"
    using arg_cong[OF *, of "\<lambda>xs. xs ! k"] len by simp
qed

lemma code_row_sym:
  assumes plan: "plan_keys intern ks cd" "small_plan cd" and lut: "lut_ids cd sa = Some lut"
  shows "sym_at intern (cd_d cd) (unat (code_row lut (cd_empty cd) a i)) = sym_of intern (dict_row sa a i) \<and>
    unat (code_row lut (cd_empty cd) a i) < max (length ks) (unat (cd_empty cd) + 1)"
proof -
  have e: "sym_at intern (cd_d cd) (unat (cd_empty cd)) = intern []"
    using plan by (rule plan_empty)
  have "sym_at intern (cd_d cd) (unat (lut ! k)) = sym_of intern (sa ! k)"
      "unat (lut ! k) < max (length ks) (unat (cd_empty cd) + 1)" if "k < length sa" for k
    using plan_id[OF plan lut_ids_nth(2)[OF lut that]] by (auto simp: sym_of_def split: option.splits)
  then show ?thesis
    using e lut_ids_nth(1)[OF lut] by (auto simp: code_row_def lut_at_def dict_row_def sym_of_def)
qed

text \<open>The chosen width holds every id: narrowing loses nothing.\<close>

lemma sint_ucast_small:
  "unat c < 2 ^ (LENGTH('a) - 1) \<Longrightarrow> sint (ucast (c :: 'b::len word) :: 'a::len word) = int (unat c)"
proof -
  assume "unat c < 2 ^ (LENGTH('a) - 1)"
  then have "int (unat c) < int (2 ^ (LENGTH('a) - 1))"
    by (simp only: of_nat_less_iff)
  moreover have "- (2 ^ (LENGTH('a) - 1)) \<le> int (unat c)"
    by (rule order_trans[of _ 0]) simp_all
  ultimately have "signed_take_bit (LENGTH('a) - 1) (uint c) = uint c"
    by (intro signed_take_bit_int_eq_self) simp_all
  then show ?thesis
    by (simp add: signed_ucast_eq)
qed

lemma codes_width_bound:
  "codes_width m = KG \<Longrightarrow> m \<le> 256" "codes_width m = KH \<Longrightarrow> m \<le> 32768"
  by (simp_all add: codes_width_def split: if_splits)

lemma code_narrow:
  assumes lt: "cd_lt cd = codes_width m" and c: "unat (c :: u32) < m" and m: "m \<le> 2 ^ 31"
  shows "cd_lt cd = KG \<Longrightarrow> unat (ucast c :: u8) = unat c"
    "cd_lt cd = KH \<Longrightarrow> nat (sint (ucast c :: i16)) = unat c"
    "nat (sint c) = unat c"
proof -
  show "unat (ucast c :: u8) = unat c" if "cd_lt cd = KG"
  proof -
    have "m \<le> 256"
      using that lt by (intro codes_width_bound) simp
    with c have "unat c < 2 ^ 8"
      by simp
    then show ?thesis
      by (simp add: unsigned_ucast_eq take_bit_nat_eq_self)
  qed
  show "nat (sint (ucast c :: i16)) = unat c" if "cd_lt cd = KH"
  proof -
    have "m \<le> 32768"
      using that lt by (intro codes_width_bound) simp
    with c have "unat c < 2 ^ (LENGTH(16) - 1)"
      by simp
    then show ?thesis
      by (simp add: sint_ucast_small)
  qed
  have "unat c < 2 ^ (LENGTH(32) - 1)"
    using c m by simp
  then have "sint (ucast c :: u32) = int (unat c)"
    by (rule sint_ucast_small)
  then show "nat (sint c) = unat c"
    by simp
qed

text \<open>
  The memo of lookup tables answers for one plan per dictionary: a dictionary belongs to
  one column chunk, and \<open>plan_of\<close> names its column's plan. It is the same list as the
  memo of resolved dictionaries, so the same interpretation serves it.
\<close>

definition lut_entry_ok :: "(arc \<Rightarrow> utf8s) \<Rightarrow> (arc \<Rightarrow> codes) \<Rightarrow> arc \<Rightarrow> u32 list option \<Rightarrow> bool" where
  "lut_entry_ok deref plan_of a t \<longleftrightarrow> (\<exists>sa. deref a = Inr sa \<and> t = lut_ids (plan_of a) sa)"

definition luts_inv :: "(arc \<Rightarrow> utf8s) \<Rightarrow> (arc \<Rightarrow> codes) \<Rightarrow> sym_cache \<Rightarrow> bool" where
  "luts_inv deref plan_of sy \<longleftrightarrow> length (sc_luts sy) \<le> DICTS \<and>
     (\<forall>(a, t) \<in> set (sc_luts sy). lut_entry_ok deref plan_of a t)"

lemma sc_lut_correct:
  assumes inv: "luts_inv deref plan_of sy" and run: "sc_lut deref a (plan_of a) sy = Inr (t, sy')"
  shows "lut_entry_ok deref plan_of a t \<and> luts_inv deref plan_of sy'"
proof (cases "mru_find a (sc_luts sy)")
  case None
  with run obtain sa where sa: "deref a = Inr sa" "t = lut_ids (plan_of a) sa"
      "sy' = sy\<lparr>sc_luts := mru_put DICTS a t (sc_luts sy)\<rparr>"
    by (auto simp: sc_lut_def result_simps Let_def)
  then have "lut_entry_ok deref plan_of a t"
    by (simp add: lut_entry_ok_def)
  with inv sa show ?thesis
    using dict_memo.put_coherent[of "lut_entry_ok deref plan_of" a t "sc_luts sy"]
      dict_memo.put_bound[of a t "sc_luts sy"] by (simp add: luts_inv_def)
next
  case (Some r)
  with run obtain ts where hit: "mru_find a (sc_luts sy) = Some (t, ts)" "sy' = sy\<lparr>sc_luts := ts\<rparr>"
    by (cases r) (auto simp: sc_lut_def)
  with inv show ?thesis
    using dict_memo.find_coherent[OF hit(1), of "lut_entry_ok deref plan_of"]
      dict_memo.find_bounded[OF hit(1)] by (simp add: luts_inv_def)
qed

lemma codes_width_values: "codes_width n \<in> {KG, KH, KI}"
  by (simp add: codes_width_def)

lemma plan_fits:
  assumes "plan_keys intern ks cd" "small_plan cd"
  shows "cd_lt cd = codes_width (max (length ks) (unat (cd_empty cd) + 1))"
    "max (length ks) (unat (cd_empty cd) + 1) \<le> 2 ^ 31"
  using assms plan_empty(2)[OF assms] by (auto simp: plan_keys_def small_plan_def)

text \<open>
  The pair read back through \<open>D[C]\<close> is the plain symbol column: every row of the batch
  holds the code of its own symbol, every other row is left alone, and when the batch
  cannot be expressed the call says so and writes nothing.
\<close>

lemma fill_codes_rows:
  assumes plan: "plan_keys intern ks (plan_of (da_values a))" "small_plan (plan_of (da_values a))"
    and col: "payload_for (cd_lt (plan_of (da_values a))) col"
    and ok: "dict_ok a" and sa: "deref (da_values a) = Inr sa"
    and fit: "off + length (da_keys a) \<le> payload_len col" and inv: "luts_inv deref plan_of sy"
    and run: "fill_codes deref a (plan_of (da_values a)) col off sy = Inr (col', sy', give)"
  shows "luts_inv deref plan_of sy'"
    and "give \<longleftrightarrow> lut_ids (plan_of (da_values a)) sa = None"
    and "give \<Longrightarrow> col' = col"
    and "payload_for (cd_lt (plan_of (da_values a))) col' \<and> payload_len col' = payload_len col"
    and "\<not> give \<Longrightarrow> j < payload_len col \<Longrightarrow>
      (if off \<le> j \<and> j < off + length (da_keys a)
       then sym_at intern (cd_d (plan_of (da_values a))) (code_vec col' ! j) = sym_of intern (dict_row sa a (j - off))
       else code_vec col' ! j = code_vec col ! j)"
proof -
  define cd where "cd = plan_of (da_values a)"
  note plan = plan[folded cd_def]
  obtain t where t: "sc_lut deref (da_values a) cd sy = Inr (t, sy')"
    and g: "give \<longleftrightarrow> t = None" and none: "t = None \<Longrightarrow> col' = col"
    and some: "\<And>lut. t = Some lut \<Longrightarrow> col' = (case col of
        Pay8 d \<Rightarrow> Pay8 (store_codes ucast lut (cd_empty cd) a off d)
      | Pay16 d \<Rightarrow> Pay16 (store_codes ucast lut (cd_empty cd) a off d)
      | Pay32 d \<Rightarrow> Pay32 (store_codes (\<lambda>x. x) lut (cd_empty cd) a off d)
      | _ \<Rightarrow> col)"
    using run[folded cd_def] by (auto simp: fill_codes_def result_simps split: option.splits)
  note lut = sc_lut_correct[OF inv t[unfolded cd_def]]
  then show "luts_inv deref plan_of sy'" ..
  have t_eq: "t = lut_ids cd sa"
    using lut sa by (simp add: lut_entry_ok_def cd_def)
  with g show "give \<longleftrightarrow> lut_ids (plan_of (da_values a)) sa = None"
    by (simp add: cd_def)
  show "give \<Longrightarrow> col' = col"
    using g none by simp
  show "payload_for (cd_lt (plan_of (da_values a))) col' \<and> payload_len col' = payload_len col"
    using none some col fit
    by (cases t; cases col) (simp_all add: payload_for_def length_store_codes)
  assume "\<not> give" and j: "j < payload_len col"
  then obtain l where l: "t = Some l"
    using g by auto
  have ids: "lut_ids cd sa = Some l"
    using l t_eq by simp
  note sym = code_row_sym[OF plan ids, of a]
  note fits = plan_fits[OF plan]
  have lt: "cd_lt cd \<in> {KG, KH, KI}"
    unfolding fits(1) by (rule codes_width_values)
  note narrow = code_narrow[OF fits(1) conjunct2[OF sym] fits(2)]
  show "if off \<le> j \<and> j < off + length (da_keys a)
       then sym_at intern (cd_d (plan_of (da_values a))) (code_vec col' ! j) = sym_of intern (dict_row sa a (j - off))
       else code_vec col' ! j = code_vec col ! j"
    using lt col j fit some[OF l] sym narrow ok unfolding cd_def[symmetric]
    by (cases col) (auto simp: payload_for_def code_vec_def store_codes_nth length_store_codes)
qed

section \<open>Properties\<close>

text \<open>C34
  A dictionary page in Parquet's PLAIN spelling, whatever its entries and whatever bytes
  follow them, is taken apart into exactly those entries, under the hash of that entry list.
\<close>

theorem dict_page_roundtrip:
  assumes "length buf < 2 ^ 32" "buf = concat (map plain_entry es) @ rest" "chunk s g c = Some cc"
    and "pg_open ps s = Inr ()" "pg_next ps s g c = Inr (Some (DictionaryPage buf (of_nat (length es))))"
  shows "\<exists>spans. dict_page ps s g c who = Some (Inr (set_hash es, buf, spans)) \<and>
    page_entries (set_hash es, buf, spans) = es"
proof -
  have le: "length es \<le> length (concat (map plain_entry es))"
    by (induction es) (auto simp: plain_entry_def)
  then have u: "unat (of_nat (length es) :: u32) = length es"
    using assms(1,2) by (intro unat_of_nat_small) simp
  obtain spans where sp: "page_spans (who @ '': '' @ src_path s @ '': short dictionary'') buf (length es) 0 = Inr spans"
      "map (span_slice buf) spans = map Some es"
    using page_spans_plain[of buf "[]" es rest "who @ '': '' @ src_path s @ '': short dictionary''"] assms(1,2) by auto
  then have "those (map (span_slice buf) spans) = Some es"
    by (simp add: those_Some_iff)
  moreover have "page_entries (set_hash es, buf, spans) = es"
    using sp(2) by (simp add: page_entries_def map_eq_conv list_eq_iff_nth_eq)
  ultimately show ?thesis
    using assms(3-5) sp(1) u by (simp add: dict_page_def)
qed

definition ex_paged :: src where
  "ex_paged = \<lparr>src_path = ''a'', src_orig = ''a'',
     src_md = \<lparr>ft_schema = ([\<lparr>f_name = ''s'', f_type = Utf8, f_null = True, f_meta = []\<rparr>], []),
       ft_leaves = [\<lparr>ld_phys = P_BYTE_ARRAY, ld_max_def = 1, ld_max_rep = 0\<rparr>], ft_roots = [0],
       ft_rgs = [\<lparr>rg_num_rows = 2, rg_cols = [\<lparr>cm_dict_offset = Some 4, cm_compressed = 20, cm_uncompressed = 20,
         cm_stats = None\<rparr>]\<rparr>], ft_rows = 2\<rparr>,
     src_rg_rows = [2], src_leaf = [Some 0]\<rparr>"

definition ex_pages :: page_src where
  "ex_pages = \<lparr>pg_open = (\<lambda>s. Inr ()),
     pg_next = (\<lambda>s g c. Inr (Some (DictionaryPage [1, 0, 0, 0, 98, 0, 0, 0, 0] 2)))\<rparr>"

abbreviation ex_buf :: "u8 list" where
  "ex_buf \<equiv> [1, 0, 0, 0, 98, 0, 0, 0, 0]"

lemma ex_spans: "page_spans err ex_buf 2 0 = Inr [(4, 1), (9, 0)]"
proof -
  have "page_spans err ex_buf (Suc (Suc 0)) 0 = Inr [(4, 1), (9, 0)]"
    by simp
  then show ?thesis
    by (simp only: numeral_2_eq_2)
qed

lemma ex_slices: "span_slice ex_buf (4, 1) = Some [98]" "span_slice ex_buf (9, 0) = Some []"
  by (simp_all add: span_slice_def)

lemma ex_paged_page:
  "dict_page ex_pages ex_paged 0 0 [] = Some (Inr (set_hash [[98], []], ex_buf, [(4, 1), (9, 0)]))"
proof -
  have "chunk ex_paged 0 0 \<noteq> None"
    by (simp add: chunk_def ex_paged_def leaf_at_def)
  moreover have "pg_open ex_pages ex_paged = Inr ()" "pg_next ex_pages ex_paged 0 0 = Inr (Some (DictionaryPage ex_buf 2))"
    by (simp_all add: ex_pages_def)
  ultimately show ?thesis
    using ex_spans by (auto simp: dict_page_def ex_slices simp del: page_spans.simps)
qed

theorem dict_page_roundtrip_witness:
  "page_entries (set_hash [[98], []], ex_buf, [(4, 1), (9, 0)]) = [[98], []]"
proof -
  have four: "(4 :: nat) = Suc (Suc (Suc (Suc 0)))"
    by simp
  have buf: "ex_buf = concat (map plain_entry [[98], []]) @ []"
    unfolding plain_entry_def four by simp
  obtain cc where cc: "chunk ex_paged 0 0 = Some cc"
    by (simp add: chunk_def ex_paged_def leaf_at_def)
  have pg: "pg_open ex_pages ex_paged = Inr ()"
      "pg_next ex_pages ex_paged 0 0 = Inr (Some (DictionaryPage ex_buf (of_nat (length [[98], [] :: u8 list]))))"
    by (simp_all add: ex_pages_def)
  have len: "length ex_buf < 2 ^ 32"
    by simp
  show ?thesis
    using dict_page_roundtrip[OF len buf cc pg, of "[]"] unfolding ex_paged_page by auto
qed

text \<open>C33
  The shared dictionary is the union of the pages' entries, each value once, in the order it
  is first seen, closed under the null symbol exactly where a null may occur and the null
  symbol is missing. A page whose hash was seen is skipped, which loses nothing as long as
  equal hashes mean entries already seen.
\<close>

theorem codes_union_first_seen:
  assumes "codes_plan intern ps fs rgs c who = Inr (Some cd)"
    and "map (\<lambda>(f, g, _, _). dict_page ps (fs_srcs fs ! f) g c who) rgs = map (Some \<circ> Inr) bufs"
    and "hashes_faithful bufs"
  shows "cd_d cd = map intern (let ks = first_seen (concat (map page_entries bufs)) in
    if list_ex (\<lambda>r. may_null fs r c) rgs \<and> [] \<notin> set ks then ks @ [[]] else ks)"
proof -
  have out: "those (map (\<lambda>(f, g, _, _). dict_page ps (fs_srcs fs ! f) g c who) rgs) = Some (map Inr bufs)"
    unfolding assms(2) by (simp add: those_Some_iff)
  have len: "length (map Inr bufs) = length rgs"
    using arg_cong[OF assms(2), of length] by simp
  have start: "([], Map.empty) = union_of intern []"
    by (auto simp: union_of_def index_of_def)
  obtain un n where m: "merge_pages intern fs c (union_of intern [], False, {}) (zip rgs (map Inr bufs)) = Inr (Some (un, n))"
      and cd: "cd = close_union intern (un, n)"
    using assms(1) out by (auto simp: codes_plan_def result_simps start split: if_splits)
  define ks where "ks = first_seen (concat (map page_entries bufs))"
  have un: "un = union_of intern ks"
    using merge_pages_first_seen[OF m, of "[]"] len assms(3) by (simp add: ks_def first_seen_def)
  have n: "n = list_ex (\<lambda>r. may_null fs r c) rgs"
    using merge_pages_union[OF m len] by simp
  have "distinct ks"
    unfolding ks_def first_seen_def by (rule foldl_add_key_distinct) simp
  then have "plan_keys intern (if n then add_key ks [] else ks) cd"
    unfolding cd un by (rule close_union_keys)
  then show ?thesis
    unfolding plan_keys_def n ks_def[symmetric] Let_def by (simp add: add_key_def)
qed

definition ex_paged_set :: file_set where
  "ex_paged_set = \<lparr>fs_srcs = [ex_paged], fs_names = [''s''], fs_lts = [Inr KS]\<rparr>"

lemma ex_paged_dict: "all_dict ex_paged_set [(0, 0, 0, 2)] 0"
  by (simp add: all_dict_def chunk_dict_def chunk_def ex_paged_set_def ex_paged_def leaf_at_def)

lemma ex_paged_plan:
  "codes_plan number_intern ex_pages ex_paged_set [(0, 0, 0, 2)] 0 [] =
     Inr (Some (close_union number_intern (union_of number_intern [[98], []], True)))"
proof -
  have "may_null ex_paged_set (0, 0, 0, 2) 0"
    by (simp add: may_null_def ex_paged_set_def ex_paged_def chunk_def leaf_at_def)
  moreover have "foldl (merge_entry number_intern) ([], Map.empty) [[98], []] = union_of number_intern [[98], []]"
    using merge_entries_union[of number_intern "[]" "[[98], []]"]
    unfolding union_of_def by (simp add: add_key_def) (simp add: index_of_def[abs_def])
  moreover have "fs_srcs ex_paged_set ! 0 = ex_paged"
    by (simp add: ex_paged_set_def)
  ultimately show ?thesis
    by (simp add: codes_plan_def ex_paged_dict ex_paged_page ex_slices)
qed

theorem codes_union_first_seen_witness:
  "\<exists>cd. codes_plan number_intern ex_pages ex_paged_set [(0, 0, 0, 2)] 0 [] = Inr (Some cd) \<and>
     cd_d cd = [number_intern [98], number_intern []]"
proof -
  let ?b = "(set_hash [[98], []], ex_buf, [(4, 1), (9, 0)]) :: dict_buf"
  note cd = ex_paged_plan
  have h: "hashes_faithful [?b]"
    by (simp add: hashes_faithful_def)
  have "page_entries ?b = [[98], []]"
    by (simp add: page_entries_def ex_slices)
  then show ?thesis
    using codes_union_first_seen[OF cd _ h] cd
    by (simp add: ex_paged_set_def ex_paged_page first_seen_def add_key_def Let_def)
qed

text \<open>C9
  A batch written as codes either leaves its column alone and gives it up, exactly when one
  of its entries is outside the plan, or makes the pair read back, through \<open>D[C]\<close>, as the
  symbols of its rows, every other row of the column unchanged.
\<close>

theorem pair_reads_back:
  assumes "codes_plan intern ps fs rgs c who = Inr (Some cd)" "small_plan cd"
    and "payload_for (cd_lt cd) col" "dict_ok a" "deref (da_values a) = Inr sa"
    and "off + length (da_keys a) \<le> payload_len col" "luts_inv deref (\<lambda>_. cd) sy"
  shows "\<exists>col' sy' give. fill_codes deref a cd col off sy = Inr (col', sy', give) \<and>
    payload_len col' = payload_len col \<and>
    (give \<longleftrightarrow> (\<exists>v \<in> set sa. cd_ix cd (case v of None \<Rightarrow> [] | Some b \<Rightarrow> b) = None)) \<and>
    (if give then col' = col
     else \<forall>j < payload_len col.
       if off \<le> j \<and> j < off + length (da_keys a)
       then sym_at intern (cd_d cd) (code_vec col' ! j) = sym_of intern (dict_row sa a (j - off))
       else code_vec col' ! j = code_vec col ! j)"
proof -
  obtain ks where ks: "plan_keys intern ks cd"
    using codes_plan_keys[OF assms(1)] by blast
  obtain t sy1 where t: "sc_lut deref (da_values a) cd sy = Inr (t, sy1)"
    by (cases "mru_find (da_values a) (sc_luts sy)") (auto simp: sc_lut_def assms(5) Let_def)
  obtain col' sy' give where run: "fill_codes deref a cd col off sy = Inr (col', sy', give)"
    by (cases t) (auto simp: fill_codes_def t)
  note r = fill_codes_rows[where plan_of = "\<lambda>_. cd", OF ks assms(2-7) run]
  have "give \<longleftrightarrow> (\<exists>v \<in> set sa. cd_ix cd (case v of None \<Rightarrow> [] | Some b \<Rightarrow> b) = None)"
    using r(2) by (simp add: lut_ids_def those_None_iff image_iff eq_commute[of None])
  then show ?thesis
    using run r(3-5) by auto
qed

theorem pair_reads_back_witness:
  "\<exists>cd col' sy' give. codes_plan number_intern ex_pages ex_paged_set [(0, 0, 0, 2)] 0 [] = Inr (Some cd) \<and>
     fill_codes (\<lambda>_. Inr [Some [98]]) \<lparr>da_keys = [0, 7], da_nulls = None, da_values = 0\<rparr> cd (Pay8 [9, 9]) 0 sc_new
       = Inr (col', sy', give) \<and> payload_len col' = 2"
proof -
  let ?a = "\<lparr>da_keys = [0, 7], da_nulls = None, da_values = 0\<rparr>"
  define cd where "cd = close_union number_intern (union_of number_intern [[98], []], True)"
  have "small_plan cd" "payload_for (cd_lt cd) (Pay8 [9, 9])"
    by (simp_all add: cd_def small_plan_def close_union_def union_of_def index_of_def payload_for_def codes_width_def)
  note cd = ex_paged_plan[folded cd_def] this
  have "luts_inv (\<lambda>_. Inr [Some [98]]) (\<lambda>_. cd) sc_new"
    by (simp add: luts_inv_def sc_new_def DICTS_def)
  from pair_reads_back[OF cd, of ?a, OF _ _ _ this] show ?thesis
    using cd(1) by (fastforce simp: dict_ok_def)
qed

end
