(* ===== verification/Claim.thy ===== *)
theory Claim
  imports Prelude
begin

text \<open>
  Work claimed from a shared cursor, the loop every parallel phase of the library runs:
  \<^verbatim>\<open>par_map\<close> in \<^verbatim>\<open>src/src/pool.rs\<close> and
  \<^verbatim>\<open>decode\<close> in \<^verbatim>\<open>src/src/read.rs\<close>. Workers interleave freely;
  one step is one claim (\<^verbatim>\<open>fetch_add\<close>) or one finished item. The locale
  \<open>claimed_work\<close> is what an item's body must satisfy for the shared result to be complete.
\<close>

section \<open>The machine\<close>

datatype 'l worker = Idle 'l | Busy nat 'l | Gone

record ('l, 's) pool_state =
  ps_next :: nat
  ps_stop :: bool
  ps_err :: "string option"
  ps_panic :: bool
  ps_shared :: 's
  ps_workers :: "'l worker list"

text \<open>
  A body answers its new local and shared state, an error, or None for a panic. After an
  error or a panic nothing is assumed of the shared state. The stop flag is read before the
  cursor and not together with it, so a claim may still follow the flag.
\<close>

type_synonym ('l, 's) body = "nat \<Rightarrow> 'l \<Rightarrow> 's \<Rightarrow> ('l \<times> 's) result option"

inductive claim_step :: "nat \<Rightarrow> ('l, 's) body \<Rightarrow> ('l, 's) pool_state \<Rightarrow> ('l, 's) pool_state \<Rightarrow> bool"
  for n :: nat and exec :: "('l, 's) body" where
  claim: "w < length (ps_workers t) \<Longrightarrow> ps_workers t ! w = Idle l \<Longrightarrow> ps_next t < n \<Longrightarrow>
    claim_step n exec t (t\<lparr>ps_next := ps_next t + 1, ps_workers := (ps_workers t)[w := Busy (ps_next t) l]\<rparr>)"
| exhausted: "w < length (ps_workers t) \<Longrightarrow> ps_workers t ! w = Idle l \<Longrightarrow> n \<le> ps_next t \<Longrightarrow>
    claim_step n exec t (t\<lparr>ps_next := ps_next t + 1, ps_workers := (ps_workers t)[w := Gone]\<rparr>)"
| stopped: "w < length (ps_workers t) \<Longrightarrow> ps_workers t ! w = Idle l \<Longrightarrow> ps_stop t \<Longrightarrow>
    claim_step n exec t (t\<lparr>ps_workers := (ps_workers t)[w := Gone]\<rparr>)"
| finish: "w < length (ps_workers t) \<Longrightarrow> ps_workers t ! w = Busy i l \<Longrightarrow>
    exec i l (ps_shared t) = Some (Inr (l', s')) \<Longrightarrow>
    claim_step n exec t (t\<lparr>ps_shared := s', ps_workers := (ps_workers t)[w := Idle l']\<rparr>)"
| fail: "w < length (ps_workers t) \<Longrightarrow> ps_workers t ! w = Busy i l \<Longrightarrow>
    exec i l (ps_shared t) = Some (Inl e) \<Longrightarrow>
    claim_step n exec t (t\<lparr>ps_stop := True, ps_shared := s',
      ps_err := (case ps_err t of None \<Rightarrow> Some e | Some e0 \<Rightarrow> Some e0),
      ps_workers := (ps_workers t)[w := Gone]\<rparr>)"
| panic: "w < length (ps_workers t) \<Longrightarrow> ps_workers t ! w = Busy i l \<Longrightarrow>
    exec i l (ps_shared t) = None \<Longrightarrow>
    claim_step n exec t (t\<lparr>ps_panic := True, ps_shared := s', ps_workers := (ps_workers t)[w := Gone]\<rparr>)"

inductive_cases claim_stepE: "claim_step n exec t t'"

definition pool_start :: "'l list \<Rightarrow> 's \<Rightarrow> ('l, 's) pool_state" where
  "pool_start ls s = \<lparr>ps_next = 0, ps_stop = False, ps_err = None, ps_panic = False,
     ps_shared = s, ps_workers = map Idle ls\<rparr>"

definition pool_done :: "('l, 's) pool_state \<Rightarrow> bool" where
  "pool_done t \<longleftrightarrow> (\<forall>w \<in> set (ps_workers t). w = Gone)"

inductive pool_reach :: "nat \<Rightarrow> ('l, 's) body \<Rightarrow> 'l list \<Rightarrow> 's \<Rightarrow> ('l, 's) pool_state \<Rightarrow> bool"
  for n :: nat and exec :: "('l, 's) body" and ls :: "'l list" and s :: 's where
  start: "pool_reach n exec ls s (pool_start ls s)"
| step: "pool_reach n exec ls s t \<Longrightarrow> claim_step n exec t t' \<Longrightarrow> pool_reach n exec ls s t'"

section \<open>Termination and progress\<close>

primrec worker_weight :: "'l worker \<Rightarrow> nat" where
  "worker_weight (Idle l) = 1"
| "worker_weight (Busy i l) = 2"
| "worker_weight Gone = 0"

definition pool_weight :: "nat \<Rightarrow> ('l, 's) pool_state \<Rightarrow> nat" where
  "pool_weight n t = 2 * (n - ps_next t) + sum_list (map worker_weight (ps_workers t))"

lemma sum_list_update:
  "w < length xs \<Longrightarrow> sum_list (map f (xs[w := x])) + f (xs ! w) = sum_list (map f xs) + (f x :: nat)"
proof (induction xs arbitrary: w)
  case (Cons y ys)
  then show ?case by (cases w) auto
qed simp

lemma weight_down:
  "w < length ws \<Longrightarrow> worker_weight x < worker_weight (ws ! w) \<Longrightarrow>
     sum_list (map worker_weight (ws[w := x])) < sum_list (map worker_weight ws)"
  using sum_list_update[of w ws worker_weight x] by linarith

lemma weight_claim:
  "w < length ws \<Longrightarrow> ws ! w = Idle l \<Longrightarrow>
     sum_list (map worker_weight (ws[w := Busy i l'])) = sum_list (map worker_weight ws) + 1"
  using sum_list_update[of w ws worker_weight "Busy i l'"] by simp

lemma claim_step_weight: "claim_step n exec t t' \<Longrightarrow> pool_weight n t' < pool_weight n t"
proof (induction rule: claim_step.induct)
  case (claim w t l)
  then show ?case
    using weight_claim[OF claim(1,2), of "ps_next t" l] by (simp add: pool_weight_def)
next
  case (exhausted w t l)
  then show ?case
    using weight_down[OF exhausted(1), of Gone] by (simp add: pool_weight_def)
next
  case (stopped w t l)
  then show ?case
    using weight_down[OF stopped(1), of Gone] by (simp add: pool_weight_def)
next
  case (finish w t i l l' s')
  then show ?case
    using weight_down[OF finish(1), of "Idle l'"] by (simp add: pool_weight_def)
next
  case (fail w t i l e s')
  then show ?case
    using weight_down[OF fail(1), of Gone] by (simp add: pool_weight_def)
next
  case (panic w t i l s')
  then show ?case
    using weight_down[OF panic(1), of Gone] by (simp add: pool_weight_def)
qed

lemma claim_progress:
  assumes "\<not> pool_done t"
  shows "\<exists>t'. claim_step n exec t t'"
proof -
  from assms obtain w where w: "w < length (ps_workers t)" "ps_workers t ! w \<noteq> Gone"
    by (auto simp: pool_done_def in_set_conv_nth)
  show ?thesis
  proof (cases "ps_workers t ! w")
    case (Idle l)
    then show ?thesis
      using w by (cases "ps_next t < n") (blast intro: claim_step.claim claim_step.exhausted[OF _ _ leI])+
  next
    case (Busy i l)
    show ?thesis
    proof (cases "exec i l (ps_shared t)")
      case None
      then show ?thesis using w Busy by (blast intro: claim_step.panic)
    next
      case (Some r)
      then show ?thesis
        using w Busy by (cases r) (auto intro: claim_step.fail claim_step.finish)
    qed
  next
    case Gone
    with w show ?thesis by simp
  qed
qed

section \<open>Where an error comes from\<close>

lemma busy_bound:
  "pool_reach n exec ls s t \<Longrightarrow> \<forall>w < length (ps_workers t). \<forall>i l. ps_workers t ! w = Busy i l \<longrightarrow> i < n"
proof (induction rule: pool_reach.induct)
  case start
  then show ?case by (simp add: pool_start_def)
next
  case (step t t')
  from step(2) step(3) show ?case
    by cases (auto simp: nth_list_update split: if_splits)
qed

lemma failure_cause:
  assumes "pool_reach n exec ls s t"
  shows "(ps_panic t \<longrightarrow> (\<exists>i < n. \<exists>l s. exec i l s = None)) \<and>
    (\<forall>e. ps_err t = Some e \<longrightarrow> (\<exists>i < n. \<exists>l s. exec i l s = Some (Inl e)))"
  using assms
proof (induction rule: pool_reach.induct)
  case start
  then show ?case by (simp add: pool_start_def)
next
  case (step t t')
  note bound = busy_bound[OF step(1)]
  from step(2) show ?case
  proof cases
    case (fail w i l e s')
    moreover from this have "i < n"
      using bound by blast
    ultimately show ?thesis
      using step.IH by (auto split: option.splits)
  next
    case (panic w i l s')
    moreover from this have "i < n"
      using bound by blast
    ultimately show ?thesis
      using step.IH by auto
  qed (use step.IH in auto)
qed

section \<open>What a finished run has done\<close>

text \<open>
  The invariant of a run without an error: every index below the cursor is either with
  exactly one worker or done, and what is done stays done.
\<close>

locale claimed_work =
  fixes n :: nat
    and exec :: "('l, 's) body"
    and good :: "'l \<Rightarrow> bool"
    and ok :: "'s \<Rightarrow> bool"
    and post :: "nat \<Rightarrow> 's \<Rightarrow> bool"
  assumes exec_ok: "i < n \<Longrightarrow> good l \<Longrightarrow> ok s \<Longrightarrow> exec i l s = Some (Inr (l', s')) \<Longrightarrow>
      good l' \<and> ok s' \<and> post i s'"
    and exec_stable: "i < n \<Longrightarrow> j < n \<Longrightarrow> i \<noteq> j \<Longrightarrow> good l \<Longrightarrow> ok s \<Longrightarrow>
      exec i l s = Some (Inr (l', s')) \<Longrightarrow> post j s \<Longrightarrow> post j s'"
begin

definition busy_at :: "'l worker list \<Rightarrow> nat \<Rightarrow> bool" where
  "busy_at ws i \<longleftrightarrow> (\<exists>w < length ws. \<exists>l. ws ! w = Busy i l)"

definition workers_inv :: "nat \<Rightarrow> 'l worker list \<Rightarrow> bool" where
  "workers_inv k ws \<longleftrightarrow>
     (\<forall>w < length ws. \<forall>l. ws ! w = Idle l \<longrightarrow> good l) \<and>
     (\<forall>w < length ws. \<forall>i l. ws ! w = Busy i l \<longrightarrow> good l \<and> i < n \<and> i < k) \<and>
     (\<forall>w < length ws. \<forall>v < length ws. \<forall>i l l'. ws ! w = Busy i l \<longrightarrow> ws ! v = Busy i l' \<longrightarrow> w = v) \<and>
     ((\<exists>w < length ws. ws ! w = Gone) \<longrightarrow> n \<le> k)"

definition run_inv :: "('l, 's) pool_state \<Rightarrow> bool" where
  "run_inv t \<longleftrightarrow> ps_err t \<noteq> None \<or> ps_panic t \<or>
     (\<not> ps_stop t \<and> ok (ps_shared t) \<and> workers_inv (ps_next t) (ps_workers t) \<and>
      (\<forall>i < n. i < ps_next t \<longrightarrow> busy_at (ps_workers t) i \<or> post i (ps_shared t)))"

lemma busy_update:
  "w < length ws \<Longrightarrow> busy_at (ws[w := x]) i \<longleftrightarrow>
     (\<exists>l. x = Busy i l) \<or> (\<exists>v < length ws. v \<noteq> w \<and> (\<exists>l. ws ! v = Busy i l))"
  by (auto simp: busy_at_def nth_list_update)

lemma workers_claim:
  "workers_inv k ws \<Longrightarrow> w < length ws \<Longrightarrow> ws ! w = Idle l \<Longrightarrow> k < n \<Longrightarrow>
     workers_inv (k + 1) (ws[w := Busy k l])"
  unfolding workers_inv_def by (auto simp: nth_list_update less_Suc_eq split: if_splits)

lemma workers_idle:
  "workers_inv k ws \<Longrightarrow> w < length ws \<Longrightarrow> good l' \<Longrightarrow> workers_inv k (ws[w := Idle l'])"
  unfolding workers_inv_def by (auto simp: nth_list_update split: if_splits)

lemma workers_gone:
  "workers_inv k ws \<Longrightarrow> w < length ws \<Longrightarrow> n \<le> k \<Longrightarrow> workers_inv (k + 1) (ws[w := Gone])"
  unfolding workers_inv_def by (auto simp: nth_list_update less_Suc_eq split: if_splits)

lemma busy_elsewhere:
  "busy_at ws j \<Longrightarrow> w < length ws \<Longrightarrow> \<forall>l. ws ! w \<noteq> Busy j l \<Longrightarrow> busy_at (ws[w := x]) j"
  by (auto simp: busy_update) (auto simp: busy_at_def)

lemma run_inv_step:
  assumes "claim_step n exec t t'" "run_inv t"
  shows "run_inv t'"
proof (cases "ps_err t \<noteq> None \<or> ps_panic t")
  case True
  with assms(1) show ?thesis
    by (auto simp: run_inv_def elim!: claim_stepE)
next
  case False
  with assms(2) have inv: "\<not> ps_stop t" "ok (ps_shared t)" "workers_inv (ps_next t) (ps_workers t)"
      "\<And>i. i < n \<Longrightarrow> i < ps_next t \<Longrightarrow> busy_at (ps_workers t) i \<or> post i (ps_shared t)"
    by (auto simp: run_inv_def)
  from assms(1) show ?thesis
  proof cases
    case (claim w l)
    have "busy_at ((ps_workers t)[w := Busy (ps_next t) l]) i \<or> post i (ps_shared t)"
      if "i < n" "i < Suc (ps_next t)" for i
      using that inv(4)[of i] busy_elsewhere[of "ps_workers t" i w] claim
      by (cases "i = ps_next t") (auto simp: busy_update)
    then show ?thesis
      using claim inv workers_claim[OF inv(3) claim(2,3,4)] by (auto simp: run_inv_def)
  next
    case (exhausted w l)
    have "busy_at ((ps_workers t)[w := Gone]) i \<or> post i (ps_shared t)" if "i < n" for i
      using that inv(4)[of i] busy_elsewhere[of "ps_workers t" i w] exhausted by auto
    then show ?thesis
      using exhausted inv workers_gone[OF inv(3) exhausted(2,4)] by (auto simp: run_inv_def)
  next
    case (stopped w l)
    with inv show ?thesis by simp
  next
    case (finish w i l l' s')
    have i: "good l" "i < n" "i < ps_next t"
      using inv(3) finish by (auto simp: workers_inv_def)
    note done_i = exec_ok[OF i(2,1) inv(2) finish(4)]
    have "busy_at ((ps_workers t)[w := Idle l']) j \<or> post j s'" if j: "j < n" "j < ps_next t" for j
    proof (cases "j = i")
      case True
      then show ?thesis using done_i by simp
    next
      case False
      then show ?thesis
        using inv(4)[OF j] busy_elsewhere[of "ps_workers t" j w] finish
          exec_stable[OF i(2) j(1) _ i(1) inv(2) finish(4)] by auto
    qed
    then show ?thesis
      using finish inv done_i workers_idle[OF inv(3) finish(2)] by (auto simp: run_inv_def)
  next
    case (fail w i l e s')
    then show ?thesis by (simp add: run_inv_def split: option.splits)
  next
    case (panic w i l s')
    then show ?thesis by (simp add: run_inv_def)
  qed
qed

lemma run_inv_start: "\<forall>l \<in> set ls. good l \<Longrightarrow> ok s \<Longrightarrow> run_inv (pool_start ls s)"
  by (auto simp: run_inv_def pool_start_def workers_inv_def)

lemma run_inv_reach:
  "pool_reach n exec ls s t \<Longrightarrow> \<forall>l \<in> set ls. good l \<Longrightarrow> ok s \<Longrightarrow> run_inv t"
  by (induction rule: pool_reach.induct) (auto intro: run_inv_start run_inv_step)

lemma pool_workers_length: "pool_reach n exec ls s t \<Longrightarrow> length (ps_workers t) = length ls"
  by (induction rule: pool_reach.induct) (auto simp: pool_start_def elim!: claim_stepE)

text \<open>A run of at least one worker that ends without an error has finished every item.\<close>

lemma run_complete:
  assumes run: "pool_reach n exec ls s t" and fin: "pool_done t" and ls: "ls \<noteq> []"
    and g: "\<forall>l \<in> set ls. good l" "ok s" and fine: "ps_err t = None" "\<not> ps_panic t"
  shows "ok (ps_shared t) \<and> (\<forall>i < n. post i (ps_shared t))"
proof -
  have gone: "\<forall>w < length (ps_workers t). ps_workers t ! w = Gone"
    using fin by (simp add: pool_done_def)
  have inv: "ok (ps_shared t)" "workers_inv (ps_next t) (ps_workers t)"
    "\<And>i. i < n \<Longrightarrow> i < ps_next t \<Longrightarrow> busy_at (ps_workers t) i \<or> post i (ps_shared t)"
    using run_inv_reach[OF run g] fine by (auto simp: run_inv_def)
  have "0 < length (ps_workers t)"
    using pool_workers_length[OF run] ls by simp
  with gone inv(2) have "n \<le> ps_next t"
    by (auto simp: workers_inv_def)
  with inv gone show ?thesis
    by (fastforce simp: busy_at_def)
qed

end

end
