(* ===== verification/Pool.thy ===== *)
theory Pool
  imports Claim
begin

text \<open>
  \<^verbatim>\<open>src/src/pool.rs\<close>: the parked worker threads and the dispatch of one borrowed
  job to them (\<^verbatim>\<open>serve\<close>, \<^verbatim>\<open>run\<close>), and \<^verbatim>\<open>par_map\<close>
  on top. A dispatch is a step relation on what the pool's mutex guards; the order in which
  threads wake and finish is open.
\<close>

section \<open>Which threads run a call\<close>

text \<open>
  \<^verbatim>\<open>run\<close> uses the parked workers when this process made them, enough of them have
  started and no other call holds them; otherwise it starts fresh threads for the one call.
\<close>

datatype run_path = RunHere | RunPooled nat | RunFresh

definition run_path :: "nat \<Rightarrow> bool \<Rightarrow> nat \<Rightarrow> bool \<Rightarrow> nat \<Rightarrow> run_path" where
  "run_path n same_pid ready busy sz =
    (if n = 0 then RunHere else if same_pid \<and> n \<le> ready \<and> \<not> busy then RunPooled (min n sz) else RunFresh)"

text \<open>
  The fallback: \<open>can_spawn i\<close> tells whether thread \<open>i\<close> starts and \<open>dies i\<close> whether its run of the
  job panics; \<open>me\<close> is what the calling thread's own work answers. None unwinds.
\<close>

definition spawned :: "nat \<Rightarrow> (nat \<Rightarrow> bool) \<Rightarrow> (nat \<Rightarrow> bool) \<Rightarrow> 'r option \<Rightarrow> ('r \<times> bool) option" where
  "spawned n can_spawn dies me =
    (if list_all can_spawn [0..<n] then map_option (\<lambda>v. (v, list_ex dies [0..<n])) me else None)"

section \<open>Dispatch\<close>

datatype caller = Outside | InMe | Waiting

datatype builder = NotBuilt | Building | Built

record dispatch =
  dp_job :: bool              \<comment> \<open>\<^verbatim>\<open>job.is_some()\<close>\<close>
  dp_gen :: nat
  dp_want :: nat
  dp_left :: nat
  dp_panics :: nat
  dp_builder :: builder
  dp_spawned :: nat           \<comment> \<open>threads the builder has made\<close>
  dp_ready :: nat
  dp_up :: "bool list"        \<comment> \<open>has the thread started\<close>
  dp_seen :: "nat list"       \<comment> \<open>each worker's \<^verbatim>\<open>seen\<close>\<close>
  dp_running :: "bool list"   \<comment> \<open>is it inside the job\<close>
  dp_runs :: "nat list"       \<comment> \<open>how often it ran this dispatch's job\<close>
  dp_died :: "bool list"      \<comment> \<open>did it panic in this dispatch's job\<close>
  dp_caller :: caller

definition pool_build :: "nat \<Rightarrow> dispatch" where
  "pool_build n = \<lparr>dp_job = False, dp_gen = 0, dp_want = 0, dp_left = 0, dp_panics = 0,
     dp_builder = NotBuilt, dp_spawned = 0, dp_ready = 0, dp_up = replicate n False,
     dp_seen = replicate n 0, dp_running = replicate n False, dp_runs = replicate n 0,
     dp_died = replicate n False, dp_caller = Outside\<rparr>"

text \<open>
  The builder makes the threads in the order of their numbers, and stops at the first it
  cannot make; they start in any order.
\<close>

inductive dispatch_step :: "dispatch \<Rightarrow> dispatch \<Rightarrow> bool" where
  warm: "dp_builder p = NotBuilt \<Longrightarrow> dispatch_step p (p\<lparr>dp_builder := if made then Building else Built\<rparr>)"
| spawn: "dp_builder p = Building \<Longrightarrow> dp_spawned p < length (dp_seen p) \<Longrightarrow>
    dispatch_step p (p\<lparr>dp_spawned := dp_spawned p + 1\<rparr>)"
| stop: "dp_builder p = Building \<Longrightarrow> dispatch_step p (p\<lparr>dp_builder := Built\<rparr>)"
| up: "w < dp_spawned p \<Longrightarrow> \<not> dp_up p ! w \<Longrightarrow>
    dispatch_step p (p\<lparr>dp_up := (dp_up p)[w := True], dp_ready := dp_ready p + 1\<rparr>)"
| run: "dp_caller p = Outside \<Longrightarrow> run_path n True (dp_ready p) False (length (dp_seen p)) = RunPooled k \<Longrightarrow>
    dispatch_step p (p\<lparr>dp_job := True, dp_want := k, dp_left := k, dp_panics := 0,
      dp_gen := dp_gen p + 1, dp_runs := replicate (length (dp_seen p)) 0,
      dp_died := replicate (length (dp_seen p)) False, dp_caller := InMe\<rparr>)"
| me_done: "dp_caller p = InMe \<Longrightarrow> dispatch_step p (p\<lparr>dp_caller := Waiting\<rparr>)"
| wake: "w < length (dp_seen p) \<Longrightarrow> dp_up p ! w \<Longrightarrow> \<not> dp_running p ! w \<Longrightarrow> dp_seen p ! w \<noteq> dp_gen p \<Longrightarrow>
    dispatch_step p (p\<lparr>dp_seen := (dp_seen p)[w := dp_gen p],
      dp_running := (dp_running p)[w := (w < dp_want p \<and> dp_job p)]\<rparr>)"
| finish: "w < length (dp_seen p) \<Longrightarrow> dp_running p ! w \<Longrightarrow>
    dispatch_step p (p\<lparr>dp_running := (dp_running p)[w := False], dp_left := dp_left p - 1,
      dp_panics := dp_panics p + of_bool died, dp_runs := (dp_runs p)[w := dp_runs p ! w + 1],
      dp_died := (dp_died p)[w := died]\<rparr>)"
| return: "dp_caller p = Waiting \<Longrightarrow> dp_left p = 0 \<Longrightarrow>
    dispatch_step p (p\<lparr>dp_job := False, dp_caller := Outside\<rparr>)"

inductive_cases dispatch_stepE: "dispatch_step p p'"

inductive dispatch_reach :: "nat \<Rightarrow> dispatch \<Rightarrow> bool" for n :: nat where
  start: "dispatch_reach n (pool_build n)"
| step: "dispatch_reach n p \<Longrightarrow> dispatch_step p p' \<Longrightarrow> dispatch_reach n p'"

text \<open>What \<^verbatim>\<open>run\<close> answers when it returns through the pool.\<close>

definition pooled_answer :: "dispatch \<Rightarrow> 'r option \<Rightarrow> ('r \<times> bool) option" where
  "pooled_answer p me = map_option (\<lambda>v. (v, 0 < dp_panics p)) me"

text \<open>The wanted workers that have still to finish the current job.\<close>

definition owing :: "dispatch \<Rightarrow> nat set" where
  "owing p = {w. w < dp_want p \<and> (dp_running p ! w \<or> dp_seen p ! w \<noteq> dp_gen p)}"

definition ups :: "dispatch \<Rightarrow> nat set" where
  "ups p = {w. w < length (dp_up p) \<and> dp_up p ! w}"

definition dead :: "dispatch \<Rightarrow> nat set" where
  "dead p = {w. w < dp_want p \<and> dp_died p ! w}"

definition threads_inv :: "nat \<Rightarrow> dispatch \<Rightarrow> bool" where
  "threads_inv n p \<longleftrightarrow> length (dp_up p) = n \<and> dp_spawned p \<le> n \<and> dp_ready p = card (ups p) \<and>
     (\<forall>w < n. dp_up p ! w \<longrightarrow> w < dp_spawned p) \<and> (\<forall>w < n. \<not> dp_up p ! w \<longrightarrow> dp_seen p ! w = 0)"

definition dispatch_inv :: "nat \<Rightarrow> dispatch \<Rightarrow> bool" where
  "dispatch_inv n p \<longleftrightarrow>
     length (dp_seen p) = n \<and> length (dp_running p) = n \<and> length (dp_runs p) = n \<and> length (dp_died p) = n \<and>
     dp_want p \<le> n \<and> dp_want p \<le> dp_spawned p \<and>
     (dp_job p \<longleftrightarrow> dp_caller p \<noteq> Outside) \<and>
     (\<forall>w < n. dp_seen p ! w \<le> dp_gen p) \<and>
     (\<forall>w < n. dp_running p ! w \<longrightarrow> dp_job p \<and> dp_seen p ! w = dp_gen p \<and> w < dp_want p) \<and>
     (dp_job p \<longrightarrow> 0 < dp_gen p \<and> dp_left p = card (owing p) \<and> dp_panics p = card (dead p) \<and>
        (\<forall>w < dp_want p. dp_runs p ! w = (if w \<in> owing p then 0 else 1)) \<and>
        (\<forall>w \<in> owing p. \<not> dp_died p ! w))"

lemma finite_owing [simp]: "finite (owing p)" "finite (ups p)" "finite (dead p)"
  by (simp_all add: owing_def ups_def dead_def)

lemma run_path_pooled:
  "run_path n pid ready busy sz = RunPooled k \<longleftrightarrow> 0 < n \<and> pid \<and> n \<le> ready \<and> \<not> busy \<and> k = min n sz"
  by (auto simp: run_path_def)

lemma invs_start: "threads_inv n (pool_build n)" "dispatch_inv n (pool_build n)"
  by (auto simp: threads_inv_def dispatch_inv_def pool_build_def ups_def)

text \<open>Threads start once each, so as many are ready as have started, and all were made.\<close>

lemma threads_inv_step:
  assumes "dispatch_step p p'" "threads_inv n p" "length (dp_seen p) = n"
  shows "threads_inv n p'"
  using assms
proof (induction rule: dispatch_step.induct)
  case (up w p)
  have w: "w < n"
    using up by (simp add: threads_inv_def)
  have "ups (p\<lparr>dp_up := (dp_up p)[w := True], dp_ready := dp_ready p + 1\<rparr>) = insert w (ups p)"
    using up w by (auto simp: ups_def threads_inv_def nth_list_update)
  moreover have "w \<notin> ups p"
    using up by (simp add: ups_def)
  ultimately show ?case
    using up w by (auto simp: threads_inv_def nth_list_update)
next
  case (wake w p)
  then show ?case
    by (auto simp: threads_inv_def ups_def nth_list_update)
qed (auto simp: threads_inv_def ups_def)

lemma ready_spawned: "threads_inv n p \<Longrightarrow> dp_ready p \<le> dp_spawned p"
proof -
  assume inv: "threads_inv n p"
  then have "ups p \<subseteq> {..<dp_spawned p}"
    by (auto simp: threads_inv_def ups_def)
  then have "card (ups p) \<le> dp_spawned p"
    using card_mono[of "{..<dp_spawned p}"] by fastforce
  with inv show ?thesis
    by (simp add: threads_inv_def)
qed

lemma dispatch_inv_step:
  assumes "dispatch_step p p'" "dispatch_inv n p" "threads_inv n p"
  shows "dispatch_inv n p'"
  using assms
proof (induction rule: dispatch_step.induct)
  case (run p m k)
  let ?p = "p\<lparr>dp_job := True, dp_want := k, dp_left := k, dp_panics := 0, dp_gen := dp_gen p + 1,
      dp_runs := replicate (length (dp_seen p)) 0, dp_died := replicate (length (dp_seen p)) False, dp_caller := InMe\<rparr>"
  have k: "k \<le> n" "k \<le> dp_spawned p"
    using run ready_spawned[of n p] by (auto simp: run_path_pooled dispatch_inv_def)
  have "dp_seen p ! w \<noteq> dp_gen p + 1" if "w < k" for w
  proof -
    have "dp_seen p ! w \<le> dp_gen p"
      using run k that by (simp add: dispatch_inv_def)
    then show ?thesis by simp
  qed
  then have "owing ?p = {..<k}"
    by (auto simp: owing_def)
  moreover have "dead ?p = {}"
    using run k by (auto simp: dead_def dispatch_inv_def)
  ultimately show ?case
    using run k by (auto simp: dispatch_inv_def le_Suc_eq)
next
  case (wake w p)
  have "owing (p\<lparr>dp_seen := (dp_seen p)[w := dp_gen p],
      dp_running := (dp_running p)[w := (w < dp_want p \<and> dp_job p)]\<rparr>) = owing p" if "dp_job p"
    using wake that by (auto simp: owing_def dispatch_inv_def nth_list_update)
  then show ?case
    using wake by (auto simp: dispatch_inv_def dead_def nth_list_update)
next
  case (finish w p died)
  let ?p = "p\<lparr>dp_running := (dp_running p)[w := False], dp_left := dp_left p - 1,
      dp_panics := dp_panics p + of_bool died, dp_runs := (dp_runs p)[w := dp_runs p ! w + 1],
      dp_died := (dp_died p)[w := died]\<rparr>"
  have w: "w \<in> owing p" "dp_job p" "w < dp_want p" "\<not> dp_died p ! w" "w \<notin> dead p"
    using finish by (auto simp: owing_def dead_def dispatch_inv_def)
  have "owing ?p = owing p - {w}"
    using finish by (auto simp: owing_def dispatch_inv_def nth_list_update)
  moreover have "dead ?p = (if died then insert w (dead p) else dead p)"
    using finish w by (auto simp: dead_def dispatch_inv_def nth_list_update)
  ultimately show ?case
    using finish w by (auto simp: dispatch_inv_def nth_list_update)
next
  case (return p)
  then have "owing p = {}"
    by (auto simp: dispatch_inv_def)
  then have "\<forall>w < dp_want p. \<not> dp_running p ! w"
    by (auto simp: owing_def)
  with return show ?case
    by (auto simp: dispatch_inv_def)
qed (auto simp: dispatch_inv_def owing_def dead_def)

lemma dispatch_reach_inv: "dispatch_reach n p \<Longrightarrow> dispatch_inv n p \<and> threads_inv n p"
proof (induction rule: dispatch_reach.induct)
  case start
  show ?case
    using invs_start by blast
next
  case (step p p')
  then have inv: "dispatch_inv n p" "threads_inv n p"
    by blast+
  then have len: "length (dp_seen p) = n"
    by (simp add: dispatch_inv_def)
  show ?case
    using dispatch_inv_step[OF step.hyps(2) inv] threads_inv_step[OF step.hyps(2) inv(2) len] by blast
qed

text \<open>
  The borrowed job never outlives the call that lent it: while a worker is inside it, the
  caller is still in \<^verbatim>\<open>run\<close>, and \<^verbatim>\<open>run\<close> only returns once every
  wanted worker has run it exactly once.
\<close>

lemma job_borrow:
  assumes "dispatch_reach n p" "w < n" "dp_running p ! w"
  shows "dp_caller p \<noteq> Outside \<and> dp_job p \<and> 0 < dp_left p"
proof -
  have inv: "dispatch_inv n p"
    using assms(1) dispatch_reach_inv by blast
  then have "w \<in> owing p" "dp_job p"
    using assms by (auto simp: dispatch_inv_def owing_def)
  with inv show ?thesis
    by (auto simp: dispatch_inv_def card_gt_0_iff)
qed

lemma run_returns:
  assumes "dispatch_reach n p" "dp_caller p = Waiting" "dp_left p = 0"
  shows "(\<forall>w < n. \<not> dp_running p ! w) \<and> (\<forall>w < dp_want p. dp_runs p ! w = 1) \<and>
    (0 < dp_panics p \<longleftrightarrow> (\<exists>w < dp_want p. dp_died p ! w))"
proof -
  have inv: "dispatch_inv n p"
    using assms(1) dispatch_reach_inv by blast
  with assms have "owing p = {}"
    by (auto simp: dispatch_inv_def)
  moreover have "0 < dp_panics p \<longleftrightarrow> dead p \<noteq> {}"
    using inv assms(2) by (auto simp: dispatch_inv_def card_gt_0_iff)
  ultimately show ?thesis
    using inv assms(2) by (auto simp: dispatch_inv_def owing_def dead_def)
qed

text \<open>
  No lost wakeup: a waiting caller whose job is not finished has a worker that can move. A
  worker that was made before the call and starts only now still takes its part.
\<close>

lemma run_progress:
  assumes "dispatch_reach n p" "dp_caller p = Waiting"
  shows "\<exists>p'. dispatch_step p p'"
proof (cases "dp_left p = 0")
  case True
  with assms(2) show ?thesis by (blast intro: dispatch_step.return)
next
  case False
  have inv: "dispatch_inv n p" "threads_inv n p"
    using assms(1) dispatch_reach_inv by blast+
  with False assms(2) have "owing p \<noteq> {}"
    by (auto simp: dispatch_inv_def)
  then obtain w where w: "w < dp_want p" "dp_running p ! w \<or> dp_seen p ! w \<noteq> dp_gen p"
    by (auto simp: owing_def)
  then have len: "w < length (dp_seen p)" "w < dp_spawned p"
    using inv by (simp_all add: dispatch_inv_def)
  show ?thesis
  proof (cases "dp_up p ! w")
    case True
    with w len show ?thesis
      by (cases "dp_running p ! w") (blast intro: dispatch_step.finish dispatch_step.wake)+
  next
    case False
    with len(2) show ?thesis
      by (blast intro: dispatch_step.up)
  qed
qed

text \<open>A call ends: every step but the start of another one uses something up.\<close>

definition builder_left :: "builder \<Rightarrow> nat" where
  "builder_left b = (case b of NotBuilt \<Rightarrow> 2 | Building \<Rightarrow> 1 | Built \<Rightarrow> 0)"

definition caller_left :: "caller \<Rightarrow> nat" where
  "caller_left c = (case c of InMe \<Rightarrow> 2 | Waiting \<Rightarrow> 1 | Outside \<Rightarrow> 0)"

definition worker_left :: "dispatch \<Rightarrow> nat \<Rightarrow> nat" where
  "worker_left p w = of_bool (\<not> dp_up p ! w) + 2 * of_bool (dp_seen p ! w \<noteq> dp_gen p) + of_bool (dp_running p ! w)"

definition call_left :: "dispatch \<Rightarrow> nat" where
  "call_left p = builder_left (dp_builder p) + (length (dp_seen p) - dp_spawned p) +
     (\<Sum>w < length (dp_seen p). worker_left p w) + caller_left (dp_caller p)"

lemma worker_moves:
  assumes w: "w < m" and less: "worker_left p' w < worker_left p w"
    and same: "\<And>v. v \<noteq> w \<Longrightarrow> worker_left p' v = worker_left p v"
  shows "(\<Sum>v < m. worker_left p' v) < (\<Sum>v < m. worker_left p v)"
proof (rule sum_strict_mono_ex1)
  show "\<forall>v \<in> {..<m}. worker_left p' v \<le> worker_left p v"
    using less same by (metis less_imp_le order_refl)
  show "\<exists>v \<in> {..<m}. worker_left p' v < worker_left p v"
    using w less by blast
qed simp

lemma call_left_step:
  assumes "dispatch_step p p'" "dispatch_inv n p" "threads_inv n p" "\<not> (dp_caller p = Outside \<and> dp_caller p' = InMe)"
  shows "call_left p' < call_left p"
  using assms
proof (induction rule: dispatch_step.induct)
  case (up w p)
  let ?p = "p\<lparr>dp_up := (dp_up p)[w := True], dp_ready := dp_ready p + 1\<rparr>"
  have w: "w < length (dp_seen p)" "w < length (dp_up p)"
    using up by (simp_all add: threads_inv_def dispatch_inv_def)
  have "(\<Sum>v < length (dp_seen p). worker_left ?p v) < (\<Sum>v < length (dp_seen p). worker_left p v)"
    using up w by (intro worker_moves[of w]) (auto simp: worker_left_def)
  then show ?case
    by (simp add: call_left_def)
next
  case (wake w p)
  let ?p = "p\<lparr>dp_seen := (dp_seen p)[w := dp_gen p], dp_running := (dp_running p)[w := (w < dp_want p \<and> dp_job p)]\<rparr>"
  have len: "w < length (dp_running p)"
    using wake by (simp add: dispatch_inv_def)
  have "(\<Sum>v < length (dp_seen p). worker_left ?p v) < (\<Sum>v < length (dp_seen p). worker_left p v)"
    using wake len by (intro worker_moves[of w]) (auto simp: worker_left_def)
  then show ?case
    by (simp add: call_left_def)
next
  case (finish w p died)
  let ?p = "p\<lparr>dp_running := (dp_running p)[w := False], dp_left := dp_left p - 1,
      dp_panics := dp_panics p + of_bool died, dp_runs := (dp_runs p)[w := dp_runs p ! w + 1],
      dp_died := (dp_died p)[w := died]\<rparr>"
  have len: "w < length (dp_running p)"
    using finish by (simp add: dispatch_inv_def)
  have "(\<Sum>v < length (dp_seen p). worker_left ?p v) < (\<Sum>v < length (dp_seen p). worker_left p v)"
    using finish len by (intro worker_moves[of w]) (auto simp: worker_left_def)
  then show ?case
    by (simp add: call_left_def)
qed (auto simp: call_left_def builder_left_def caller_left_def worker_left_def)

section \<open>Ordered parallel map\<close>

text \<open>
  \<^verbatim>\<open>f i = None\<close> is a panic of the item. Every slot starts empty and is written
  once, by the worker that claimed its index.
\<close>

definition par_body :: "(nat \<Rightarrow> 'a option) \<Rightarrow> (unit, 'a option list) body" where
  "par_body f i l out = (case f i of None \<Rightarrow> None | Some v \<Rightarrow> Some (Inr ((), out[i := Some v])))"

text \<open>The number of workers beside the caller, from the machine's thread count.\<close>

definition par_workers :: "nat \<Rightarrow> nat \<Rightarrow> nat" where
  "par_workers nthreads n = min nthreads n - 1"

definition par_answer :: "(unit, 'a option list) pool_state \<Rightarrow> 'a list option" where
  "par_answer t = (if ps_panic t then None else those (ps_shared t))"

definition par_run :: "nat \<Rightarrow> nat \<Rightarrow> (nat \<Rightarrow> 'a option) \<Rightarrow> (unit, 'a option list) pool_state \<Rightarrow> bool" where
  "par_run nthreads n f t \<longleftrightarrow>
     pool_reach n (par_body f) (replicate (par_workers nthreads n + 1) ()) (replicate n None) t \<and> pool_done t"

interpretation par_work: claimed_work n "par_body f" "\<lambda>l. True" "\<lambda>out. length out = n"
    "\<lambda>i out. f i = out ! i \<and> out ! i \<noteq> None"
  for n :: nat and f :: "nat \<Rightarrow> 'a option"
  by unfold_locales (auto simp: par_body_def split: option.splits)

text \<open>
  Whatever the interleaving, a finished run answers the items in index order, or None
  exactly when one of them panicked.
\<close>

lemma par_map_answer:
  assumes "par_run nthreads n f t"
  shows "par_answer t = those (map f [0..<n])"
proof -
  have reach: "pool_reach n (par_body f) (replicate (par_workers nthreads n + 1) ()) (replicate n None) t"
    and fin: "pool_done t"
    using assms by (simp_all add: par_run_def)
  note cause = failure_cause[OF reach]
  have err: "ps_err t = None"
    using cause by (auto simp: par_body_def split: option.splits)
  show ?thesis
  proof (cases "ps_panic t")
    case True
    then obtain i where "i < n" "f i = None"
      using cause by (auto simp: par_body_def split: option.splits)
    then have "those (map f [0..<n]) = None"
      unfolding those_None_iff by force
    with True show ?thesis by (simp add: par_answer_def)
  next
    case False
    have "length (ps_shared t) = n \<and> (\<forall>i < n. f i = ps_shared t ! i \<and> ps_shared t ! i \<noteq> None)"
      using par_work.run_complete[OF reach fin _ _ _ err False] by simp
    then have "ps_shared t = map f [0..<n]"
      by (intro nth_equalityI) auto
    with False show ?thesis by (simp add: par_answer_def)
  qed
qed

section \<open>Properties\<close>

text \<open>C14
  The borrowed job never outlives its caller: while any worker is inside the job the caller
  has not returned and the slot still holds the job. When the call does return every worker is
  outside, each wanted worker has run the job exactly once, and the answer is the one the same
  runs would have given on fresh threads: the caller's own value, and whether a worker died.
\<close>

theorem job_never_outlives:
  assumes "dispatch_reach n p"
  shows "(\<forall>w < n. dp_running p ! w \<longrightarrow> dp_caller p \<noteq> Outside \<and> dp_job p \<and> 0 < dp_left p) \<and>
    (\<forall>p'. dispatch_step p p' \<longrightarrow> dp_caller p \<noteq> Outside \<longrightarrow> dp_caller p' = Outside \<longrightarrow>
       (\<forall>w < n. \<not> dp_running p' ! w) \<and> (\<forall>w < dp_want p'. dp_runs p' ! w = 1) \<and>
       pooled_answer p me = spawned (dp_want p) (\<lambda>i. True) (\<lambda>w. dp_died p ! w) me)"
proof (intro conjI allI impI)
  fix p'
  assume "dispatch_step p p'" "dp_caller p \<noteq> Outside" "dp_caller p' = Outside"
  then have p': "dp_caller p = Waiting" "dp_left p = 0" "p' = p\<lparr>dp_job := False, dp_caller := Outside\<rparr>"
    by (auto elim: dispatch_stepE)
  then show "\<And>w. w < n \<Longrightarrow> \<not> dp_running p' ! w" "\<And>w. w < dp_want p' \<Longrightarrow> dp_runs p' ! w = 1"
    using run_returns[OF assms] by simp_all
  show "pooled_answer p me = spawned (dp_want p) (\<lambda>i. True) (\<lambda>w. dp_died p ! w) me"
  proof -
    have "list_ex (\<lambda>w. dp_died p ! w) [0..<dp_want p] \<longleftrightarrow> 0 < dp_panics p"
      using run_returns[OF assms p'(1,2)] by (auto simp: list_ex_iff)
    then show ?thesis
      by (simp add: pooled_answer_def spawned_def list_all_iff)
  qed
qed (use job_borrow[OF assms] in auto)

text \<open>A pool of two whose first worker has started, and is in the job.\<close>

lemma ex_dispatch:
  "\<exists>p. dispatch_reach 2 p \<and> dp_running p ! 0 \<and> dp_caller p = InMe"
proof -
  let ?p0 = "pool_build 2"
  let ?p1 = "?p0\<lparr>dp_builder := Building\<rparr>" let ?p2 = "?p1\<lparr>dp_spawned := 1\<rparr>"
  let ?p3 = "?p2\<lparr>dp_up := [True, False], dp_ready := 1\<rparr>"
  let ?p4 = "?p3\<lparr>dp_job := True, dp_want := 1, dp_left := 1, dp_panics := 0, dp_gen := 1, dp_runs := [0, 0],
      dp_died := [False, False], dp_caller := InMe\<rparr>"
  let ?p5 = "?p4\<lparr>dp_seen := [1, 0], dp_running := [True, False]\<rparr>"
  have two: "replicate 2 x = [x, x]" for x :: 'a
    by (simp add: numeral_2_eq_2)
  have "dispatch_step ?p0 ?p1" "dispatch_step ?p1 ?p2"
    using dispatch_step.warm[of ?p0 True] dispatch_step.spawn[of ?p1] by (simp_all add: pool_build_def)
  moreover have "dispatch_step ?p2 ?p3"
    using dispatch_step.up[of 0 ?p2] by (simp add: pool_build_def numeral_2_eq_2)
  moreover have "dispatch_step ?p3 ?p4"
    using dispatch_step.run[of ?p3 1 1] by (simp add: pool_build_def run_path_def numeral_2_eq_2)
  moreover have "dispatch_step ?p4 ?p5"
    using dispatch_step.wake[of 0 ?p4] by (simp add: pool_build_def numeral_2_eq_2)
  ultimately have "dispatch_reach 2 ?p5"
    by (meson dispatch_reach.intros)
  then show ?thesis
    by (intro exI[of _ ?p5]) simp
qed

theorem job_never_outlives_witness: "\<exists>p. dispatch_reach 2 p \<and> dp_running p ! 0 \<and> dp_caller p \<noteq> Outside"
  using ex_dispatch job_never_outlives[of 2 _ "None :: nat option"] by fastforce





text \<open>C38
  A call of the pool ends: there is no infinite run of its claimed work, whatever the body
  does, and a run that cannot go on has let every worker leave.
\<close>

theorem claimed_work_ends:
  "wf {(t', t). claim_step n exec t t'} \<and> ((\<nexists>t'. claim_step n exec t t') \<longrightarrow> pool_done t)"
proof -
  have "{(t', t). claim_step n exec t t'} \<subseteq> measure (pool_weight n)"
    using claim_step_weight by auto
  then have "wf {(t', t). claim_step n exec t t'}"
    by (rule wf_subset[OF wf_measure])
  then show ?thesis
    using claim_progress[of t n exec] by fast
qed

text \<open>\<open>claim_step\<close> can indeed get stuck: the two workers of a finished call.\<close>

theorem claimed_work_ends_witness:
  "pool_done \<lparr>ps_next = 3, ps_stop = False, ps_err = None, ps_panic = False, ps_shared = (), ps_workers = [Gone, Gone :: unit worker]\<rparr>"
proof -
  let ?t = "\<lparr>ps_next = 3, ps_stop = False, ps_err = None, ps_panic = False, ps_shared = (), ps_workers = [Gone, Gone :: unit worker]\<rparr>"
  have "\<nexists>t'. claim_step 2 (\<lambda>i l s. None) ?t t'"
    by (auto elim!: claim_stepE simp: less_Suc_eq)
  then show ?thesis
    using claimed_work_ends[of 2 "\<lambda>i l s. None" ?t] by blast
qed

end
