(* ===== verification/Args.thy ===== *)
theory Args
  imports Values
begin

text \<open>
  \<^verbatim>\<open>src/src/lib.rs\<close>: the argument shapes of the five entry points. Every
  entry takes one host value; these functions take it apart, and an error names the
  entry point and what it wanted.
\<close>

section \<open>Symbol text\<close>

text \<open>UTF-8 validity, as \<^verbatim>\<open>CStr::to_str\<close> checks it, over the byte values.\<close>

definition utf8_cont :: "nat \<Rightarrow> bool" where
  "utf8_cont b \<longleftrightarrow> 0x80 \<le> b \<and> b \<le> 0xBF"

fun utf8_valid :: "nat list \<Rightarrow> bool" where
  "utf8_valid [] = True"
| "utf8_valid (b # bs) =
    (if b < 0x80 then utf8_valid bs
     else if 0xC2 \<le> b \<and> b \<le> 0xDF then
       (case bs of c1 # r \<Rightarrow> utf8_cont c1 \<and> utf8_valid r | _ \<Rightarrow> False)
     else if 0xE0 \<le> b \<and> b \<le> 0xEF then
       (case bs of c1 # c2 # r \<Rightarrow>
          utf8_cont c1 \<and> (b = 0xE0 \<longrightarrow> 0xA0 \<le> c1) \<and> (b = 0xED \<longrightarrow> c1 \<le> 0x9F) \<and> utf8_cont c2 \<and> utf8_valid r
        | _ \<Rightarrow> False)
     else if 0xF0 \<le> b \<and> b \<le> 0xF4 then
       (case bs of c1 # c2 # c3 # r \<Rightarrow>
          utf8_cont c1 \<and> (b = 0xF0 \<longrightarrow> 0x90 \<le> c1) \<and> (b = 0xF4 \<longrightarrow> c1 \<le> 0x8F) \<and> utf8_cont c2 \<and>
          utf8_cont c3 \<and> utf8_valid r
        | _ \<Rightarrow> False)
     else False)"

definition utf8_ok :: "string \<Rightarrow> bool" where
  "utf8_ok s = utf8_valid (map of_char s)"

definition ptr_str :: "string \<Rightarrow> string \<Rightarrow> string result" where
  "ptr_str s who = (if utf8_ok s then Inr s else Inl (who @ '': symbol utf8''))"

definition path_of :: "string \<Rightarrow> string" where
  "path_of s = (case s of [] \<Rightarrow> [] | c # r \<Rightarrow> if c = CHR '':'' then r else s)"

definition ptr_path :: "string \<Rightarrow> string \<Rightarrow> string result" where
  "ptr_path s who = rbind (ptr_str s who) (\<lambda>t. Inr (path_of t))"

primrec sym_text :: "kval \<Rightarrow> string" where
  "sym_text (KSym s) = s"
| "sym_text (KAtom t b) = []"
| "sym_text (KVec8 t xs) = []"
| "sym_text (KVec16 t xs) = []"
| "sym_text (KVec32 t xs) = []"
| "sym_text (KVec64 t xs) = []"
| "sym_text (KSyms ss) = []"
| "sym_text (KList vs) = []"
| "sym_text (KDict k v) = []"
| "sym_text (KTable d) = []"

definition sym_path :: "kval \<Rightarrow> string \<Rightarrow> string result" where
  "sym_path x who = (if ktype x \<noteq> - KS then Inl (who @ '': expected symbol path'')
     else ptr_path (sym_text x) who)"

section \<open>Lists of symbols, files and columns\<close>

definition syms_of :: "kval \<Rightarrow> string \<Rightarrow> string \<Rightarrow> string list result" where
  "syms_of x who what =
    (let bad = who @ '': expected '' @ what in
     case x of
       KSym s \<Rightarrow> rbind (ptr_str s who) (\<lambda>t. Inr [t])
     | KSyms ss \<Rightarrow> mapR (\<lambda>s. ptr_str s who) ss
     | KList vs \<Rightarrow> mapR (\<lambda>e. if ktype e \<noteq> - KS then Inl bad else ptr_str (sym_text e) who) vs
     | _ \<Rightarrow> Inl bad)"

definition files_of :: "kval \<Rightarrow> string \<Rightarrow> (string \<times> string) list result" where
  "files_of x who = rbind (syms_of x who ''symbol path'') (\<lambda>ss. Inr (map (\<lambda>s. (s, path_of s)) ss))"

definition starts_colon :: "string \<Rightarrow> bool" where
  "starts_colon s = (case s of [] \<Rightarrow> False | c # r \<Rightarrow> c = CHR '':'')"

text \<open>The first two symbols of a symbol vector of length two.\<close>

definition collapsed_pair :: "string list \<Rightarrow> string \<Rightarrow> bool result" where
  "collapsed_pair ss who =
     rbind (ptr_str (ss ! 0) who) (\<lambda>a.
     rbind (ptr_str (ss ! 1) who) (\<lambda>b.
     Inr (b = [] \<or> (starts_colon a \<and> \<not> starts_colon b))))"

definition cols_of :: "kval \<Rightarrow> string \<Rightarrow> string list option result" where
  "cols_of x who = rbind (syms_of x who ''column symbol'')
     (\<lambda>names. Inr (if list_all (\<lambda>n. n = []) names then None else Some names))"

definition long_of :: "kval \<Rightarrow> string \<Rightarrow> i64 result" where
  "long_of x who = ok_or (katom_i64 x) (who @ '': expected long'')"

section \<open>The read options\<close>

record rd_options =
  opt_codes :: bool

text \<open>The two halves of a dict and the elements of a general list.\<close>

fun dict_keys :: "kval \<Rightarrow> kval" where
  "dict_keys (KDict k v) = k"
| "dict_keys x = KList []"

fun dict_vals :: "kval \<Rightarrow> kval" where
  "dict_vals (KDict k v) = v"
| "dict_vals x = KList []"

fun elt :: "kval \<Rightarrow> nat \<Rightarrow> kval" where
  "elt (KList vs) i = vs ! i"
| "elt x i = x"

fun key_at :: "kval \<Rightarrow> nat \<Rightarrow> string" where
  "key_at (KSyms ss) i = ss ! i"
| "key_at x i = []"

definition rd_opt_step :: "kval \<Rightarrow> kval \<Rightarrow> string \<Rightarrow> rd_options \<Rightarrow> nat \<Rightarrow> rd_options result" where
  "rd_opt_step keys vals who opts i =
     rbind (ptr_str (key_at keys i) who) (\<lambda>k.
       let b = (case tree_val_at vals i of VBool v \<Rightarrow> Some v | _ \<Rightarrow> None) in
       if k = ''codes'' \<or> k = ''sym'' then
         (case b of Some v \<Rightarrow> Inr (opts\<lparr>opt_codes := v\<rparr>)
          | None \<Rightarrow> Inl (who @ '': opt `'' @ k @ '' wants a boolean''))
       else Inl (who @ '': unknown opt `'' @ k))"

definition rd_opts :: "kval option \<Rightarrow> string \<Rightarrow> rd_options result" where
  "rd_opts x who = (case x of None \<Rightarrow> Inr \<lparr>opt_codes = False\<rparr>
   | Some d \<Rightarrow>
      if ktype d \<noteq> XD then Inl (who @ '': opts must be a dict'')
      else let keys = dict_keys d; vals = dict_vals d in
        if kcount keys \<noteq> 0 \<and> ksub keys \<noteq> KS then Inl (who @ '': opts keys must be symbols'')
        else foldR (rd_opt_step keys vals who) \<lparr>opt_codes = False\<rparr> [0..<kcount keys])"

section \<open>The argument of each entry point\<close>

record read_req =
  rq_files :: "(string \<times> string) list"
  rq_want :: "string list option"
  rq_codes :: bool

definition read_args :: "kval \<Rightarrow> string \<Rightarrow> read_req result" where
  "read_args x who =
    (let gen = ktype x = 0 \<and> (kcount x = 2 \<or> kcount x = 3) in
     rbind (rd_opts (if gen \<and> kcount x = 3 then Some (elt x 2) else None) who) (\<lambda>opt.
     let mk = (\<lambda>f w. \<lparr>rq_files = f, rq_want = w, rq_codes = opt_codes opt\<rparr>) in
     if gen then
       rbind (files_of (elt x 0) who) (\<lambda>f. rbind (cols_of (elt x 1) who) (\<lambda>w. Inr (mk f w)))
     else
       rbind (if ktype x = KS \<and> kcount x = 2
              then (case x of KSyms ss \<Rightarrow> collapsed_pair ss who | _ \<Rightarrow> Inr False)
              else Inr False) (\<lambda>pair.
       if pair then
         rbind (ptr_str (key_at x 1) who) (\<lambda>col.
         rbind (ptr_str (key_at x 0) who) (\<lambda>f.
         rbind (ptr_path (key_at x 0) who) (\<lambda>p.
         Inr (mk [(f, p)] (if col = [] then None else Some [col])))))
       else rbind (files_of x who) (\<lambda>f. Inr (mk f None)))))"

text \<open>
  \<^verbatim>\<open>pq_write\<close>: the table, the path and the options; \<^verbatim>\<open>pq_stream\<close>: source
  and destination.
\<close>

definition write_args :: "kval \<Rightarrow> (kval \<times> string \<times> kval option) result" where
  "write_args x =
    (let n = kcount x in
     if ktype x \<noteq> 0 \<or> (n \<noteq> 2 \<and> n \<noteq> 3)
     then Inl ''pq_write: (table;path) or (table;path;opts) expected''
     else rbind (sym_path (elt x 1) ''pq_write'') (\<lambda>p.
       Inr (elt x 0, p, if n = 3 then Some (elt x 2) else None)))"

definition stream_args :: "kval \<Rightarrow> (string \<times> string) result" where
  "stream_args x = rbind (files_of x ''pq_stream'') (\<lambda>f.
     case f of [src, dst] \<Rightarrow> Inr (snd src, snd dst)
     | _ \<Rightarrow> Inl ''pq_stream: (src;dst) expected'')"

section \<open>Facts about the argument shapes\<close>

lemma utf8_ascii: "list_all (\<lambda>c. of_char c < (128 :: nat)) s \<Longrightarrow> utf8_ok s"
  unfolding utf8_ok_def by (induction s) auto

lemma ptr_str_Inr_iff [result_simps]: "ptr_str s who = Inr t \<longleftrightarrow> utf8_ok s \<and> t = s"
  by (auto simp: ptr_str_def)

lemma mapR_ptr_str: "list_all utf8_ok ss \<Longrightarrow> mapR (\<lambda>s. ptr_str s who) ss = Inr ss"
  by (induction ss) (auto simp: ptr_str_def)

text \<open>
  The host collapses a list of symbol atoms into a symbol vector; whichever of the two
  arrives, the argument means the same names.
\<close>

lemma syms_of_collapse: "syms_of (KList (map KSym ss)) who what = syms_of (KSyms ss) who what"
proof -
  have "mapR (\<lambda>e. if ktype e \<noteq> - KS then Inl b else ptr_str (sym_text e) who) (map KSym ss)
      = mapR (\<lambda>s. ptr_str s who) ss" for b
    by (induction ss) (auto simp: ktype_def)
  then show ?thesis by (simp add: syms_of_def Let_def)
qed

lemma syms_of_Inr_utf8: "syms_of x who what = Inr ns \<Longrightarrow> list_all utf8_ok ns"
  by (cases x) (auto simp: syms_of_def result_simps list_all2_conv_all_nth list_all_length
      Let_def split: if_splits)

text \<open>The names of an accepted read option dict and the last of its values.\<close>

lemma rd_opt_step_Inr:
  "rd_opt_step keys vals who opts i = Inr opts' \<Longrightarrow>
     key_at keys i \<in> {''codes'', ''sym''} \<and> tree_val_at vals i = VBool (opt_codes opts')"
  by (auto simp: rd_opt_step_def result_simps Let_def split: if_splits option.splits val.splits)

lemma foldR_last:
  assumes "foldR f s (xs @ [x]) = Inr t"
  shows "\<exists>s'. foldR f s xs = Inr s' \<and> f s' x = Inr t"
  using assms by (auto simp: foldR_append result_simps)

section \<open>Properties\<close>

text \<open>
  A pair of symbols that the host collapsed into a symbol vector means what the list of the
  two means, a file and a column, exactly when the second is the null symbol or the first
  alone is a file handle; any other pair is two files. Text that is not UTF-8 is an error
  either way.
\<close>

theorem collapsed_read_args:
  "read_args (KSyms [f, c]) who =
    (if utf8_ok f then
       if utf8_ok c then
         if c = [] \<or> (starts_colon f \<and> starts_colon c = False) then read_args (KList [KSym f, KSym c]) who
         else Inr \<lparr>rq_files = [(f, path_of f), (c, path_of c)], rq_want = None, rq_codes = False\<rparr>
       else Inl (who @ '': symbol utf8'')
     else Inl (who @ '': symbol utf8''))"
  by (auto simp: read_args_def ktype_def rd_opts_def collapsed_pair_def ptr_str_def files_of_def cols_of_def syms_of_def
      ptr_path_def Let_def numeral_2_eq_2)

text \<open>
  An option dict that is accepted holds only the two known keys with boolean values, and of
  several entries the last one decides.
\<close>

theorem read_options_checked:
  assumes "rd_opts (Some d) who = Inr opts" "0 < kcount (dict_keys d)"
  shows "ktype d = XD \<and> ksub (dict_keys d) = KS \<and>
    (\<forall>i < kcount (dict_keys d). key_at (dict_keys d) i \<in> {''codes'', ''sym''} \<and>
       (\<exists>b. tree_val_at (dict_vals d) i = VBool b)) \<and>
    tree_val_at (dict_vals d) (kcount (dict_keys d) - 1) = VBool (opt_codes opts)"
proof -
  let ?n = "kcount (dict_keys d)" and ?step = "rd_opt_step (dict_keys d) (dict_vals d) who"
  have t: "ktype d = XD" "ksub (dict_keys d) = KS" "foldR ?step \<lparr>opt_codes = False\<rparr> [0..<?n] = Inr opts"
    using assms by (auto simp: rd_opts_def Let_def split: if_splits)
  have last: "\<exists>o0. ?step o0 i = Inr o1" if "foldR ?step \<lparr>opt_codes = False\<rparr> [0..<Suc i] = Inr o1" for i o1
    using foldR_last[of ?step "\<lparr>opt_codes = False\<rparr>" "[0..<i]" i o1] that by auto
  have "key_at (dict_keys d) i \<in> {''codes'', ''sym''} \<and> (\<exists>b. tree_val_at (dict_vals d) i = VBool b)" if i: "i < ?n" for i
  proof -
    have "[0..<?n] = [0..<Suc i] @ [Suc i..<?n]"
      using i upt_add_eq_append[of 0 "Suc i" "?n - Suc i"] by simp
    then obtain o1 where "foldR ?step \<lparr>opt_codes = False\<rparr> [0..<Suc i] = Inr o1"
      using t(3) by (metis foldR_append rbind_Inr_iff)
    then show ?thesis
      using last rd_opt_step_Inr by blast
  qed
  moreover have "tree_val_at (dict_vals d) (?n - 1) = VBool (opt_codes opts)"
    using last[of "?n - 1" opts] t(3) assms(2) rd_opt_step_Inr by auto
  ultimately show ?thesis
    using t by simp
qed

theorem read_options_checked_witness:
  "tree_val_at (KVec8 KB [0, 1]) 1 = VBool (opt_codes \<lparr>opt_codes = True\<rparr>)"
proof -
  have "rd_opts (Some (KDict (KSyms [''sym'', ''codes'']) (KVec8 KB [0, 1]))) [] = Inr \<lparr>opt_codes = True\<rparr>"
    by (simp add: rd_opts_def ktype_def rd_opt_step_def ptr_str_def utf8_ok_def Let_def upt_rec)
  from read_options_checked[OF this] show ?thesis
    by simp
qed

end
