(* ===== verification/Decode.thy ===== *)
theory Decode
  imports RawCol Codes Pool Args
begin

text \<open>
  \<^verbatim>\<open>read\<close>, \<^verbatim>\<open>decode\<close> and \<^verbatim>\<open>one\<close> of
  \<^verbatim>\<open>src/src/read.rs\<close>: a read window is laid out before a page is touched,
  and workers decode its parts into shared columns. The files and the crate's readers are
  the record \<open>store\<close>.
\<close>

section \<open>The window\<close>

text \<open>
  The walk over the row groups of the set: the running total is a machine word, as
  \<^verbatim>\<open>usize\<close> wraps in a release build.
\<close>

definition window_step ::
    "nat \<Rightarrow> nat \<Rightarrow> nat \<times> rg list \<times> u64 \<Rightarrow> nat \<times> nat \<times> i64 \<Rightarrow> nat \<times> rg list \<times> u64" where
  "window_step g0 g1 st x =
    (let (g, rgs, total) = st; (f, i, rows) = x in
     if g0 \<le> g \<and> g < g1 \<and> 0 < sint rows
     then (g + 1, rgs @ [(f, i, unat total, unat rows)], total + rows)
     else (g + 1, rgs, total))"

definition flat_rgs :: "file_set \<Rightarrow> (nat \<times> nat \<times> i64) list" where
  "flat_rgs fs = concat (map (\<lambda>(f, s). map (\<lambda>(i, rows). (f, i, rows)) (enumerate 0 (src_rg_rows s)))
     (enumerate 0 (fs_srcs fs)))"

definition window :: "file_set \<Rightarrow> nat \<Rightarrow> nat \<Rightarrow> rg list \<times> u64" where
  "window fs g0 g1 = snd (foldl (window_step g0 g1) (0, [], 0) (flat_rgs fs))"

definition parts_for :: "nat \<Rightarrow> sel \<Rightarrow> rg list \<Rightarrow> nat" where
  "parts_for nthreads sl rgs =
    (if rgs = [] then 1
     else max 1 (min (div_ceil (2 * nthreads) (length rgs)) (max 1 (length (sel_uniq sl)))))"

record task =
  tk_f :: nat
  tk_g :: nat
  tk_off :: nat
  tk_rows :: nat
  tk_p :: nat

definition tasks_of :: "rg list \<Rightarrow> nat \<Rightarrow> task list" where
  "tasks_of rgs np = concat (map (\<lambda>(f, g, off, rows). map (\<lambda>p.
     \<lparr>tk_f = f, tk_g = g, tk_off = off, tk_rows = rows, tk_p = p\<rparr>) [0..<np]) rgs)"

section \<open>One task\<close>

record 'st store =
  so_open :: "src \<Rightarrow> unit result"
  so_clone :: "src \<Rightarrow> unit result"
  so_cols :: "'st column_reader"
  so_batches :: "src \<Rightarrow> nat \<Rightarrow> nat list \<Rightarrow> (arr list \<times> nat) result list result"

text \<open>The host and the Arrow kernels, as the converters need them.\<close>

record host =
  h_intern :: "u8 list \<Rightarrow> ptr"
  h_rd :: "ptr \<Rightarrow> nat \<Rightarrow> u8 list"
  h_deref :: "arc \<Rightarrow> utf8s"
  h_cast :: "arr \<Rightarrow> data_type \<Rightarrow> arr result"

text \<open>What the tasks share: the column payloads and the give-up flags.\<close>

type_synonym shared = "payload list \<times> bool list"

definition delivered :: "string \<Rightarrow> src \<Rightarrow> nat \<Rightarrow> nat \<Rightarrow> nat \<Rightarrow> string" where
  "delivered who s g n rows = who @ '': '' @ src_path s @ '': row group '' @ show_nat g @ '' delivered ''
     @ show_nat n @ '' rows, footer says '' @ show_nat rows"

definition raw_one ::
    "'st store \<Rightarrow> src \<Rightarrow> sel \<Rightarrow> task \<Rightarrow> string \<Rightarrow> payload list \<Rightarrow> nat \<Rightarrow> payload list outcome" where
  "raw_one so s sl t who cols p =
    (case leaf_at s (sel_out sl ! p) of
       None \<Rightarrow> Some (Inl (who @ '': '' @ src_path s @ '': column leaf''))
     | Some leaf \<Rightarrow>
        (case sel_raw sl ! p of
           None \<Rightarrow> None
         | Some rt \<Rightarrow>
            obind (raw_col (so_cols so) s (tk_g t) leaf rt (sel_lts sl ! p) (cols ! p) (tk_off t) (tk_rows t) who)
              (\<lambda>(col, n). if n \<noteq> tk_rows t then Some (Inl (delivered who s (tk_g t) n (tk_rows t)))
                 else Some (Inr (cols[p := col])))))"

definition batch_col ::
    "host \<Rightarrow> sel \<Rightarrow> codes option list \<Rightarrow> nat \<Rightarrow> arr list \<Rightarrow> shared \<times> sym_cache \<Rightarrow> nat \<times> nat \<Rightarrow>
     (shared \<times> sym_cache) result" where
  "batch_col h sl cds off b st x =
    (let ((cols, gives), sy) = st; (bi, p) = x; a = b ! bi in
     case cds ! p of
       Some cd \<Rightarrow> rbind (sym_codes (h_deref h) a cd (cols ! p) off sy) (\<lambda>(col, sy, give).
         Inr ((cols[p := col], gives[p := gives ! p \<or> give]), sy))
     | None \<Rightarrow> rbind (fill_col (h_intern h) (h_rd h) (h_deref h) (h_cast h) (sel_lts sl ! p) (cols ! p) off a sy)
         (\<lambda>(col, sy). Inr ((cols[p := col], gives), sy)))"

definition one_batch ::
    "host \<Rightarrow> sel \<Rightarrow> codes option list \<Rightarrow> part \<Rightarrow> string \<Rightarrow> nat \<times> shared \<times> sym_cache \<Rightarrow> (arr list \<times> nat) result \<Rightarrow>
     (nat \<times> shared \<times> sym_cache) result" where
  "one_batch h sl cds part who st b =
    (let (off, sh, sy) = st in
     rbind (ctx who b) (\<lambda>(cols, n).
     rbind (foldR (batch_col h sl cds off cols) (sh, sy) (zip (pt_bat part) (pt_outs part)))
       (\<lambda>(sh, sy). Inr (off + n, sh, sy))))"

definition one ::
    "'st store \<Rightarrow> host \<Rightarrow> file_set \<Rightarrow> sel \<Rightarrow> part list \<Rightarrow> codes option list \<Rightarrow> string \<Rightarrow> task \<Rightarrow>
     sym_cache \<Rightarrow> shared \<Rightarrow> (sym_cache \<times> shared) outcome" where
  "one so h fs sl parts cds who t sy sh =
    (let s = fs_srcs fs ! tk_f t; part = parts ! tk_p t; at_path = who @ '': '' @ src_path s in
     obind (Some (ctx at_path (so_open so s))) (\<lambda>_.
     obind (if pt_raw part = [] then Some (Inr (fst sh))
            else obind (Some (ctx at_path (so_clone so s))) (\<lambda>_.
              foldO (raw_one so s sl t who) (fst sh) (pt_raw part))) (\<lambda>cols.
     if pt_raw part \<noteq> [] \<and> pt_outs part = [] then Some (Inr (sy, (cols, snd sh)))
     else
       obind (Some (ctx who (so_batches so s (tk_g t) (pt_masks part ! tk_f t)))) (\<lambda>bs.
       obind (Some (foldR (one_batch h sl cds part who) (tk_off t, (cols, snd sh), sy) bs)) (\<lambda>(off, sh, sy).
         if off - tk_off t \<noteq> tk_rows t
         then Some (Inl (delivered who s (tk_g t) (off - tk_off t) (tk_rows t)))
         else Some (Inr (sy, sh)))))))"

section \<open>The decode pool\<close>

definition decode_body ::
    "'st store \<Rightarrow> host \<Rightarrow> file_set \<Rightarrow> sel \<Rightarrow> part list \<Rightarrow> codes option list \<Rightarrow> string \<Rightarrow> task list \<Rightarrow>
     (sym_cache, shared) body" where
  "decode_body so h fs sl parts cds who tasks i sy sh = one so h fs sl parts cds who (tasks ! i) sy sh"

text \<open>The workers of a call, the calling thread among them, and what the call answers.\<close>

definition decode_workers :: "nat \<Rightarrow> task list \<Rightarrow> sym_cache list" where
  "decode_workers nthreads tasks = replicate (max 1 (min nthreads (length tasks))) sc_new"

definition decode_answer :: "string \<Rightarrow> (sym_cache, shared) pool_state \<Rightarrow> shared result" where
  "decode_answer who t = (case ps_err t of Some e \<Rightarrow> Inl e
   | None \<Rightarrow> if ps_panic t then Inl (who @ '': worker panic'') else Inr (ps_shared t))"

inductive decode ::
    "'st store \<Rightarrow> host \<Rightarrow> file_set \<Rightarrow> nat \<Rightarrow> sel \<Rightarrow> part list \<Rightarrow> codes option list \<Rightarrow> task list \<Rightarrow> string \<Rightarrow>
     shared \<Rightarrow> shared result \<Rightarrow> bool" where
  none: "decode so h fs nthreads sl parts cds [] who sh (Inr sh)"
| run: "tasks \<noteq> [] \<Longrightarrow>
    pool_reach (length tasks) (decode_body so h fs sl parts cds who tasks) (decode_workers nthreads tasks) sh t \<Longrightarrow>
    pool_done t \<Longrightarrow> decode so h fs nthreads sl parts cds tasks who sh (decode_answer who t)"

inductive_cases decodeE [consumes 1, case_names none run]: "decode so h fs nthreads sl parts cds tasks who sh r"

end
