(* ===== verification/Window.thy ===== *)
theory Window
  imports Decode
begin

text \<open>
  The layout of a read window (\<^verbatim>\<open>read\<close> in \<^verbatim>\<open>src/src/read.rs\<close>):
  which row groups it holds and which result rows each of them owns.
\<close>

section \<open>Which row groups\<close>

text \<open>The window's row groups as the caller numbers them: global indices of the set.\<close>

definition in_window :: "nat \<Rightarrow> nat \<Rightarrow> nat \<Rightarrow> (nat \<times> nat \<times> i64) list \<Rightarrow> (nat \<times> nat \<times> i64) list" where
  "in_window g0 g1 k xs = map snd (filter (\<lambda>(g, _, _, rows). g0 \<le> g \<and> g < g1 \<and> 0 < sint rows) (enumerate k xs))"

fun lay :: "u64 \<Rightarrow> (nat \<times> nat \<times> i64) list \<Rightarrow> rg list" where
  "lay off [] = []"
| "lay off ((f, i, rows) # xs) = (f, i, unat off, unat rows) # lay (off + rows) xs"

lemma in_window_Nil [simp]: "in_window g0 g1 k [] = []"
  by (simp add: in_window_def)

lemma in_window_Cons [simp]:
  "in_window g0 g1 k ((f, i, rows) # xs) =
    (if g0 \<le> k \<and> k < g1 \<and> 0 < sint rows then (f, i, rows) # in_window g0 g1 (Suc k) xs
     else in_window g0 g1 (Suc k) xs)"
  by (auto simp: in_window_def)

lemma window_step_eq:
  "window_step g0 g1 (g, rgs, off) (f, i, rows) =
    (if g0 \<le> g \<and> g < g1 \<and> 0 < sint rows
     then (Suc g, rgs @ [(f, i, unat off, unat rows)], off + rows) else (Suc g, rgs, off))"
  by (simp add: window_step_def)

lemma window_fold:
  "foldl (window_step g0 g1) (k, rgs, off) xs =
     (k + length xs, rgs @ lay off (in_window g0 g1 k xs),
      off + sum_list (map (\<lambda>(_, _, rows). rows) (in_window g0 g1 k xs)))"
proof (induction xs arbitrary: k rgs off)
  case Nil
  then show ?case by (simp add: in_window_def)
next
  case (Cons x xs)
  obtain f i rows where x: "x = (f, i, rows)"
    by (cases x)
  show ?case
    unfolding x by (simp add: window_step_eq Cons.IH add.assoc)
qed

lemma window_lay:
  "window fs g0 g1 = (lay 0 (in_window g0 g1 0 (flat_rgs fs)),
     sum_list (map (\<lambda>(_, _, rows). rows) (in_window g0 g1 0 (flat_rgs fs))))"
  by (simp add: window_def window_fold)

section \<open>Which rows\<close>

text \<open>
  Row groups tile the result: each starts where the one before it ends, and the last ends at
  the total. That needs the true total to fit the machine word the code keeps it in.
\<close>

fun tiles :: "nat \<Rightarrow> rg list \<Rightarrow> nat \<Rightarrow> bool" where
  "tiles off [] tot \<longleftrightarrow> off = tot"
| "tiles off ((f, i, o1, rows) # rgs) tot \<longleftrightarrow> o1 = off \<and> 0 < rows \<and> tiles (off + rows) rgs tot"

definition true_total :: "(nat \<times> nat \<times> i64) list \<Rightarrow> nat" where
  "true_total xs = sum_list (map (\<lambda>(_, _, rows). unat rows) xs)"

lemma unat_add_small: "unat a + unat b < 2 ^ LENGTH('a) \<Longrightarrow> unat (a + b :: 'a::len word) = unat a + unat b"
  using unat_of_nat_small[of "unat a + unat b", where 'a = 'a] by simp

lemma lay_tiles:
  assumes "unat off + true_total xs < 2 ^ 64" "\<forall>(_, _, rows) \<in> set xs. 0 < sint rows"
  shows "tiles (unat off) (lay off xs) (unat off + true_total xs) \<and>
    unat (off + sum_list (map (\<lambda>(_, _, rows). rows) xs)) = unat off + true_total xs"
  using assms
proof (induction xs arbitrary: off)
  case Nil
  then show ?case by (simp add: true_total_def)
next
  case (Cons x xs)
  obtain f i rows where x: "x = (f, i, rows)"
    by (cases x)
  have "0 < sint rows"
    using Cons.prems(2) x by simp
  then have pos: "0 < unat rows"
    by (metis gr0I order_less_irrefl signed_0 unsigned_eq_0_iff)
  have le: "unat off + unat rows + true_total xs < 2 ^ 64"
    using Cons.prems(1) by (simp add: x true_total_def)
  then have u: "unat (off + rows) = unat off + unat rows"
    by (intro unat_add_small) simp
  have "tiles (unat (off + rows)) (lay (off + rows) xs) (unat (off + rows) + true_total xs) \<and>
      unat (off + rows + sum_list (map (\<lambda>(_, _, rows). rows) xs)) = unat (off + rows) + true_total xs"
    using Cons.prems(2) le u by (intro Cons.IH) simp_all
  with pos u show ?case
    by (simp add: x true_total_def add.assoc)
qed

lemma in_window_pos: "\<forall>(_, _, rows) \<in> set (in_window g0 g1 k xs). 0 < sint rows"
  by (auto simp: in_window_def)

lemma window_tiles:
  assumes "window fs g0 g1 = (rgs, tot)" "true_total (in_window g0 g1 0 (flat_rgs fs)) < 2 ^ 64"
  shows "tiles 0 rgs (unat tot) \<and> unat tot = true_total (in_window g0 g1 0 (flat_rgs fs))"
  using assms lay_tiles[of 0 "in_window g0 g1 0 (flat_rgs fs)"] in_window_pos
  by (auto simp: window_lay)

lemma tiles_le: "tiles off rgs tot \<Longrightarrow> off \<le> tot"
  by (induction off rgs tot rule: tiles.induct) auto

lemma tiles_bounds: "tiles off rgs tot \<Longrightarrow> (f, i, o1, rows) \<in> set rgs \<Longrightarrow> off \<le> o1 \<and> o1 + rows \<le> tot"
proof (induction off rgs tot rule: tiles.induct)
  case (2 off f' i' o1' rows' rgs tot)
  have "off + rows' \<le> tot"
    using "2.prems"(1) tiles_le[of "off + rows'" rgs tot] by simp
  with 2 show ?case by auto
qed simp

lemma tiles_disjoint:
  "tiles off rgs tot \<Longrightarrow> a < b \<Longrightarrow> b < length rgs \<Longrightarrow> rgs ! a = (f, i, o1, r1) \<Longrightarrow> rgs ! b = (f', i', o2, r2) \<Longrightarrow>
     o1 + r1 \<le> o2"
proof (induction off rgs tot arbitrary: a b rule: tiles.induct)
  case (2 off f0 i0 o0 r0 rgs tot)
  show ?case
  proof (cases a)
    case 0
    with "2.prems" have "(f', i', o2, r2) \<in> set rgs"
      by (cases b) (auto dest: nth_mem)
    then have "off + r0 \<le> o2"
      using "2.prems"(1) tiles_bounds[of "off + r0" rgs tot] by auto
    with 0 "2.prems" show ?thesis by simp
  next
    case (Suc a')
    with "2.prems" show ?thesis
      using "2.IH"[of a' "b - 1"] by (cases b) auto
  qed
qed simp

section \<open>Properties\<close>

text \<open>C15
  The layout of a window tiles its result: while the rows asked for number fewer than
  \<open>2 ^ 64\<close>, the row groups of the window own disjoint row ranges, in order, without a gap,
  and the vectors are sized to exactly their union.
\<close>

theorem window_tiles_result:
  assumes "window fs g0 g1 = (rgs, tot)" "true_total (in_window g0 g1 0 (flat_rgs fs)) < 2 ^ 64"
  shows "tiles 0 rgs (unat tot) \<and> map (\<lambda>(f, i, o1, n). (f, i)) rgs = map (\<lambda>(f, i, rows). (f, i)) (in_window g0 g1 0 (flat_rgs fs)) \<and>
    unat tot = sum_list (map (\<lambda>(f, i, o1, n). n) rgs)"
proof -
  have t: "tiles 0 rgs (unat tot)"
    by (rule conjunct1[OF window_tiles[OF assms]])
  have "tiles off rgs tot \<Longrightarrow> tot = off + sum_list (map (\<lambda>(f, i, o1, n). n) rgs)" for off rgs tot
    by (induction off rgs tot rule: tiles.induct) auto
  from this[OF t] have "unat tot = sum_list (map (\<lambda>(f, i, o1, n). n) rgs)"
    by simp
  moreover
  have "map (\<lambda>(f, i, o1, n). (f, i)) (lay off xs) = map (\<lambda>(f, i, rows). (f, i)) xs" for off xs
    by (induction off xs rule: lay.induct) auto
  then have "map (\<lambda>(f, i, o1, n). (f, i)) rgs = map (\<lambda>(f, i, rows). (f, i)) (in_window g0 g1 0 (flat_rgs fs))"
    using assms(1) by (auto simp: window_lay)
  ultimately show ?thesis
    using t by blast
qed

definition rows_set :: "i64 list \<Rightarrow> file_set" where
  "rows_set rows = \<lparr>fs_srcs = [\<lparr>src_path = [], src_orig = [],
     src_md = \<lparr>ft_schema = ([], []), ft_leaves = [], ft_roots = [], ft_rgs = map (\<lambda>n. \<lparr>rg_num_rows = n, rg_cols = []\<rparr>) rows,
       ft_rows = sum_i64 rows\<rparr>,
     src_rg_rows = rows, src_leaf = []\<rparr>], fs_names = [], fs_lts = []\<rparr>"

lemma rows_set_flat: "flat_rgs (rows_set rows) = map (\<lambda>(i, n). (0, i, n)) (enumerate 0 rows)"
  by (simp add: flat_rgs_def rows_set_def)

theorem window_tiles_result_witness:
  "tiles 0 [(0, 1, 0, 7), (0, 2, 7, 2)] (unat (9 :: u64))"
proof -
  have "window (rows_set [5, 7, 2, 4]) 1 3 = ([(0, 1, 0, 7), (0, 2, 7, 2)], 9)"
    by (simp add: window_def rows_set_flat window_step_def)
  moreover have "true_total (in_window 1 3 0 (flat_rgs (rows_set [5, 7, 2, 4]))) < 2 ^ 64"
    by (simp add: rows_set_flat true_total_def)
  ultimately show ?thesis
    using window_tiles_result by blast
qed

text \<open>
  The bound of that property is a real one. A footer that declares row groups of
  \<open>2 ^ 63 - 1\<close>, \<open>2 ^ 63 - 1\<close> and \<open>3\<close> rows and a file total of \<open>1\<close> row passes the check that the
  two counts agree; the running total of the window wraps to \<open>1\<close>, so the result is sized to
  one row, the guard on \<open>2 ^ 31\<close> rows does not fire, and the second row group is laid out far
  past the end.
\<close>

theorem window_total_wraps:
  "let rows = [0x7FFFFFFFFFFFFFFF, 0x7FFFFFFFFFFFFFFF, 3] in
     ft_rows (src_md (hd (fs_srcs (rows_set rows)))) = 1 \<and> list_all (\<lambda>n. 0 < sint n) rows \<and>
     window (rows_set rows) 0 3 =
       ([(0, 0, 0, 0x7FFFFFFFFFFFFFFF), (0, 1, 0x7FFFFFFFFFFFFFFF, 0x7FFFFFFFFFFFFFFF), (0, 2, 0xFFFFFFFFFFFFFFFE, 3)], 1)"
  by (simp add: window_def rows_set_flat window_step_def Let_def) (simp add: rows_set_def sum_i64_def)

end
