(* ===== verification/DecodeOk.thy ===== *)
theory DecodeOk
  imports Window
begin

text \<open>
  Correctness of the decode pool: when \<^verbatim>\<open>decode\<close> answers without an error,
  every result column holds, row group by row group, what the file says, whatever the
  number of workers and their interleaving. An environment collects one call's arguments
  with what the crate's readers deliver; \<open>env_ok\<close> states what they promise.
\<close>

section \<open>The environment of a call\<close>

record 'st env =
  en_so :: "'st store"
  en_h :: host
  en_fs :: file_set
  en_sl :: sel
  en_parts :: "part list"
  en_cds :: "codes option list"
  en_who :: string
  en_tot :: nat
  en_plan :: "arc \<Rightarrow> codes"
  en_mdef :: "'st \<Rightarrow> i16"
  en_rest :: "'st \<Rightarrow> chunk_rows"
  en_chunk :: "src \<Rightarrow> nat \<Rightarrow> nat \<Rightarrow> chunk_rows"
  en_acol :: "src \<Rightarrow> nat \<Rightarrow> nat \<Rightarrow> int \<Rightarrow> cell list"

abbreviation img_of :: "'st env \<Rightarrow> int \<Rightarrow> arr \<Rightarrow> payload result" where
  "img_of E lt a \<equiv> image (h_intern (en_h E)) (h_deref (en_h E)) (h_cast (en_h E)) lt a"

text \<open>
  How a cell of result column \<open>q\<close> is read back: itself, or through the column's dictionary.
\<close>

fun code_of :: "cell \<Rightarrow> nat" where
  "code_of (C8 b) = unat b"
| "code_of (C16 h) = nat (sint h)"
| "code_of (C32 i) = nat (sint i)"
| "code_of c = 0"

definition read_cell :: "'st env \<Rightarrow> nat \<Rightarrow> cell \<Rightarrow> cell" where
  "read_cell E q c = (case en_cds E ! q of None \<Rightarrow> c
     | Some cd \<Rightarrow> CSym (sym_at (h_intern (en_h E)) (cd_d cd) (code_of c)))"

definition col_cells :: "'st env \<Rightarrow> shared \<Rightarrow> nat \<Rightarrow> cell list" where
  "col_cells E sh q = map (read_cell E q) (pay_cells (fst sh ! q))"

definition n_cols :: "'st env \<Rightarrow> nat" where
  "n_cols E = length (sel_out (en_sl E))"

text \<open>
  The batches of one row group: columns in the order of the projection, each row counted
  once, never more rows than the footer says; a column's content does not depend on the
  projection it is read with, and its dictionaries belong to that column.
\<close>

definition delivers :: "'st env \<Rightarrow> src \<Rightarrow> nat \<Rightarrow> nat list \<Rightarrow> (arr list \<times> nat) list \<Rightarrow> bool" where
  "delivers E s g msk xs \<longleftrightarrow>
     sum_list (map snd xs) \<le> unat (src_rg_rows s ! g) \<and>
     (\<forall>(b, n) \<in> set xs. length b = length msk \<and>
        (\<forall>i < length msk. arr_ok (b ! i) \<and> arr_len (h_deref (en_h E)) (b ! i) = n \<and>
           (\<forall>q cd dt a. q < n_cols E \<longrightarrow> sel_out (en_sl E) ! q = msk ! i \<longrightarrow> en_cds E ! q = Some cd \<longrightarrow>
              b ! i = ArrDict dt a \<longrightarrow> en_plan E (da_values a) = cd))) \<and>
     (\<forall>i < length msk. \<forall>lt imgs. mapR (\<lambda>(b, n). img_of E lt (b ! i)) xs = Inr imgs \<longrightarrow>
        concat (map pay_cells imgs) = en_acol E s g (msk ! i) lt)"

definition batches_ok :: "'st env \<Rightarrow> bool" where
  "batches_ok E \<longleftrightarrow> (\<forall>s g msk xs.
     so_batches (en_so E) s g msk = Inr (map Inr xs) \<longrightarrow> delivers E s g msk xs)"

definition plans_ok :: "'st env \<Rightarrow> bool" where
  "plans_ok E \<longleftrightarrow> length (en_cds E) = n_cols E \<and>
     (\<forall>q < n_cols E. \<forall>cd. en_cds E ! q = Some cd \<longrightarrow>
        sel_lts (en_sl E) ! q = KS \<and> sel_raw (en_sl E) ! q = None \<and> small_plan cd \<and> (\<exists>ks. plan_keys (h_intern (en_h E)) ks cd))"

definition env_ok :: "'st env \<Rightarrow> bool" where
  "env_ok E \<longleftrightarrow>
     host_ok (h_intern (en_h E)) (h_rd (en_h E)) \<and> cast_ok (h_deref (en_h E)) (h_cast (en_h E)) \<and>
     cr_ok (so_cols (en_so E)) (en_mdef E) (en_rest E) (en_chunk E) \<and> batches_ok E \<and> plans_ok E \<and>
     list_all (\<lambda>p. part_ok (en_fs E) (en_sl E) p \<and> distinct (pt_raw p @ pt_outs p)) (en_parts E)"

definition good_cache :: "'st env \<Rightarrow> sym_cache \<Rightarrow> bool" where
  "good_cache E sy \<longleftrightarrow> sc_inv (h_intern (en_h E)) (h_deref (en_h E)) sy \<and> luts_inv (h_deref (en_h E)) (en_plan E) sy"

definition shared_ok :: "'st env \<Rightarrow> shared \<Rightarrow> bool" where
  "shared_ok E sh \<longleftrightarrow> length (fst sh) = n_cols E \<and> length (snd sh) = n_cols E \<and>
     (\<forall>q < n_cols E. payload_len (fst sh ! q) = en_tot E \<and>
        (\<forall>cd. en_cds E ! q = Some cd \<longrightarrow> payload_for (cd_lt cd) (fst sh ! q)) \<and>
        (en_cds E ! q = None \<longrightarrow> payload_for (sel_lts (en_sl E) ! q) (fst sh ! q)) \<and>
        (en_cds E ! q = None \<longrightarrow> \<not> snd sh ! q))"

section \<open>One column of one batch\<close>

lemma code_vec_cells: "payload_for lt p \<Longrightarrow> lt \<in> {KG, KH, KI} \<Longrightarrow> code_vec p = map code_of (pay_cells p)"
  by (cases p) (auto simp: payload_for_def code_vec_def)

lemma length_code_vec: "payload_for lt p \<Longrightarrow> lt \<in> {KG, KH, KI} \<Longrightarrow> length (code_vec p) = payload_len p"
  by (cases p) (auto simp: payload_for_def code_vec_def)

lemma sc_lut_keeps: "sc_lut deref a cd sy = Inr (t, sy') \<Longrightarrow> sc_inv intern deref sy \<Longrightarrow> sc_inv intern deref sy'"
  by (auto simp: sc_lut_def sc_inv_def result_simps Let_def split: option.splits)

lemma fill_codes_lut:
  "fill_codes deref a cd col off sy = Inr (col', sy', give) \<Longrightarrow>
     \<exists>t. sc_lut deref (da_values a) cd sy = Inr (t, sy')"
  by (auto simp: fill_codes_def result_simps split: option.splits)

text \<open>A batch column either gives its column up or writes its image, as the column is read back.\<close>

definition wrote :: "'st env \<Rightarrow> nat \<Rightarrow> nat \<Rightarrow> arr \<Rightarrow> shared \<Rightarrow> shared \<Rightarrow> bool" where
  "wrote E q off a sh sh' \<longleftrightarrow>
     snd sh' ! q \<or>
     (\<exists>img. img_of E (sel_lts (en_sl E) ! q) a = Inr img \<and> payload_len img = arr_len (h_deref (en_h E)) a \<and>
        col_cells E sh' q = write_at off (pay_cells img) (col_cells E sh q))"

definition same_but :: "nat set \<Rightarrow> shared \<Rightarrow> shared \<Rightarrow> bool" where
  "same_but Q sh sh' \<longleftrightarrow> (\<forall>q. q \<notin> Q \<longrightarrow> fst sh' ! q = fst sh ! q \<and> snd sh' ! q = snd sh ! q) \<and>
     (\<forall>q < length (snd sh). snd sh ! q \<longrightarrow> snd sh' ! q)"

lemma codes_image:
  assumes env: "env_ok E" and q: "q < n_cols E" "en_cds E ! q = Some cd"
    and own: "en_plan E (da_values a) = cd" and a: "dict_ok a"
    and fit: "off + length (da_keys a) \<le> payload_len col" and col: "payload_for (cd_lt cd) col"
    and good: "good_cache E sy"
    and run: "fill_codes (h_deref (en_h E)) a cd col off sy = Inr (col', sy', give)"
  shows "good_cache E sy' \<and> payload_for (cd_lt cd) col' \<and> payload_len col' = payload_len col \<and>
    (give \<or> (\<exists>img. img_of E KS (ArrDict dt a) = Inr img \<and> payload_len img = length (da_keys a) \<and>
       map (read_cell E q) (pay_cells col') = write_at off (pay_cells img) (map (read_cell E q) (pay_cells col))))"
proof -
  let ?in = "h_intern (en_h E)" and ?de = "h_deref (en_h E)"
  obtain ks where plan: "plan_keys ?in ks cd" "small_plan cd"
    using env q by (auto simp: env_ok_def plans_ok_def)
  have luts: "luts_inv ?de (en_plan E) sy"
    using good by (simp add: good_cache_def)
  obtain t where t: "sc_lut ?de (da_values a) (en_plan E (da_values a)) sy = Inr (t, sy')"
    using fill_codes_lut[OF run] own by auto
  obtain sa where sa: "?de (da_values a) = Inr sa"
    using sc_lut_correct[OF luts t] by (auto simp: lut_entry_ok_def)
  have inv: "sc_inv ?in ?de sy'"
    using good by (intro sc_lut_keeps[OF t]) (simp add: good_cache_def)
  note rows = fill_codes_rows[where plan_of = "en_plan E", OF plan[folded own] col[folded own] a sa fit luts run[folded own]]
  have lt: "cd_lt cd \<in> {KG, KH, KI}"
    unfolding plan_fits(1)[OF plan] by (rule codes_width_values)
  have col': "payload_for (cd_lt cd) col'" "payload_len col' = payload_len col"
    using rows(4) own by auto
  have "map (read_cell E q) (pay_cells col') =
      write_at off (map (\<lambda>i. CSym (sym_of ?in (dict_row sa a i))) [0..<length (da_keys a)])
        (map (read_cell E q) (pay_cells col))" (is "?l = ?r") if "\<not> give"
  proof (rule nth_equalityI)
    show "length ?l = length ?r"
      using fit col' by simp
  next
    fix j
    assume "j < length ?l"
    then have j: "j < payload_len col"
      using col' by simp
    have c: "code_vec col' ! j = code_of (pay_cells col' ! j)" "code_vec col ! j = code_of (pay_cells col ! j)"
      using j col' by (simp_all add: code_vec_cells[OF col'(1) lt] code_vec_cells[OF col lt])
    show "?l ! j = ?r ! j"
      using rows(5)[OF that j] own j col' fit c q
      by (auto simp: write_at_nth read_cell_def split: if_splits)
  qed
  then show ?thesis
    using rows(1) inv col' sa by (auto simp: good_cache_def image_def o_def)
qed

lemma read_cell_plain: "en_cds E ! q = None \<Longrightarrow> read_cell E q = (\<lambda>c. c)"
  by (simp add: read_cell_def fun_eq_iff)

lemma sym_codes_cases:
  assumes "sym_codes deref a cd col off sy = Inr (col', sy', give)"
  obtains (give) "give" "col' = col" "sy' = sy"
    | (dict) dt d where "a = ArrDict dt d" "fill_codes deref d cd col off sy = Inr (col', sy', give)"
  using assms by (auto simp: sym_codes_def split: data_type.splits if_splits arr.splits)

lemma batch_col_wrote:
  assumes env: "env_ok E" and q: "q < n_cols E" and ok: "shared_ok E sh" and good: "good_cache E sy"
    and a: "arr_ok (b ! bi)" and fit: "off + arr_len (h_deref (en_h E)) (b ! bi) \<le> en_tot E"
    and own: "\<And>cd dt d. en_cds E ! q = Some cd \<Longrightarrow> b ! bi = ArrDict dt d \<Longrightarrow> en_plan E (da_values d) = cd"
    and run: "batch_col (en_h E) (en_sl E) (en_cds E) off b (sh, sy) (bi, q) = Inr (sh', sy')"
  shows "shared_ok E sh' \<and> good_cache E sy' \<and> same_but {q} sh sh' \<and> wrote E q off (b ! bi) sh sh'"
proof (cases "en_cds E ! q")
  case None
  obtain col' where fc: "fill_col (h_intern (en_h E)) (h_rd (en_h E)) (h_deref (en_h E)) (h_cast (en_h E))
        (sel_lts (en_sl E) ! q) (fst sh ! q) off (b ! bi) sy = Inr (col', sy')"
      and sh': "sh' = ((fst sh)[q := col'], snd sh)"
    using run None by (auto simp: batch_col_def result_simps split: prod.splits)
  have "col_written (h_intern (en_h E)) (h_deref (en_h E)) off (b ! bi)
      (img_of E (sel_lts (en_sl E) ! q) (b ! bi)) (fst sh ! q) col' \<and>
      sc_inv (h_intern (en_h E)) (h_deref (en_h E)) sy' \<and> sc_luts sy' = sc_luts sy"
    using env good ok q fit
    by (intro fill_col_image[OF fc a]) (auto simp: env_ok_def good_cache_def shared_ok_def)
  moreover from this obtain v where v: "img_of E (sel_lts (en_sl E) ! q) (b ! bi) = Inr v"
      "payload_len v = arr_len (h_deref (en_h E)) (b ! bi)" "pay_kind v = pay_kind (fst sh ! q)"
      "col' = pay_write off v (fst sh ! q)"
    by (auto simp: col_written_def)
  moreover have "payload_len col' = payload_len (fst sh ! q)"
    using v fit ok q length_pay_cells[of col'] by (simp add: pay_cells_write shared_ok_def del: length_pay_cells) (simp add: shared_ok_def)
  moreover have "payload_for (sel_lts (en_sl E) ! q) col'"
    using ok q None v(4) payload_for_kind[of col' "fst sh ! q"] by (simp add: shared_ok_def)
  ultimately show ?thesis
    using ok q good None sh'
    by (auto simp: shared_ok_def good_cache_def luts_inv_def same_but_def wrote_def col_cells_def
        nth_list_update pay_cells_write map_write_at read_cell_plain)
next
  case (Some cd)
  then have lt: "sel_lts (en_sl E) ! q = KS"
    using env q by (auto simp: env_ok_def plans_ok_def)
  obtain col' give where sc: "sym_codes (h_deref (en_h E)) (b ! bi) cd (fst sh ! q) off sy = Inr (col', sy', give)"
      and sh': "sh' = ((fst sh)[q := col'], (snd sh)[q := snd sh ! q \<or> give])"
    using run Some by (auto simp: batch_col_def result_simps split: prod.splits)
  from sc show ?thesis
  proof (cases rule: sym_codes_cases)
    case give
    then show ?thesis
      using ok q good sh' Some by (auto simp: shared_ok_def same_but_def wrote_def nth_list_update)
  next
    case (dict dt d)
    have "good_cache E sy' \<and> payload_for (cd_lt cd) col' \<and> payload_len col' = payload_len (fst sh ! q) \<and>
      (give \<or> (\<exists>img. img_of E KS (ArrDict dt d) = Inr img \<and> payload_len img = length (da_keys d) \<and>
         map (read_cell E q) (pay_cells col') = write_at off (pay_cells img) (map (read_cell E q) (pay_cells (fst sh ! q)))))"
      using a fit ok q Some dict own[OF Some dict(1)] good
      by (intro codes_image[OF env q Some _ _ _ _ _ dict(2)]) (auto simp: shared_ok_def)
    then show ?thesis
      using ok q Some sh' dict lt
      by (auto simp: shared_ok_def same_but_def wrote_def col_cells_def nth_list_update)
  qed
qed

section \<open>One batch\<close>

lemma same_butD: "same_but Q sh sh' \<Longrightarrow> q \<notin> Q \<Longrightarrow> col_cells E sh' q = col_cells E sh q \<and> snd sh' ! q = snd sh ! q"
  by (simp add: same_but_def col_cells_def)

lemma same_but_trans:
  "same_but P a b \<Longrightarrow> same_but Q b c \<Longrightarrow> length (snd b) = length (snd a) \<Longrightarrow> same_but (P \<union> Q) a c"
  by (auto simp: same_but_def)

lemma wrote_cong:
  "wrote E q off a sh sh' \<Longrightarrow> col_cells E sh0 q = col_cells E sh q \<Longrightarrow> col_cells E sh1 q = col_cells E sh' q \<Longrightarrow>
     snd sh1 ! q = snd sh' ! q \<Longrightarrow> wrote E q off a sh0 sh1"
  by (simp add: wrote_def)

definition batch_fits :: "'st env \<Rightarrow> nat \<Rightarrow> arr list \<Rightarrow> nat \<times> nat \<Rightarrow> bool" where
  "batch_fits E off b x \<longleftrightarrow> snd x < n_cols E \<and> arr_ok (b ! fst x) \<and>
     off + arr_len (h_deref (en_h E)) (b ! fst x) \<le> en_tot E \<and>
     (\<forall>cd dt d. en_cds E ! snd x = Some cd \<longrightarrow> b ! fst x = ArrDict dt d \<longrightarrow> en_plan E (da_values d) = cd)"

lemma batch_cols_wrote:
  assumes env: "env_ok E" and run: "foldR (batch_col (en_h E) (en_sl E) (en_cds E) off b) (sh, sy) xs = Inr (sh', sy')"
    and fits: "\<forall>x \<in> set xs. batch_fits E off b x" and dist: "distinct (map snd xs)"
    and ok: "shared_ok E sh" and good: "good_cache E sy"
  shows "shared_ok E sh' \<and> good_cache E sy' \<and> same_but (snd ` set xs) sh sh' \<and>
    (\<forall>(bi, q) \<in> set xs. wrote E q off (b ! bi) sh sh')"
  using run fits dist ok good
proof (induction xs arbitrary: sh sy)
  case Nil
  then show ?case by (simp add: same_but_def)
next
  case (Cons x xs)
  obtain bi q where x: "x = (bi, q)"
    by (cases x)
  obtain sh1 sy1 where one: "batch_col (en_h E) (en_sl E) (en_cds E) off b (sh, sy) (bi, q) = Inr (sh1, sy1)"
      and rest: "foldR (batch_col (en_h E) (en_sl E) (en_cds E) off b) (sh1, sy1) xs = Inr (sh', sy')"
    using Cons.prems(1) by (auto simp: x result_simps)
  have head: "shared_ok E sh1 \<and> good_cache E sy1 \<and> same_but {q} sh sh1 \<and> wrote E q off (b ! bi) sh sh1"
    using Cons.prems(2,4,5) by (intro batch_col_wrote[OF env _ _ _ _ _ _ one]) (auto simp: x batch_fits_def)
  have tail: "shared_ok E sh' \<and> good_cache E sy' \<and> same_but (snd ` set xs) sh1 sh' \<and>
      (\<forall>(bi, q) \<in> set xs. wrote E q off (b ! bi) sh1 sh')"
    using Cons.prems(2,3) head by (intro Cons.IH[OF rest]) auto
  have new: "q \<notin> snd ` set xs"
    using Cons.prems(3) x by simp
  have "same_but (insert q (snd ` set xs)) sh sh'"
    using same_but_trans[of "{q}" sh sh1 "snd ` set xs" sh'] head tail Cons.prems(4) by (simp add: shared_ok_def)
  moreover have "wrote E q off (b ! bi) sh sh'"
    using head same_butD[OF conjunct1[OF conjunct2[OF conjunct2[OF tail]]] new, of E]
      wrote_cong[of E q off "b ! bi" sh sh1 sh sh']
    by simp
  moreover have "wrote E p off (b ! bj) sh sh'" if "(bj, p) \<in> set xs" for bj p
  proof -
    have "p \<notin> {q}"
      using that new by force
    then have "col_cells E sh1 p = col_cells E sh p"
      using same_butD[of "{q}" sh sh1 p E] head by simp
    moreover have "wrote E p off (b ! bj) sh1 sh'"
      using tail that by auto
    ultimately show ?thesis
      using wrote_cong[of E p off "b ! bj" sh1 sh' sh sh'] by simp
  qed
  ultimately show ?case
    using tail by (auto simp: x)
qed

section \<open>All the batches of a task\<close>

text \<open>
  What a run of batches leaves in column \<open>q\<close>: nothing to say once it was given up, else the
  images one behind the other.
\<close>

definition wrote_all :: "'st env \<Rightarrow> nat \<Rightarrow> nat \<Rightarrow> arr list \<Rightarrow> shared \<Rightarrow> shared \<Rightarrow> bool" where
  "wrote_all E q off as sh sh' \<longleftrightarrow>
     snd sh' ! q \<or>
     (\<exists>imgs. mapR (img_of E (sel_lts (en_sl E) ! q)) as = Inr imgs \<and>
        length (concat (map pay_cells imgs)) = sum_list (map (arr_len (h_deref (en_h E))) as) \<and>
        col_cells E sh' q = write_at off (concat (map pay_cells imgs)) (col_cells E sh q))"

lemma wrote_all_Nil: "wrote_all E q off [] sh sh"
  by (simp add: wrote_all_def write_at_def)

lemma length_col_cells: "shared_ok E sh \<Longrightarrow> q < n_cols E \<Longrightarrow> length (col_cells E sh q) = en_tot E"
  by (simp add: col_cells_def shared_ok_def)

lemma wrote_all_Cons:
  assumes "wrote E q off a sh sh1" "wrote_all E q (off + arr_len (h_deref (en_h E)) a) as sh1 sh2"
    and "snd sh1 ! q \<Longrightarrow> snd sh2 ! q"
    and "off + arr_len (h_deref (en_h E)) a + sum_list (map (arr_len (h_deref (en_h E))) as) \<le> length (col_cells E sh q)"
  shows "wrote_all E q off (a # as) sh sh2"
proof (cases "snd sh2 ! q")
  case True
  then show ?thesis by (simp add: wrote_all_def)
next
  case False
  with assms obtain img imgs where "img_of E (sel_lts (en_sl E) ! q) a = Inr img"
      "payload_len img = arr_len (h_deref (en_h E)) a"
      "col_cells E sh1 q = write_at off (pay_cells img) (col_cells E sh q)"
      "mapR (img_of E (sel_lts (en_sl E) ! q)) as = Inr imgs"
      "length (concat (map pay_cells imgs)) = sum_list (map (arr_len (h_deref (en_h E))) as)"
      "col_cells E sh2 q = write_at (off + arr_len (h_deref (en_h E)) a) (concat (map pay_cells imgs)) (col_cells E sh1 q)"
    by (auto simp: wrote_def wrote_all_def)
  note x = this
  have "mapR (img_of E (sel_lts (en_sl E) ! q)) (a # as) = Inr (img # imgs)"
    using x(1,4) by simp
  moreover have "length (concat (map pay_cells (img # imgs))) = sum_list (map (arr_len (h_deref (en_h E))) (a # as))"
    using x(2,5) by simp
  moreover have "col_cells E sh2 q = write_at off (concat (map pay_cells (img # imgs))) (col_cells E sh q)"
    unfolding x(6,3) x(2)[symmetric] length_pay_cells[symmetric]
    using x(2,5) assms(4) by (subst write_at_append) simp_all
  ultimately show ?thesis
    unfolding wrote_all_def by blast
qed

definition part_batch :: "'st env \<Rightarrow> part \<Rightarrow> arr list \<times> nat \<Rightarrow> bool" where
  "part_batch E p x \<longleftrightarrow> (\<forall>i < length (pt_outs p).
     arr_ok (fst x ! (pt_bat p ! i)) \<and> arr_len (h_deref (en_h E)) (fst x ! (pt_bat p ! i)) = snd x \<and>
     (\<forall>cd dt d. en_cds E ! (pt_outs p ! i) = Some cd \<longrightarrow> fst x ! (pt_bat p ! i) = ArrDict dt d \<longrightarrow>
        en_plan E (da_values d) = cd))"

definition part_cols :: "'st env \<Rightarrow> part \<Rightarrow> bool" where
  "part_cols E p \<longleftrightarrow> length (pt_bat p) = length (pt_outs p) \<and> distinct (pt_outs p) \<and>
     (\<forall>q \<in> set (pt_outs p). q < n_cols E)"

lemma one_batch_wrote:
  assumes env: "env_ok E" and p: "part_cols E p" and x: "part_batch E p (b, n)" and fit: "off + n \<le> en_tot E"
    and ok: "shared_ok E sh" and good: "good_cache E sy"
    and run: "one_batch (en_h E) (en_sl E) (en_cds E) p (en_who E) (off, sh, sy) (Inr (b, n)) = Inr (off', sh', sy')"
  shows "off' = off + n \<and> shared_ok E sh' \<and> good_cache E sy' \<and> same_but (set (pt_outs p)) sh sh' \<and>
    (\<forall>i < length (pt_outs p). wrote E (pt_outs p ! i) off (b ! (pt_bat p ! i)) sh sh')"
proof -
  let ?xs = "zip (pt_bat p) (pt_outs p)"
  have f: "foldR (batch_col (en_h E) (en_sl E) (en_cds E) off b) (sh, sy) ?xs = Inr (sh', sy')" and o: "off' = off + n"
    using run by (auto simp: one_batch_def result_simps)
  have len: "length (pt_bat p) = length (pt_outs p)"
    using p by (simp add: part_cols_def)
  have "\<forall>y \<in> set ?xs. batch_fits E off b y"
  proof
    fix y
    assume "y \<in> set ?xs"
    then obtain i where "i < length (pt_outs p)" "y = (pt_bat p ! i, pt_outs p ! i)"
      using len by (auto simp: in_set_zip)
    then show "batch_fits E off b y"
      using p x fit by (auto simp: batch_fits_def part_batch_def part_cols_def)
  qed
  moreover have "distinct (map snd ?xs)" "snd ` set ?xs = set (pt_outs p)"
    using p len by (simp_all add: part_cols_def flip: set_map)
  ultimately have "shared_ok E sh' \<and> good_cache E sy' \<and> same_but (set (pt_outs p)) sh sh' \<and>
      (\<forall>(bi, q) \<in> set ?xs. wrote E q off (b ! bi) sh sh')"
    using batch_cols_wrote[OF env f _ _ ok good] by simp
  moreover have "(pt_bat p ! i, pt_outs p ! i) \<in> set ?xs" if "i < length (pt_outs p)" for i
    using that len by (auto simp: in_set_zip)
  ultimately show ?thesis
    using o by fast
qed

lemma batches_wrote:
  assumes env: "env_ok E" and p: "part_cols E p"
    and run: "foldR (one_batch (en_h E) (en_sl E) (en_cds E) p (en_who E)) (off, sh, sy) (map Inr xs) = Inr (off', sh', sy')"
    and x: "\<forall>x \<in> set xs. part_batch E p x" and fit: "off + sum_list (map snd xs) \<le> en_tot E"
    and ok: "shared_ok E sh" and good: "good_cache E sy"
  shows "off' = off + sum_list (map snd xs) \<and> shared_ok E sh' \<and> good_cache E sy' \<and> same_but (set (pt_outs p)) sh sh' \<and>
    (\<forall>i < length (pt_outs p). wrote_all E (pt_outs p ! i) off (map (\<lambda>x. fst x ! (pt_bat p ! i)) xs) sh sh')"
  using run x fit ok good
proof (induction xs arbitrary: off sh sy)
  case Nil
  then show ?case by (auto simp: same_but_def wrote_all_Nil)
next
  case (Cons x xs)
  obtain b n where bn: "x = (b, n)"
    by (cases x)
  obtain off1 sh1 sy1 where
      one: "one_batch (en_h E) (en_sl E) (en_cds E) p (en_who E) (off, sh, sy) (Inr (b, n)) = Inr (off1, sh1, sy1)"
      and rest: "foldR (one_batch (en_h E) (en_sl E) (en_cds E) p (en_who E)) (off1, sh1, sy1) (map Inr xs) = Inr (off', sh', sy')"
    using Cons.prems(1) by (auto simp: bn result_simps)
  have head: "off1 = off + n \<and> shared_ok E sh1 \<and> good_cache E sy1 \<and> same_but (set (pt_outs p)) sh sh1 \<and>
      (\<forall>i < length (pt_outs p). wrote E (pt_outs p ! i) off (b ! (pt_bat p ! i)) sh sh1)"
    using Cons.prems(2-5) by (intro one_batch_wrote[OF env p _ _ _ _ one]) (auto simp: bn)
  then have off1: "off1 = off + n" and ok1: "shared_ok E sh1"
    by simp_all
  have tail: "off' = off1 + sum_list (map snd xs) \<and> shared_ok E sh' \<and> good_cache E sy' \<and>
      same_but (set (pt_outs p)) sh1 sh' \<and>
      (\<forall>i < length (pt_outs p). wrote_all E (pt_outs p ! i) off1 (map (\<lambda>x. fst x ! (pt_bat p ! i)) xs) sh1 sh')"
    using Cons.prems(2,3) head by (intro Cons.IH[OF rest]) (auto simp: bn)
  have "wrote_all E (pt_outs p ! i) off (map (\<lambda>x. fst x ! (pt_bat p ! i)) (x # xs)) sh sh'"
    if i: "i < length (pt_outs p)" for i
  proof -
    let ?q = "pt_outs p ! i" and ?as = "map (\<lambda>x. fst x ! (pt_bat p ! i)) xs"
    have q: "?q < n_cols E"
      using p i by (simp add: part_cols_def)
    have n: "arr_len (h_deref (en_h E)) (b ! (pt_bat p ! i)) = n"
      using Cons.prems(2) i by (simp add: bn part_batch_def)
    have as: "map (arr_len (h_deref (en_h E))) ?as = map snd xs"
      using Cons.prems(2) i by (auto simp: part_batch_def)
    have "wrote_all E ?q off (b ! (pt_bat p ! i) # ?as) sh sh'"
    proof (rule wrote_all_Cons)
      show "wrote E ?q off (b ! (pt_bat p ! i)) sh sh1"
        using head i by blast
      show "wrote_all E ?q (off + arr_len (h_deref (en_h E)) (b ! (pt_bat p ! i))) ?as sh1 sh'"
        using tail i unfolding n off1 by blast
      show "snd sh1 ! ?q \<Longrightarrow> snd sh' ! ?q"
        using tail q ok1 by (simp add: same_but_def shared_ok_def)
      show "off + arr_len (h_deref (en_h E)) (b ! (pt_bat p ! i)) + sum_list (map (arr_len (h_deref (en_h E))) ?as)
          \<le> length (col_cells E sh ?q)"
        unfolding n as length_col_cells[OF Cons.prems(4) q] using Cons.prems(3) by (simp add: bn)
    qed
    then show ?thesis
      by (simp add: bn)
  qed
  moreover have "same_but (set (pt_outs p)) sh sh'"
    using same_but_trans[of "set (pt_outs p)" sh sh1 "set (pt_outs p)" sh'] head tail Cons.prems(4)
    by (simp add: shared_ok_def)
  ultimately show ?case
    using tail off1 by (simp add: bn)
qed

section \<open>One task\<close>

definition task_ok :: "'st env \<Rightarrow> task \<Rightarrow> bool" where
  "task_ok E t \<longleftrightarrow> tk_f t < length (fs_srcs (en_fs E)) \<and> tk_p t < length (en_parts E) \<and>
     tk_off t + tk_rows t \<le> en_tot E \<and> tk_rows t = unat (src_rg_rows (fs_srcs (en_fs E) ! tk_f t) ! tk_g t)"

definition owned :: "'st env \<Rightarrow> task \<Rightarrow> nat set" where
  "owned E t = (let p = en_parts E ! tk_p t in set (pt_raw p) \<union> set (pt_outs p))"

text \<open>What the file says the task's rows of column \<open>q\<close> are.\<close>

definition expect_cells :: "'st env \<Rightarrow> task \<Rightarrow> nat \<Rightarrow> cell list" where
  "expect_cells E t q =
    (let s = fs_srcs (en_fs E) ! tk_f t; c = sel_out (en_sl E) ! q; lt = sel_lts (en_sl E) ! q in
     case sel_raw (en_sl E) ! q of
       Some rt \<Rightarrow> take (tk_rows t) (pay_cells (raw_image rt lt (en_chunk E s (tk_g t) (the (leaf_at s c)))))
     | None \<Rightarrow> en_acol E s (tk_g t) c lt)"

definition placed :: "'st env \<Rightarrow> task \<Rightarrow> shared \<Rightarrow> shared \<Rightarrow> nat \<Rightarrow> bool" where
  "placed E t sh sh' q \<longleftrightarrow> snd sh' ! q \<or>
     (length (expect_cells E t q) = tk_rows t \<and>
      col_cells E sh' q = write_at (tk_off t) (expect_cells E t q) (col_cells E sh q))"

definition run_one :: "'st env \<Rightarrow> task \<Rightarrow> sym_cache \<Rightarrow> shared \<Rightarrow> (sym_cache \<times> shared) outcome" where
  "run_one E t sy sh = one (en_so E) (en_h E) (en_fs E) (en_sl E) (en_parts E) (en_cds E) (en_who E) t sy sh"

lemma part_of_task:
  assumes "env_ok E" "task_ok E t"
  shows "part_ok (en_fs E) (en_sl E) (en_parts E ! tk_p t)"
    "distinct (pt_raw (en_parts E ! tk_p t) @ pt_outs (en_parts E ! tk_p t))"
  using assms by (auto simp: env_ok_def task_ok_def list_all_length)

lemma one_raw:
  assumes env: "env_ok E" and t: "task_ok E t" and ok: "shared_ok E sh" and good: "good_cache E sy"
    and raw: "pt_raw (en_parts E ! tk_p t) = [q]" "pt_outs (en_parts E ! tk_p t) = []" "q < n_cols E"
      "sel_raw (en_sl E) ! q \<noteq> None"
    and run: "run_one E t sy sh = Some (Inr (sy', sh'))"
  shows "good_cache E sy' \<and> shared_ok E sh' \<and> same_but {q} sh sh' \<and> placed E t sh sh' q"
proof -
  let ?s = "fs_srcs (en_fs E) ! tk_f t"
  have plain: "en_cds E ! q = None"
    using env raw(3,4) by (cases "en_cds E ! q") (auto simp: env_ok_def plans_ok_def)
  obtain cols where f: "foldO (raw_one (en_so E) ?s (en_sl E) t (en_who E)) (fst sh) [q] = Some (Inr cols)"
      and r: "sy' = sy" "sh' = (cols, snd sh)"
    using run raw(1,2) by (auto simp: run_one_def one_def Let_def result_simps)
  obtain leaf rt col where l: "leaf_at ?s (sel_out (en_sl E) ! q) = Some leaf" "sel_raw (en_sl E) ! q = Some rt"
      and rc: "raw_col (so_cols (en_so E)) ?s (tk_g t) leaf rt (sel_lts (en_sl E) ! q) (fst sh ! q)
        (tk_off t) (tk_rows t) (en_who E) = Some (Inr (col, tk_rows t))"
      and c: "cols = (fst sh)[q := col]"
    using f by (auto simp: raw_one_def result_simps split: option.splits if_splits)
  let ?img = "raw_image rt (sel_lts (en_sl E) ! q) (en_chunk E ?s (tk_g t) leaf)"
  have fit: "tk_off t + tk_rows t \<le> payload_len (fst sh ! q)"
    using ok t raw(3) by (simp add: shared_ok_def task_ok_def)
  have cr: "cr_ok (so_cols (en_so E)) (en_mdef E) (en_rest E) (en_chunk E)"
    using env by (simp add: env_ok_def)
  note img = raw_col_image[OF cr fit rc]
  have ex: "expect_cells E t q = take (tk_rows t) (pay_cells ?img)"
    using l by (simp add: expect_cells_def Let_def)
  have len: "length (expect_cells E t q) = tk_rows t"
    using conjunct1[OF img] by (simp add: ex)
  have cells: "pay_cells col = write_at (tk_off t) (expect_cells E t q) (pay_cells (fst sh ! q))"
    using img by (simp add: ex)
  have "length (pay_cells col) = length (pay_cells (fst sh ! q))"
    unfolding cells using fit len by simp
  then have "payload_len col = payload_len (fst sh ! q)"
    by (simp only: length_pay_cells)
  moreover have "payload_for (sel_lts (en_sl E) ! q) col"
    using ok raw(3) plain img payload_for_kind[of col "fst sh ! q"] by (simp add: shared_ok_def)
  ultimately show ?thesis
    using r c cells len ok good raw(3) plain
    by (auto simp: shared_ok_def same_but_def placed_def col_cells_def nth_list_update read_cell_plain)
qed

lemma foldR_all_Inr:
  assumes "foldR (one_batch h sl cds p who) st bs = Inr r"
  shows "\<exists>xs. bs = map Inr xs"
  using assms
proof (induction bs arbitrary: st)
  case (Cons b bs)
  obtain off sh sy where st: "st = (off, sh, sy)"
    by (cases st)
  from Cons.prems obtain x where "b = Inr x"
    by (cases b) (auto simp: one_batch_def st)
  moreover obtain st' where "foldR (one_batch h sl cds p who) st' bs = Inr r"
    using Cons.prems by (auto simp: result_simps)
  then obtain xs where "bs = map Inr xs"
    using Cons.IH by blast
  ultimately have "b # bs = map Inr (x # xs)"
    by simp
  then show ?case by (rule exI)
qed simp

lemma one_arrow:
  assumes env: "env_ok E" and t: "task_ok E t" and ok: "shared_ok E sh" and good: "good_cache E sy"
    and p: "p = en_parts E ! tk_p t" and arw: "pt_raw p = []"
      "\<forall>q \<in> set (pt_outs p). q < n_cols E \<and> sel_raw (en_sl E) ! q = None"
    and run: "run_one E t sy sh = Some (Inr (sy', sh'))"
  shows "good_cache E sy' \<and> shared_ok E sh' \<and> same_but (set (pt_outs p)) sh sh' \<and>
    (\<forall>q \<in> set (pt_outs p). placed E t sh sh' q)"
proof -
  let ?s = "fs_srcs (en_fs E) ! tk_f t" and ?m = "pt_masks p ! tk_f t"
  have po: "part_ok (en_fs E) (en_sl E) p" "distinct (pt_raw p @ pt_outs p)"
    using part_of_task[OF env t] p by simp_all
  have mask: "?m \<in> set (pt_masks p)" and lens: "length (pt_bat p) = length (pt_outs p)"
    using po(1) arw(1) t by (auto simp: part_ok_def task_ok_def)
  then have at: "pt_bat p ! i < length ?m" "?m ! (pt_bat p ! i) = sel_out (en_sl E) ! (pt_outs p ! i)"
    if "i < length (pt_outs p)" for i
    using po(1) arw(1) that by (auto simp: part_ok_def)
  obtain bs off' where bs: "so_batches (en_so E) ?s (tk_g t) ?m = Inr bs"
      and f: "foldR (one_batch (en_h E) (en_sl E) (en_cds E) p (en_who E)) (tk_off t, sh, sy) bs = Inr (off', sh', sy')"
      and rws: "off' - tk_off t = tk_rows t"
    using run arw(1) by (auto simp: run_one_def one_def p Let_def result_simps split: if_splits)
  obtain xs where xs: "bs = map Inr xs"
    using foldR_all_Inr[OF f] by blast
  have del: "delivers E ?s (tk_g t) ?m xs"
    using env bs unfolding xs env_ok_def batches_ok_def by blast
  have cap: "sum_list (map snd xs) \<le> tk_rows t"
      and each: "\<forall>(b, n) \<in> set xs. length b = length ?m \<and> (\<forall>i < length ?m. arr_ok (b ! i) \<and>
        arr_len (h_deref (en_h E)) (b ! i) = n \<and>
        (\<forall>q cd dt a. q < n_cols E \<longrightarrow> sel_out (en_sl E) ! q = ?m ! i \<longrightarrow> en_cds E ! q = Some cd \<longrightarrow>
           b ! i = ArrDict dt a \<longrightarrow> en_plan E (da_values a) = cd))"
      and content: "\<And>i lt imgs. i < length ?m \<Longrightarrow> mapR (\<lambda>(b, n). img_of E lt (b ! i)) xs = Inr imgs \<Longrightarrow>
        concat (map pay_cells imgs) = en_acol E ?s (tk_g t) (?m ! i) lt"
    using del t unfolding delivers_def task_ok_def by simp_all
  have pb: "\<forall>x \<in> set xs. part_batch E p x"
  proof
    fix x
    assume "x \<in> set xs"
    then have ex: "\<And>i. i < length ?m \<Longrightarrow> arr_ok (fst x ! i) \<and> arr_len (h_deref (en_h E)) (fst x ! i) = snd x \<and>
        (\<forall>q cd dt a. q < n_cols E \<longrightarrow> sel_out (en_sl E) ! q = ?m ! i \<longrightarrow> en_cds E ! q = Some cd \<longrightarrow>
           fst x ! i = ArrDict dt a \<longrightarrow> en_plan E (da_values a) = cd)"
      using each by (cases x) auto
    show "part_batch E p x"
      unfolding part_batch_def
    proof (intro allI impI)
      fix i
      assume i: "i < length (pt_outs p)"
      then have "pt_outs p ! i < n_cols E"
        using arw(2) by simp
      then show "arr_ok (fst x ! (pt_bat p ! i)) \<and> arr_len (h_deref (en_h E)) (fst x ! (pt_bat p ! i)) = snd x \<and>
          (\<forall>cd dt d. en_cds E ! (pt_outs p ! i) = Some cd \<longrightarrow> fst x ! (pt_bat p ! i) = ArrDict dt d \<longrightarrow>
             en_plan E (da_values d) = cd)"
        using ex[OF at(1)[OF i]] at(2)[OF i] by metis
    qed
  qed
  have pc: "part_cols E p"
    using po(2) arw lens by (auto simp: part_cols_def)
  have fit: "tk_off t + sum_list (map snd xs) \<le> en_tot E"
    using t cap by (simp add: task_ok_def)
  note w = batches_wrote[OF env pc f[unfolded xs] pb fit ok good]
  have rows: "sum_list (map snd xs) = tk_rows t"
    using w rws by simp
  have "placed E t sh sh' q" if q: "q \<in> set (pt_outs p)" for q
  proof -
    obtain i where i: "i < length (pt_outs p)" "pt_outs p ! i = q"
      using q by (auto simp: in_set_conv_nth)
    let ?as = "map (\<lambda>x. fst x ! (pt_bat p ! i)) xs"
    have wa: "wrote_all E q (tk_off t) ?as sh sh'"
      using w i by blast
    have lens: "map (arr_len (h_deref (en_h E))) ?as = map snd xs"
      using pb i by (auto simp: part_batch_def)
    show ?thesis
    proof (cases "snd sh' ! q")
      case True
      then show ?thesis by (simp add: placed_def)
    next
      case False
      then obtain imgs where imgs: "mapR (img_of E (sel_lts (en_sl E) ! q)) ?as = Inr imgs"
          "length (concat (map pay_cells imgs)) = sum_list (map (arr_len (h_deref (en_h E))) ?as)"
          "col_cells E sh' q = write_at (tk_off t) (concat (map pay_cells imgs)) (col_cells E sh q)"
        using wa by (auto simp: wrote_all_def)
      have "mapR (\<lambda>(b, n). img_of E (sel_lts (en_sl E) ! q) (b ! (pt_bat p ! i))) xs = Inr imgs"
        using imgs(1) by (simp add: mapR_Inr_iff list_all2_conv_all_nth split_def)
      then have "concat (map pay_cells imgs) = expect_cells E t q"
        using content[OF at(1)[OF i(1)]] at(2)[OF i(1)] i arw(2) q by (auto simp: expect_cells_def Let_def)
      then show ?thesis
        using imgs(2,3) unfolding placed_def lens rows by simp
    qed
  qed
  with w show ?thesis by blast
qed

lemma one_placed:
  assumes env: "env_ok E" and t: "task_ok E t" and ok: "shared_ok E sh" and good: "good_cache E sy"
    and run: "run_one E t sy sh = Some (Inr (sy', sh'))"
  shows "good_cache E sy' \<and> shared_ok E sh' \<and> same_but (owned E t) sh sh' \<and> (\<forall>q \<in> owned E t. placed E t sh sh' q)"
proof -
  let ?p = "en_parts E ! tk_p t"
  from part_of_task(1)[OF env t] consider
      (raw) q where "pt_raw ?p = [q]" "pt_outs ?p = []" "q < n_cols E" "sel_raw (en_sl E) ! q \<noteq> None"
    | (arw) "pt_raw ?p = []" "\<forall>q \<in> set (pt_outs ?p). q < n_cols E \<and> sel_raw (en_sl E) ! q = None"
    by (auto simp: part_ok_def n_cols_def)
  then show ?thesis
  proof cases
    case raw
    then show ?thesis
      using one_raw[OF env t ok good raw run] by (simp add: owned_def Let_def)
  next
    case arw
    then show ?thesis
      using one_arrow[OF env t ok good refl arw run] by (simp add: owned_def Let_def)
  qed
qed

section \<open>All tasks, in any order\<close>

definition apart :: "'st env \<Rightarrow> task \<Rightarrow> task \<Rightarrow> bool" where
  "apart E t u \<longleftrightarrow> owned E t \<inter> owned E u = {} \<or>
     tk_off t + tk_rows t \<le> tk_off u \<or> tk_off u + tk_rows u \<le> tk_off t"

definition run_ok :: "'st env \<Rightarrow> task list \<Rightarrow> bool" where
  "run_ok E tasks \<longleftrightarrow> env_ok E \<and> (\<forall>i < length tasks. task_ok E (tasks ! i)) \<and>
     (\<forall>i < length tasks. \<forall>j < length tasks. i \<noteq> j \<longrightarrow> apart E (tasks ! i) (tasks ! j))"

text \<open>The rows of a task, as column \<open>q\<close> reads them back.\<close>

definition task_cells :: "'st env \<Rightarrow> task \<Rightarrow> shared \<Rightarrow> nat \<Rightarrow> cell list" where
  "task_cells E t sh q = take (tk_rows t) (drop (tk_off t) (col_cells E sh q))"

definition task_done :: "'st env \<Rightarrow> task \<Rightarrow> shared \<Rightarrow> bool" where
  "task_done E t sh \<longleftrightarrow> (\<forall>q \<in> owned E t. snd sh ! q \<or> task_cells E t sh q = expect_cells E t q)"

lemma write_at_slice: "off + length v \<le> length d \<Longrightarrow> take (length v) (drop off (write_at off v d)) = v"
  by (simp add: write_at_def)

lemma write_at_apart:
  assumes "off + length v \<le> length d" "off + length v \<le> o2 \<or> o2 + n \<le> off"
  shows "take n (drop o2 (write_at off v d)) = take n (drop o2 d)"
proof (rule nth_equalityI)
  show "length (take n (drop o2 (write_at off v d))) = length (take n (drop o2 d))"
    using assms(1) by simp
  fix j
  assume "j < length (take n (drop o2 (write_at off v d)))"
  then show "take n (drop o2 (write_at off v d)) ! j = take n (drop o2 d) ! j"
    using assms by (auto simp: write_at_nth)
qed

lemma owned_bound: "env_ok E \<Longrightarrow> task_ok E t \<Longrightarrow> q \<in> owned E t \<Longrightarrow> q < n_cols E"
  using part_of_task(1)[of E t] by (auto simp: owned_def Let_def part_ok_def n_cols_def)

lemma run_one_done:
  assumes env: "env_ok E" and t: "task_ok E t" and ok: "shared_ok E sh" and good: "good_cache E sy"
    and run: "run_one E t sy sh = Some (Inr (sy', sh'))"
  shows "task_done E t sh'"
  unfolding task_done_def
proof
  fix q
  assume q: "q \<in> owned E t"
  have "placed E t sh sh' q"
    using one_placed[OF env t ok good run] q by blast
  moreover have "length (col_cells E sh q) = en_tot E"
    using ok owned_bound[OF env t q] by (rule length_col_cells)
  ultimately show "snd sh' ! q \<or> task_cells E t sh' q = expect_cells E t q"
    using t write_at_slice[of "tk_off t" "expect_cells E t q" "col_cells E sh q"]
    by (auto simp: placed_def task_cells_def task_ok_def)
qed

lemma run_one_stable:
  assumes env: "env_ok E" and t: "task_ok E t" and u: "task_ok E u" and ap: "apart E t u"
    and ok: "shared_ok E sh" and good: "good_cache E sy"
    and run: "run_one E t sy sh = Some (Inr (sy', sh'))" and td: "task_done E u sh"
  shows "task_done E u sh'"
  unfolding task_done_def
proof
  fix q
  assume q: "q \<in> owned E u"
  note p = one_placed[OF env t ok good run]
  have qn: "q < n_cols E"
    using owned_bound[OF env u q] .
  have len: "length (col_cells E sh q) = en_tot E"
    using ok qn by (rule length_col_cells)
  have old: "snd sh ! q \<or> task_cells E u sh q = expect_cells E u q"
    using td q by (simp add: task_done_def)
  have mono: "snd sh ! q \<Longrightarrow> snd sh' ! q"
    using p ok qn by (simp add: same_but_def shared_ok_def)
  show "snd sh' ! q \<or> task_cells E u sh' q = expect_cells E u q"
  proof (cases "q \<in> owned E t")
    case False
    then have "col_cells E sh' q = col_cells E sh q \<and> snd sh' ! q = snd sh ! q"
      using p same_butD by blast
    with old show ?thesis by (simp add: task_cells_def)
  next
    case True
    then have "placed E t sh sh' q"
      using p by blast
    moreover have "tk_off t + tk_rows t \<le> tk_off u \<or> tk_off u + tk_rows u \<le> tk_off t"
      using ap True q by (auto simp: apart_def)
    ultimately show ?thesis
      using old mono t len write_at_apart[of "tk_off t" "expect_cells E t q" "col_cells E sh q" "tk_off u" "tk_rows u"]
      by (auto simp: placed_def task_cells_def task_ok_def)
  qed
qed

abbreviation body_of :: "'st env \<Rightarrow> task list \<Rightarrow> (sym_cache, shared) body" where
  "body_of E tasks \<equiv> decode_body (en_so E) (en_h E) (en_fs E) (en_sl E) (en_parts E) (en_cds E) (en_who E) tasks"

lemma body_run_one: "body_of E tasks i sy sh = run_one E (tasks ! i) sy sh"
  by (simp add: decode_body_def run_one_def)

interpretation decode_work: claimed_work "length tasks" "body_of E tasks" "good_cache E"
    "\<lambda>sh. run_ok E tasks \<and> shared_ok E sh" "\<lambda>i sh. task_done E (tasks ! i) sh"
  for E :: "'st env" and tasks :: "task list"
proof
  fix i sy and sh :: shared and sy' sh'
  assume i: "i < length tasks" "good_cache E sy" "run_ok E tasks \<and> shared_ok E sh"
    and run: "body_of E tasks i sy sh = Some (Inr (sy', sh'))"
  then have env: "env_ok E" "task_ok E (tasks ! i)" and r: "run_one E (tasks ! i) sy sh = Some (Inr (sy', sh'))"
    by (simp_all add: run_ok_def body_run_one)
  show "good_cache E sy' \<and> (run_ok E tasks \<and> shared_ok E sh') \<and> task_done E (tasks ! i) sh'"
    using one_placed[OF env _ i(2) r] run_one_done[OF env _ i(2) r] i(3) by simp
  fix j
  assume j: "j < length tasks" "i \<noteq> j" "task_done E (tasks ! j) sh"
  then show "task_done E (tasks ! j) sh'"
    using i env r by (intro run_one_stable[OF env _ _ _ i(2) r]) (auto simp: run_ok_def)
qed

text \<open>
  The outcome of \<^verbatim>\<open>decode\<close>: when it is not an error, every task's rows are in place.
\<close>

lemma good_cache_new: "good_cache E sc_new"
  by (simp add: good_cache_def sc_new_inv luts_inv_def) (simp add: sc_new_def)

lemma decode_done:
  assumes run: "decode (en_so E) (en_h E) (en_fs E) nthreads (en_sl E) (en_parts E) (en_cds E) tasks (en_who E) sh (Inr sh')"
    and r: "run_ok E tasks" and ok: "shared_ok E sh"
  shows "shared_ok E sh' \<and> (\<forall>i < length tasks. task_done E (tasks ! i) sh')"
  using run
proof (cases rule: decodeE)
  case none
  then show ?thesis using ok by simp
next
  case (run t)
  have ws: "decode_workers nthreads tasks \<noteq> []" "\<forall>l \<in> set (decode_workers nthreads tasks). good_cache E l"
    by (auto simp: decode_workers_def good_cache_new)
  have fine: "ps_err t = None" "\<not> ps_panic t" "ps_shared t = sh'"
    using run(1) by (auto simp: decode_answer_def split: option.splits if_splits)
  show ?thesis
    using decode_work.run_complete[OF run(3,4) ws _ fine(1,2)] r ok fine(3) by simp
qed

end
