(* ===== verification/Read.thy ===== *)
theory Read
  imports DecodeOk
begin

text \<open>
  \<^verbatim>\<open>read\<close> of \<^verbatim>\<open>src/src/read.rs\<close> as a whole: the layout, the plans of the
  symbol columns, the decode, the second reading of the columns that gave their pair up,
  and the value handed to the host. Its correctness is end to end: every row group of the
  window is where the layout puts it, in every result column.
\<close>

section \<open>The operation\<close>

definition one_sel :: "sel \<Rightarrow> nat \<Rightarrow> sel" where
  "one_sel sl p = \<lparr>sel_out = [sel_out sl ! p], sel_lts = [sel_lts sl ! p],
     sel_uniq = [sel_out sl ! p], sel_raw = [None]\<rparr>"

definition gave_up :: "codes option list \<Rightarrow> bool list \<Rightarrow> nat \<Rightarrow> bool" where
  "gave_up cds gives p \<longleftrightarrow> cds ! p \<noteq> None \<and> gives ! p"

text \<open>The columns that gave up, one after the other, each read again as plain symbols.\<close>

inductive reread ::
    "'st store \<Rightarrow> host \<Rightarrow> (int \<Rightarrow> nat \<Rightarrow> payload) \<Rightarrow> file_set \<Rightarrow> nat \<Rightarrow> sel \<Rightarrow> rg list \<Rightarrow> nat \<Rightarrow> string \<Rightarrow> bool list \<Rightarrow>
     nat list \<Rightarrow> payload list \<times> codes option list \<Rightarrow> (payload list \<times> codes option list) result \<Rightarrow> bool"
  for so h ktn fs nthreads sl rgs tot who gives where
  nil: "reread so h ktn fs nthreads sl rgs tot who gives [] st (Inr st)"
| keep: "\<not> gave_up (snd st) gives p \<Longrightarrow> reread so h ktn fs nthreads sl rgs tot who gives ps st r \<Longrightarrow>
    reread so h ktn fs nthreads sl rgs tot who gives (p # ps) st r"
| err: "gave_up (snd st) gives p \<Longrightarrow>
    decode so h fs nthreads (one_sel sl p) (split_sel fs (one_sel sl p) 1) [None] (tasks_of rgs 1) who
      ([ktn KS tot], [False]) (Inl e) \<Longrightarrow>
    reread so h ktn fs nthreads sl rgs tot who gives (p # ps) st (Inl e)"
| again: "gave_up (snd st) gives p \<Longrightarrow>
    decode so h fs nthreads (one_sel sl p) (split_sel fs (one_sel sl p) 1) [None] (tasks_of rgs 1) who
      ([ktn KS tot], [False]) (Inr (ks, gv)) \<Longrightarrow>
    reread so h ktn fs nthreads sl rgs tot who gives ps ((fst st)[p := hd ks], (snd st)[p := None]) r \<Longrightarrow>
    reread so h ktn fs nthreads sl rgs tot who gives (p # ps) st r"

datatype rd_col = RcVec payload | RcPair "ptr list" payload

datatype rd_answer = RdTable "ptr list" "payload list" | RdDict "ptr list" "rd_col list"

definition plans :: "host \<Rightarrow> page_src \<Rightarrow> file_set \<Rightarrow> rg list \<Rightarrow> sel \<Rightarrow> bool \<Rightarrow> string \<Rightarrow> codes option list result" where
  "plans h ps fs rgs sl codes who =
    (if codes then mapR (\<lambda>p. if sel_lts sl ! p = KS
        then codes_plan (h_intern h) ps fs rgs (sel_out sl ! p) who else Inr None) [0..<length (sel_out sl)]
     else Inr (replicate (length (sel_out sl)) None))"

definition col_lt :: "codes option list \<Rightarrow> sel \<Rightarrow> nat \<Rightarrow> int" where
  "col_lt cds sl p = (case cds ! p of Some cd \<Rightarrow> cd_lt cd | None \<Rightarrow> sel_lts sl ! p)"

definition fresh_cols :: "(int \<Rightarrow> nat \<Rightarrow> payload) \<Rightarrow> codes option list \<Rightarrow> sel \<Rightarrow> nat \<Rightarrow> shared" where
  "fresh_cols ktn cds sl tot =
    (map (\<lambda>p. ktn (col_lt cds sl p) tot) [0..<length (sel_out sl)], replicate (length (sel_out sl)) False)"

definition answer :: "host \<Rightarrow> file_set \<Rightarrow> sel \<Rightarrow> bool \<Rightarrow> payload list \<times> codes option list \<Rightarrow> rd_answer" where
  "answer h fs sl codes st =
    (let names = map (\<lambda>c. h_intern h (bytes_of (fs_names fs ! c))) (sel_out sl); (cols, cds) = st in
     if \<not> codes then RdTable names cols
     else RdDict names (map (\<lambda>p. case cds ! p of Some cd \<Rightarrow> RcPair (cd_d cd) (cols ! p) | None \<Rightarrow> RcVec (cols ! p))
       [0..<length (sel_out sl)]))"

definition read_set ::
    "'st store \<Rightarrow> host \<Rightarrow> page_src \<Rightarrow> (int \<Rightarrow> nat \<Rightarrow> payload) \<Rightarrow> nat \<Rightarrow> file_set \<Rightarrow> sel \<Rightarrow> nat \<Rightarrow> nat \<Rightarrow> bool \<Rightarrow>
     string \<Rightarrow> rd_answer result \<Rightarrow> bool" where
  "read_set so h ps ktn nthreads fs sl g0 g1 codes who r \<longleftrightarrow>
    (let (rgs, total) = window fs g0 g1;
         parts = split_sel fs sl (parts_for nthreads sl rgs);
         tasks = tasks_of rgs (length parts);
         tot = unat total
     in if 2 ^ 31 - 1 < tot then r = Inl (who @ '': >2^31 rows'')
        else case plans h ps fs rgs sl codes who of
          Inl e \<Rightarrow> r = Inl e
        | Inr cds \<Rightarrow> \<exists>d. decode so h fs nthreads sl parts cds tasks who (fresh_cols ktn cds sl tot) d \<and>
            (case d of Inl e \<Rightarrow> r = Inl e
             | Inr (cols, gives) \<Rightarrow> \<exists>rr. reread so h ktn fs nthreads sl rgs tot who gives
                   [0..<length (sel_out sl)] (cols, cds) rr \<and>
                 (case rr of Inl e \<Rightarrow> r = Inl e | Inr st \<Rightarrow> r = Inr (answer h fs sl codes st))))"

section \<open>The tasks of a window\<close>

lemma flat_rgs_mem:
  "(f, i, rows) \<in> set (flat_rgs fs) \<Longrightarrow>
     f < length (fs_srcs fs) \<and> i < length (src_rg_rows (fs_srcs fs ! f)) \<and> rows = src_rg_rows (fs_srcs fs ! f) ! i"
  by (auto simp: flat_rgs_def in_set_enumerate_eq)

lemma lay_mem: "(f, i, o1, n) \<in> set (lay off xs) \<Longrightarrow> \<exists>rows. (f, i, rows) \<in> set xs \<and> n = unat rows"
  by (induction off xs rule: lay.induct) auto

lemma in_window_subset: "set (in_window g0 g1 k xs) \<subseteq> set xs"
proof (induction xs arbitrary: k)
  case (Cons x xs)
  then show ?case by (cases x) auto
qed simp

lemma window_mem:
  assumes "window fs g0 g1 = (rgs, tot)" "(f, i, o1, n) \<in> set rgs"
  shows "f < length (fs_srcs fs) \<and> i < length (src_rg_rows (fs_srcs fs ! f)) \<and>
    n = unat (src_rg_rows (fs_srcs fs ! f) ! i)"
proof -
  have "(f, i, o1, n) \<in> set (lay 0 (in_window g0 g1 0 (flat_rgs fs)))"
    using assms by (simp add: window_lay)
  then obtain rows where "(f, i, rows) \<in> set (in_window g0 g1 0 (flat_rgs fs))" "n = unat rows"
    using lay_mem by blast
  then show ?thesis
    using flat_rgs_mem in_window_subset by blast
qed

lemma tasks_of_mem:
  "t \<in> set (tasks_of rgs np) \<longleftrightarrow>
     (\<exists>f g off rows p. (f, g, off, rows) \<in> set rgs \<and> p < np \<and>
        t = \<lparr>tk_f = f, tk_g = g, tk_off = off, tk_rows = rows, tk_p = p\<rparr>)"
  by (fastforce simp: tasks_of_def)

lemma distinct_concat_disjoint: "distinct (concat xss) \<Longrightarrow> sorted_wrt (\<lambda>a b. set a \<inter> set b = {}) xss"
  by (induction xss) auto

text \<open>Two tasks of a window never write the same cell of the same column.\<close>

definition parts_apart :: "'st env \<Rightarrow> bool" where
  "parts_apart E \<longleftrightarrow> (\<forall>i < length (en_parts E). \<forall>j < length (en_parts E). i \<noteq> j \<longrightarrow>
     (set (pt_raw (en_parts E ! i)) \<union> set (pt_outs (en_parts E ! i))) \<inter>
     (set (pt_raw (en_parts E ! j)) \<union> set (pt_outs (en_parts E ! j))) = {})"

lemma tasks_apart:
  assumes "tiles off rgs tot" "parts_apart E" "np \<le> length (en_parts E)"
  shows "sorted_wrt (apart E) (tasks_of rgs np)"
  using assms(1)
proof (induction off rgs tot rule: tiles.induct)
  case (1 off tot)
  then show ?case by (simp add: tasks_of_def)
next
  case (2 off f g o1 rows rgs tot)
  let ?mk = "\<lambda>p. \<lparr>tk_f = f, tk_g = g, tk_off = o1, tk_rows = rows, tk_p = p\<rparr>"
  have eq: "tasks_of ((f, g, o1, rows) # rgs) np = map ?mk [0..<np] @ tasks_of rgs np"
    by (simp add: tasks_of_def)
  have "sorted_wrt (apart E) (map ?mk [0..<np])"
    using assms(2,3) by (auto simp: sorted_wrt_iff_nth_less apart_def owned_def Let_def parts_apart_def)
  moreover have "apart E t u" if tu: "t \<in> set (map ?mk [0..<np])" "u \<in> set (tasks_of rgs np)" for t u
  proof -
    obtain f' g' o2 r2 p where "(f', g', o2, r2) \<in> set rgs"
        "u = \<lparr>tk_f = f', tk_g = g', tk_off = o2, tk_rows = r2, tk_p = p\<rparr>"
      using tu(2) by (auto simp: tasks_of_mem)
    then show ?thesis
      using tu(1) tiles_bounds[of "off + rows" rgs tot] "2.prems" by (fastforce simp: apart_def)
  qed
  ultimately show ?case
    unfolding eq sorted_wrt_append using 2 by auto
qed

lemma apart_sym: "apart E t u \<Longrightarrow> apart E u t"
  by (auto simp: apart_def)

lemma window_run_ok:
  assumes env: "env_ok E" and w: "window (en_fs E) g0 g1 = (rgs, tw)" and til: "tiles 0 rgs (unat tw)"
    and tot: "en_tot E = unat tw" and ap: "parts_apart E"
  shows "run_ok E (tasks_of rgs (length (en_parts E)))"
proof -
  let ?ts = "tasks_of rgs (length (en_parts E))"
  have "task_ok E t" if t: "t \<in> set ?ts" for t
  proof -
    obtain f g off rows p where x: "(f, g, off, rows) \<in> set rgs" "p < length (en_parts E)"
        "t = \<lparr>tk_f = f, tk_g = g, tk_off = off, tk_rows = rows, tk_p = p\<rparr>"
      using t by (auto simp: tasks_of_mem)
    with window_mem[OF w x(1)] tiles_bounds[OF til x(1)] tot show ?thesis
      by (simp add: task_ok_def)
  qed
  moreover have "apart E (?ts ! i) (?ts ! j)" if "i < length ?ts" "j < length ?ts" "i \<noteq> j" for i j
    using tasks_apart[OF til ap order_refl] that apart_sym
    by (metis linorder_neqE_nat sorted_wrt_nth_less)
  ultimately show ?thesis
    using env by (auto simp: run_ok_def)
qed

section \<open>What the files hold\<close>

text \<open>
  A world is what the crate's readers deliver: the records of a column chunk for the
  zero-copy path, the cells of a column of a row group for the Arrow path, and the column
  each dictionary array belongs to.
\<close>

record 'st world =
  wd_mdef :: "'st \<Rightarrow> i16"
  wd_rest :: "'st \<Rightarrow> chunk_rows"
  wd_chunk :: "src \<Rightarrow> nat \<Rightarrow> nat \<Rightarrow> chunk_rows"
  wd_acol :: "src \<Rightarrow> nat \<Rightarrow> nat \<Rightarrow> int \<Rightarrow> cell list"
  wd_owner :: "arc \<Rightarrow> nat"

definition world_batches :: "host \<Rightarrow> 'st world \<Rightarrow> src \<Rightarrow> nat \<Rightarrow> nat list \<Rightarrow> (arr list \<times> nat) list \<Rightarrow> bool" where
  "world_batches h wd s g msk xs \<longleftrightarrow>
     sum_list (map snd xs) \<le> unat (src_rg_rows s ! g) \<and>
     (\<forall>(b, n) \<in> set xs. length b = length msk \<and>
        (\<forall>i < length msk. arr_ok (b ! i) \<and> arr_len (h_deref h) (b ! i) = n \<and>
           (\<forall>dt a. b ! i = ArrDict dt a \<longrightarrow> wd_owner wd (da_values a) = msk ! i))) \<and>
     (\<forall>i < length msk. \<forall>lt imgs.
        mapR (\<lambda>(b, n). image (h_intern h) (h_deref h) (h_cast h) lt (b ! i)) xs = Inr imgs \<longrightarrow>
        concat (map pay_cells imgs) = wd_acol wd s g (msk ! i) lt)"

definition world_ok :: "'st store \<Rightarrow> host \<Rightarrow> 'st world \<Rightarrow> bool" where
  "world_ok so h wd \<longleftrightarrow>
     host_ok (h_intern h) (h_rd h) \<and> cast_ok (h_deref h) (h_cast h) \<and>
     cr_ok (so_cols so) (wd_mdef wd) (wd_rest wd) (wd_chunk wd) \<and>
     (\<forall>s g msk xs. so_batches so s g msk = Inr (map Inr xs) \<longrightarrow> world_batches h wd s g msk xs)"

text \<open>The rows of row group \<open>g\<close> of file \<open>f\<close> in result column \<open>q\<close>.\<close>

definition file_rows :: "'st world \<Rightarrow> file_set \<Rightarrow> sel \<Rightarrow> nat \<Rightarrow> nat \<Rightarrow> nat \<Rightarrow> nat \<Rightarrow> cell list" where
  "file_rows wd fs sl q f g rows =
    (let s = fs_srcs fs ! f; c = sel_out sl ! q; lt = sel_lts sl ! q in
     case sel_raw sl ! q of
       Some rt \<Rightarrow> take rows (pay_cells (raw_image rt lt (wd_chunk wd s g (the (leaf_at s c)))))
     | None \<Rightarrow> wd_acol wd s g c lt)"

definition no_plan :: codes where
  "no_plan = \<lparr>cd_d = [], cd_ix = Map.empty, cd_empty = 0, cd_lt = KG\<rparr>"

definition plan_for :: "sel \<Rightarrow> codes option list \<Rightarrow> nat \<Rightarrow> codes" where
  "plan_for sl cds c = (case position (\<lambda>x. x = c) (sel_out sl) of
     Some q \<Rightarrow> (case cds ! q of Some cd \<Rightarrow> cd | None \<Rightarrow> no_plan) | None \<Rightarrow> no_plan)"

definition env_of ::
    "'st store \<Rightarrow> host \<Rightarrow> file_set \<Rightarrow> sel \<Rightarrow> part list \<Rightarrow> codes option list \<Rightarrow> string \<Rightarrow> nat \<Rightarrow> 'st world \<Rightarrow> 'st env" where
  "env_of so h fs sl parts cds who tot wd =
    \<lparr>en_so = so, en_h = h, en_fs = fs, en_sl = sl, en_parts = parts, en_cds = cds, en_who = who, en_tot = tot,
     en_plan = (\<lambda>a. plan_for sl cds (wd_owner wd a)), en_mdef = wd_mdef wd, en_rest = wd_rest wd,
     en_chunk = wd_chunk wd, en_acol = wd_acol wd\<rparr>"

lemma env_of_sel [simp]:
  "en_so (env_of so h fs sl parts cds who tot wd) = so" "en_h (env_of so h fs sl parts cds who tot wd) = h"
  "en_fs (env_of so h fs sl parts cds who tot wd) = fs" "en_sl (env_of so h fs sl parts cds who tot wd) = sl"
  "en_parts (env_of so h fs sl parts cds who tot wd) = parts" "en_cds (env_of so h fs sl parts cds who tot wd) = cds"
  "en_who (env_of so h fs sl parts cds who tot wd) = who" "en_tot (env_of so h fs sl parts cds who tot wd) = tot"
  "en_plan (env_of so h fs sl parts cds who tot wd) a = plan_for sl cds (wd_owner wd a)"
  "en_mdef (env_of so h fs sl parts cds who tot wd) = wd_mdef wd" "en_rest (env_of so h fs sl parts cds who tot wd) = wd_rest wd"
  "en_chunk (env_of so h fs sl parts cds who tot wd) = wd_chunk wd" "en_acol (env_of so h fs sl parts cds who tot wd) = wd_acol wd"
  by (simp_all add: env_of_def)

lemma plan_for_nth: "distinct (sel_out sl) \<Longrightarrow> q < length (sel_out sl) \<Longrightarrow> cds ! q = Some cd \<Longrightarrow>
    plan_for sl cds (sel_out sl ! q) = cd"
proof -
  assume d: "distinct (sel_out sl)" "q < length (sel_out sl)" "cds ! q = Some cd"
  then have "position (\<lambda>x. x = sel_out sl ! q) (sel_out sl) = Some q"
    by (auto simp: position_Some_iff nth_eq_iff_index_eq)
  with d show ?thesis by (simp add: plan_for_def)
qed

lemma distinct_concat_mem: "distinct (concat xss) \<Longrightarrow> xs \<in> set xss \<Longrightarrow> distinct xs"
  by (induction xss) auto

lemma split_part_distinct:
  assumes "p \<in> set (split_sel fs sl k)"
  shows "distinct (pt_raw p @ pt_outs p)"
proof -
  have "distinct (concat (map (\<lambda>p. pt_raw p @ pt_outs p) (split_sel fs sl k)))"
    unfolding split_sel_columns by auto
  then show ?thesis
    by (rule distinct_concat_mem) (use assms in simp)
qed

lemma split_parts_apart:
  assumes "en_parts E = split_sel fs sl k"
  shows "parts_apart E"
proof -
  let ?xss = "map (\<lambda>p. pt_raw p @ pt_outs p) (split_sel fs sl k)"
  have "distinct (concat ?xss)"
    unfolding split_sel_columns by auto
  then have s: "sorted_wrt (\<lambda>a b. set a \<inter> set b = {}) ?xss"
    by (rule distinct_concat_disjoint)
  have less: "set (?xss ! i) \<inter> set (?xss ! j) = {}" if "i < j" "j < length ?xss" for i j
    using s that by (auto simp: sorted_wrt_iff_nth_less)
  have "set (?xss ! i) \<inter> set (?xss ! j) = {}" if "i \<noteq> j" "i < length ?xss" "j < length ?xss" for i j
    using that less[of i j] less[of j i] by (cases i j rule: linorder_cases) (simp_all add: Int_commute)
  then show ?thesis
    unfolding parts_apart_def assms by simp
qed

lemma env_of_ok:
  assumes wd: "world_ok so h wd" and d: "distinct (sel_out sl)"
    and cds: "plans_ok (env_of so h fs sl parts cds who tot wd)" and parts: "parts = split_sel fs sl k"
  shows "env_ok (env_of so h fs sl parts cds who tot wd)"
proof -
  have "batches_ok (env_of so h fs sl parts cds who tot wd)"
    unfolding batches_ok_def env_of_sel
  proof (intro allI impI)
    fix s g msk xs
    assume "so_batches so s g msk = Inr (map Inr xs)"
    then have w: "world_batches h wd s g msk xs"
      using wd by (simp add: world_ok_def)
    show "delivers (env_of so h fs sl parts cds who tot wd) s g msk xs"
      using w plan_for_nth[OF d] unfolding delivers_def world_batches_def n_cols_def env_of_sel
      by (fastforce split: prod.splits)
  qed
  moreover have "list_all (\<lambda>p. part_ok fs sl p \<and> distinct (pt_raw p @ pt_outs p)) parts"
    unfolding parts list_all_iff using split_sel_parts split_part_distinct by blast
  ultimately show ?thesis
    using wd cds by (simp add: env_ok_def world_ok_def)
qed

section \<open>A finished read\<close>

definition kt_ok :: "(int \<Rightarrow> nat \<Rightarrow> payload) \<Rightarrow> bool" where
  "kt_ok ktn \<longleftrightarrow> (\<forall>lt n. payload_len (ktn lt n) = n \<and> (lt \<in> L_TYPES \<longrightarrow> payload_for lt (ktn lt n)))"

text \<open>The rows \<open>[off, off + n)\<close> of a result column as the host reads them.\<close>

definition result_rows :: "host \<Rightarrow> payload list \<times> codes option list \<Rightarrow> nat \<Rightarrow> nat \<Rightarrow> nat \<Rightarrow> cell list" where
  "result_rows h st q off n =
    take n (drop off (map (\<lambda>c. case snd st ! q of None \<Rightarrow> c
      | Some cd \<Rightarrow> CSym (sym_at (h_intern h) (cd_d cd) (code_of c))) (pay_cells (fst st ! q))))"

definition col_right :: "host \<Rightarrow> 'st world \<Rightarrow> file_set \<Rightarrow> sel \<Rightarrow> rg list \<Rightarrow> payload list \<times> codes option list \<Rightarrow> nat \<Rightarrow> bool" where
  "col_right h wd fs sl rgs st q \<longleftrightarrow>
     (\<forall>(f, g, off, n) \<in> set rgs. result_rows h st q off n = file_rows wd fs sl q f g n)"

lemma result_rows_task:
  "result_rows h (cols, cds) q off n =
     task_cells (env_of so h fs sl parts cds who tot wd)
       \<lparr>tk_f = f, tk_g = g, tk_off = off, tk_rows = n, tk_p = p\<rparr> (cols, gives) q"
  by (cases "cds ! q") (simp_all add: result_rows_def task_cells_def col_cells_def read_cell_def[abs_def])

lemma file_rows_task:
  "expect_cells (env_of so h fs sl parts cds who tot wd)
       \<lparr>tk_f = f, tk_g = g, tk_off = off, tk_rows = n, tk_p = p\<rparr> q = file_rows wd fs sl q f g n"
  by (cases "sel_raw sl ! q") (simp_all add: expect_cells_def file_rows_def Let_def)

text \<open>Every column has a part that owns it.\<close>

lemma split_covers:
  assumes "q < length (sel_out sl)"
  shows "\<exists>p < length (split_sel fs sl k). q \<in> set (pt_raw (split_sel fs sl k ! p)) \<union> set (pt_outs (split_sel fs sl k ! p))"
proof -
  have "q \<in> set (concat (map (\<lambda>p. pt_raw p @ pt_outs p) (split_sel fs sl k)))"
    unfolding split_sel_columns using assms by auto
  then obtain x where "x \<in> set (split_sel fs sl k)" "q \<in> set (pt_raw x) \<union> set (pt_outs x)"
    by auto
  then show ?thesis
    by (metis in_set_conv_nth)
qed

lemma decode_cols_right:
  assumes wd: "world_ok so h wd" and d: "distinct (sel_out sl)"
    and cds: "plans_ok (env_of so h fs sl parts cds who (unat tw) wd)" and parts: "parts = split_sel fs sl k"
    and w: "window fs g0 g1 = (rgs, tw)" and til: "tiles 0 rgs (unat tw)"
    and ok: "shared_ok (env_of so h fs sl parts cds who (unat tw) wd) sh"
    and run: "decode so h fs nthreads sl parts cds (tasks_of rgs (length parts)) who sh (Inr (cols, gives))"
  shows "shared_ok (env_of so h fs sl parts cds who (unat tw) wd) (cols, gives) \<and>
    (\<forall>q < length (sel_out sl). gives ! q \<or> col_right h wd fs sl rgs (cols, cds) q)"
proof -
  let ?E = "env_of so h fs sl parts cds who (unat tw) wd"
  have env: "env_ok ?E"
    using wd d cds parts by (rule env_of_ok)
  have "parts_apart ?E"
    by (rule split_parts_apart) (simp add: parts)
  then have r: "run_ok ?E (tasks_of rgs (length parts))"
    using window_run_ok[OF env, of g0 g1 rgs tw] w til by simp
  have fin: "shared_ok ?E (cols, gives) \<and>
      (\<forall>i < length (tasks_of rgs (length parts)). task_done ?E (tasks_of rgs (length parts) ! i) (cols, gives))"
    using run by (intro decode_done[OF _ r ok]) simp
  have "col_right h wd fs sl rgs (cols, cds) q" if q: "q < length (sel_out sl)" "\<not> gives ! q" for q
    unfolding col_right_def
  proof (clarify)
    fix f g off n
    assume rg: "(f, g, off, n) \<in> set rgs"
    obtain p where p: "p < length parts" "q \<in> set (pt_raw (parts ! p)) \<union> set (pt_outs (parts ! p))"
      using split_covers[OF q(1), of fs k] parts by blast
    let ?t = "\<lparr>tk_f = f, tk_g = g, tk_off = off, tk_rows = n, tk_p = p\<rparr>"
    have "?t \<in> set (tasks_of rgs (length parts))"
      using rg p(1) by (auto simp: tasks_of_mem)
    then have "task_done ?E ?t (cols, gives)"
      using fin by (auto simp: in_set_conv_nth)
    moreover have "q \<in> owned ?E ?t"
      using p(2) by (simp add: owned_def Let_def)
    ultimately have "task_cells ?E ?t (cols, gives) q = expect_cells ?E ?t q"
      using q(2) by (auto simp: task_done_def)
    then show "result_rows h (cols, cds) q off n = file_rows wd fs sl q f g n"
      by (simp add: result_rows_task[where so = so and fs = fs and sl = sl and parts = parts and who = who
            and tot = "unat tw" and wd = wd and f = f and g = g and p = p and gives = gives] file_rows_task)
  qed
  with fin show ?thesis by blast
qed

text \<open>A column read again holds the plain symbols.\<close>

lemma file_rows_one_sel:
  "q < length (sel_out sl) \<Longrightarrow> sel_raw sl ! q = None \<Longrightarrow>
     file_rows wd fs (one_sel sl q) 0 f g n = file_rows wd fs sl q f g n"
  by (simp add: file_rows_def one_sel_def)

lemma reread_right:
  assumes run: "reread so h ktn fs nthreads sl rgs (unat tw) who gives ps st (Inr st')"
    and wd: "world_ok so h wd" and kt: "kt_ok ktn"
    and w: "window fs g0 g1 = (rgs, tw)" and til: "tiles 0 rgs (unat tw)"
    and ps: "distinct ps" "\<forall>p \<in> set ps. p < length (sel_out sl)"
    and len: "length (fst st) = length (sel_out sl)" "length (snd st) = length (sel_out sl)"
    and pair: "\<forall>q < length (sel_out sl). snd st ! q \<noteq> None \<longrightarrow> sel_raw sl ! q = None \<and> sel_lts sl ! q = KS"
    and right: "\<forall>q < length (sel_out sl). (q \<in> set ps \<and> gave_up (snd st) gives q) \<or> col_right h wd fs sl rgs st q"
    and rows: "\<forall>q < length (sel_out sl). payload_len (fst st ! q) = unat tw \<and>
      (snd st ! q = None \<longrightarrow> payload_for (sel_lts sl ! q) (fst st ! q))"
  shows "length (fst st') = length (sel_out sl) \<and>
    (\<forall>q < length (sel_out sl). payload_len (fst st' ! q) = unat tw \<and>
       (snd st' ! q = None \<longrightarrow> payload_for (sel_lts sl ! q) (fst st' ! q)) \<and> col_right h wd fs sl rgs st' q)"
  using run ps len pair right rows
proof (induction ps st "Inr st' :: (payload list \<times> codes option list) result" rule: reread.induct)
  case nil
  then show ?case by auto
next
  case (keep st p ps)
  then show ?case by auto
next
  case (again st p ks gv ps)
  let ?sl = "one_sel sl p"
  let ?ps = "split_sel fs ?sl 1"
  let ?E = "env_of so h fs ?sl ?ps [None] who (unat tw) wd"
  have p: "p < length (sel_out sl)" "sel_raw sl ! p = None" "sel_lts sl ! p = KS"
    using again by (auto simp: gave_up_def)
  have one: "sel_out ?sl = [sel_out sl ! p]"
    by (simp add: one_sel_def)
  have np: "length ?ps = 1"
    by (simp add: split_sel_def one_sel_def piece_def Let_def)
  have pl: "plans_ok ?E"
    by (simp add: plans_ok_def n_cols_def one)
  have ok: "shared_ok ?E ([ktn KS (unat tw)], [False])"
    using kt p(3) by (simp add: shared_ok_def n_cols_def one kt_ok_def) (simp add: one_sel_def L_TYPES_def)
  have d: "distinct (sel_out ?sl)"
    by (simp add: one)
  have dc: "decode so h fs nthreads ?sl ?ps [None] (tasks_of rgs (length ?ps)) who ([ktn KS (unat tw)], [False]) (Inr (ks, gv))"
    using again.hyps(2) np by simp
  have gives: "gv ! 0 \<or> col_right h wd fs ?sl rgs (ks, [None]) 0" and sok: "shared_ok ?E (ks, gv)"
    using decode_cols_right[OF wd d pl refl w til ok dc] by (simp_all add: one)
  have ks: "length ks = 1" "\<not> gv ! 0" "payload_len (ks ! 0) = unat tw" "payload_for KS (ks ! 0)"
    using sok p(3) by (simp_all add: shared_ok_def n_cols_def one) (simp add: one_sel_def)
  let ?st = "((fst st)[p := hd ks], (snd st)[p := None])"
  have new: "result_rows h ?st p off n = result_rows h (ks, [None]) 0 off n" for off n
    using ks p(1) again.prems(3,4) by (cases ks) (simp_all add: result_rows_def)
  have old: "result_rows h ?st q off n = result_rows h st q off n" if "q \<noteq> p" for q off n
    using that by (simp add: result_rows_def)
  have "col_right h wd fs sl rgs ?st p"
    using gives ks(2) file_rows_one_sel[OF p(1,2), of wd] unfolding col_right_def new by (simp add: split_def)
  moreover have "col_right h wd fs sl rgs ?st q \<longleftrightarrow> col_right h wd fs sl rgs st q" if "q \<noteq> p" for q
    unfolding col_right_def old[OF that] ..
  moreover have "gave_up (snd ?st) gives q \<longleftrightarrow> gave_up (snd st) gives q" if "q \<noteq> p" for q
    using that by (simp add: gave_up_def)
  ultimately have "\<forall>q < length (sel_out sl). (q \<in> set ps \<and> gave_up (snd ?st) gives q) \<or> col_right h wd fs sl rgs ?st q"
    using again.prems(6) by (metis set_ConsD)
  moreover have "snd st ! q \<noteq> None" if "snd ?st ! q \<noteq> None" for q
    using that p(1) again.prems(4) by (cases "q = p") auto
  then have "\<forall>q < length (sel_out sl). snd ?st ! q \<noteq> None \<longrightarrow> sel_raw sl ! q = None \<and> sel_lts sl ! q = KS"
    using again.prems(5) by blast
  moreover have "payload_len (fst ?st ! q) = unat tw \<and> (snd ?st ! q = None \<longrightarrow> payload_for (sel_lts sl ! q) (fst ?st ! q))"
    if "q < length (sel_out sl)" for q
    using that ks p again.prems(3,4,7) by (cases ks; cases "q = p") auto
  ultimately show ?case
    using again.prems(1-4) by (intro again.hyps(4)) simp_all
qed

lemma plans_Inr:
  assumes "plans h ps fs rgs sl codes who = Inr cds"
  shows "length cds = length (sel_out sl) \<and>
    (\<forall>q < length (sel_out sl). \<forall>cd. cds ! q = Some cd \<longrightarrow>
       sel_lts sl ! q = KS \<and> (\<exists>ks. plan_keys (h_intern h) ks cd))"
proof (cases codes)
  case False
  with assms show ?thesis by (auto simp: plans_def)
next
  case True
  let ?f = "\<lambda>p. if sel_lts sl ! p = KS then codes_plan (h_intern h) ps fs rgs (sel_out sl ! p) who else Inr None"
  have m: "mapR ?f [0..<length (sel_out sl)] = Inr cds"
    using assms True by (simp add: plans_def)
  have "sel_lts sl ! q = KS \<and> (\<exists>ks. plan_keys (h_intern h) ks cd)"
    if q: "q < length (sel_out sl)" "cds ! q = Some cd" for q cd
  proof -
    have i: "[0..<length (sel_out sl)] ! q = q"
      using q(1) by simp
    have "?f q = Inr (Some cd)"
      using mapR_nth[OF m, of q] q unfolding i by simp
    then have "sel_lts sl ! q = KS" "codes_plan (h_intern h) ps fs rgs (sel_out sl ! q) who = Inr (Some cd)"
      by (auto split: if_splits)
    then show ?thesis
      using codes_plan_keys by blast
  qed
  with mapR_length[OF m] show ?thesis by simp
qed

text \<open>
  The set of files agrees on its L types, so a symbol column is never a zero-copy one.
\<close>

definition set_agrees :: "(data_type \<Rightarrow> string) \<Rightarrow> file_set \<Rightarrow> bool" where
  "set_agrees shw fs \<longleftrightarrow> fs_srcs fs \<noteq> [] \<and> length (fs_lts fs) = length (fs_names fs) \<and>
     (\<forall>s \<in> set (fs_srcs fs). same_schema shw (fs_names fs) (fs_lts fs) s)"

lemma raw_not_symbol:
  assumes agr: "set_agrees shw fs" and ok: "sel_ok fs sl" and q: "q < length (sel_out sl)" "sel_lts sl ! q = KS"
  shows "sel_raw sl ! q = None"
proof (rule ccontr)
  assume "sel_raw sl ! q \<noteq> None"
  then obtain rt where rt: "raw_scan (sel_out sl ! q) 0 None (fs_srcs fs) = Some rt"
    using ok q(1) by (auto simp: sel_ok_def)
  obtain s where s: "s \<in> set (fs_srcs fs)"
    using agr by (cases "fs_srcs fs") (auto simp: set_agrees_def)
  obtain l where "raw_of (col_type s (sel_out sl ! q)) (ld_phys (leaf_of s l)) = Some rt"
    using raw_scan_agree[OF rt s] by blast
  then obtain lt where lt: "l_type_of shw (col_type s (sel_out sl ! q)) = Inr lt" "lt \<noteq> KS"
    using raw_of_width by blast
  have c: "sel_out sl ! q < length (fs_names fs)" "fs_lts fs ! (sel_out sl ! q) = Inr KS"
    using ok q by (auto simp: sel_ok_def list_all_length)
  have "ok_of (l_type_of shw (col_type s (sel_out sl ! q))) = ok_of (fs_lts fs ! (sel_out sl ! q))"
    using agr s c(1) same_schema_nth(3)[of shw "fs_names fs" "fs_lts fs" s] by (simp add: set_agrees_def col_type_def)
  with lt c(2) show False
    by (simp add: ok_of_def)
qed

lemma codes_width_L: "codes_width n \<in> L_TYPES"
  by (simp add: codes_width_def L_TYPES_def)

lemma fresh_ok:
  assumes kt: "kt_ok ktn" and pl: "plans_ok (env_of so h fs sl parts cds who tot wd)"
    and lts: "\<forall>q < length (sel_out sl). sel_lts sl ! q \<in> L_TYPES"
  shows "shared_ok (env_of so h fs sl parts cds who tot wd) (fresh_cols ktn cds sl tot)"
proof -
  have "payload_for (cd_lt cd) (ktn (cd_lt cd) tot)" if q: "q < length (sel_out sl)" "cds ! q = Some cd" for q cd
  proof -
    obtain ks where "plan_keys (h_intern h) ks cd"
      using pl q by (auto simp: plans_ok_def n_cols_def)
    then have "cd_lt cd \<in> L_TYPES"
      using codes_width_L by (simp add: plan_keys_def)
    then show ?thesis
      using kt by (simp add: kt_ok_def)
  qed
  then show ?thesis
    using kt lts by (auto simp: shared_ok_def fresh_cols_def n_cols_def kt_ok_def col_lt_def)
qed

lemma l_type_of_range: "l_type_of shw dt = Inr lt \<Longrightarrow> lt \<in> L_TYPES"
  by (auto simp: L_TYPES_def split: data_type.splits time_unit.splits if_splits elim!: l_type_of.elims)

lemma sel_lts_range:
  assumes agr: "set_agrees shw fs" and ok: "sel_ok fs sl" and q: "q < length (sel_out sl)"
  shows "sel_lts sl ! q \<in> L_TYPES"
proof -
  obtain s where s: "s \<in> set (fs_srcs fs)"
    using agr by (cases "fs_srcs fs") (auto simp: set_agrees_def)
  have c: "sel_out sl ! q < length (fs_names fs)" "fs_lts fs ! (sel_out sl ! q) = Inr (sel_lts sl ! q)"
    using ok q by (auto simp: sel_ok_def list_all_length)
  have "ok_of (l_type_of shw (f_type (fst (ft_schema (src_md s)) ! (sel_out sl ! q)))) = Some (sel_lts sl ! q)"
    using agr s c same_schema_nth(3)[of shw "fs_names fs" "fs_lts fs" s] by (simp add: set_agrees_def ok_of_def)
  then show ?thesis
    using l_type_of_range by (auto simp: ok_of_def split: sum.splits)
qed

text \<open>
  The end-to-end statement: whatever the number of workers and their interleaving, a read
  that answers holds every row group of its window at the place the layout gave it, in
  every result column, a pair column read back through its dictionary included.
\<close>

lemma reread_keeps_None:
  "reread so h ktn fs nthreads sl rgs tot who gives ps st (Inr st') \<Longrightarrow> q < length (snd st) \<Longrightarrow>
     snd st ! q = None \<Longrightarrow> snd st' ! q = None"
proof (induction ps st "Inr st' :: (payload list \<times> codes option list) result" rule: reread.induct)
  case (again st p ks gv ps)
  have "(snd st)[p := None] ! q = None"
    using again.prems by (cases "p = q") simp_all
  then show ?case
    using again.hyps(4) again.prems(1) by simp
qed auto

lemma read_rows:
  assumes wd: "world_ok so h wd" and kt: "kt_ok ktn" and agr: "set_agrees shw fs"
    and sel: "select fs want who = Inr sl"
    and w: "window fs g0 g1 = (rgs, tw)" and small: "true_total (in_window g0 g1 0 (flat_rgs fs)) < 2 ^ 64"
    and plans: "\<And>cds q cd. plans h ps fs rgs sl codes who = Inr cds \<Longrightarrow> q < length cds \<Longrightarrow> cds ! q = Some cd \<Longrightarrow> small_plan cd"
    and run: "read_set so h ps ktn nthreads fs sl g0 g1 codes who (Inr ans)"
  shows "tiles 0 rgs (unat tw) \<and> (\<exists>st. ans = answer h fs sl codes st \<and> length (fst st) = length (sel_out sl) \<and>
    (\<forall>q < length (sel_out sl). payload_len (fst st ! q) = unat tw \<and>
       (\<not> codes \<longrightarrow> snd st ! q = None) \<and> (snd st ! q = None \<longrightarrow> payload_for (sel_lts sl ! q) (fst st ! q)) \<and>
       col_right h wd fs sl rgs st q))"
proof -
  have ok: "sel_ok fs sl"
    using sel by (simp add: select_Inr_iff)
  then have d: "distinct (sel_out sl)"
    by (simp add: sel_ok_def)
  have til: "tiles 0 rgs (unat tw)"
    using window_tiles[OF w small] by (rule conjunct1)
  let ?parts = "split_sel fs sl (parts_for nthreads sl rgs)"
  obtain cds where cds: "plans h ps fs rgs sl codes who = Inr cds"
    using run by (cases "plans h ps fs rgs sl codes who") (simp_all add: read_set_def w Let_def split: if_splits)
  have "\<exists>d. decode so h fs nthreads sl ?parts cds (tasks_of rgs (length ?parts)) who (fresh_cols ktn cds sl (unat tw)) d \<and>
      (case d of Inl e \<Rightarrow> Inr ans = (Inl e :: rd_answer result) | Inr (cols, gives) \<Rightarrow>
        \<exists>rr. reread so h ktn fs nthreads sl rgs (unat tw) who gives [0..<length (sel_out sl)] (cols, cds) rr \<and>
          (case rr of Inl e \<Rightarrow> Inr ans = (Inl e :: rd_answer result)
           | Inr st \<Rightarrow> Inr ans = (Inr (answer h fs sl codes st) :: rd_answer result)))"
    using run by (simp only: read_set_def w Let_def cds split sum.case split: if_splits) simp_all
  then obtain dr where dec0: "decode so h fs nthreads sl ?parts cds (tasks_of rgs (length ?parts)) who
        (fresh_cols ktn cds sl (unat tw)) dr"
      and fin0: "case dr of Inl e \<Rightarrow> Inr ans = (Inl e :: rd_answer result) | Inr (cols, gives) \<Rightarrow>
        \<exists>rr. reread so h ktn fs nthreads sl rgs (unat tw) who gives [0..<length (sel_out sl)] (cols, cds) rr \<and>
          (case rr of Inl e \<Rightarrow> Inr ans = (Inl e :: rd_answer result)
           | Inr st \<Rightarrow> Inr ans = (Inr (answer h fs sl codes st) :: rd_answer result))"
    by blast
  obtain cols gives where dr: "dr = Inr (cols, gives)"
    using fin0 by (cases dr) auto
  note dec = dec0[unfolded dr]
  obtain rr where rr: "reread so h ktn fs nthreads sl rgs (unat tw) who gives [0..<length (sel_out sl)] (cols, cds) rr"
      "case rr of Inl e \<Rightarrow> Inr ans = (Inl e :: rd_answer result) | Inr st \<Rightarrow> Inr ans = (Inr (answer h fs sl codes st) :: rd_answer result)"
    using fin0 dr by auto
  then obtain st where rer: "reread so h ktn fs nthreads sl rgs (unat tw) who gives [0..<length (sel_out sl)] (cols, cds) (Inr st)"
      and ans: "ans = answer h fs sl codes st"
    by (cases rr) auto
  note pl = plans_Inr[OF cds]
  have raw: "sel_raw sl ! q = None" if "q < length (sel_out sl)" "cds ! q \<noteq> None" for q
    using raw_not_symbol[OF agr ok] pl that by auto
  let ?E = "env_of so h fs sl ?parts cds who (unat tw) wd"
  have pok: "plans_ok ?E"
    using pl raw plans[OF cds] by (auto simp: plans_ok_def n_cols_def)
  have lts: "\<forall>q < length (sel_out sl). sel_lts sl ! q \<in> L_TYPES"
    using sel_lts_range[OF agr ok] by blast
  have cr: "shared_ok ?E (cols, gives) \<and> (\<forall>q < length (sel_out sl). gives ! q \<or> col_right h wd fs sl rgs (cols, cds) q)"
    by (rule decode_cols_right[OF wd d pok refl w til fresh_ok[OF kt pok lts] dec])
  have "length (fst st) = length (sel_out sl) \<and>
      (\<forall>q < length (sel_out sl). payload_len (fst st ! q) = unat tw \<and>
        (snd st ! q = None \<longrightarrow> payload_for (sel_lts sl ! q) (fst st ! q)) \<and> col_right h wd fs sl rgs st q)"
  proof (rule reread_right[OF rer wd kt w til])
    show "\<forall>q < length (sel_out sl). (q \<in> set [0..<length (sel_out sl)] \<and> gave_up (snd (cols, cds)) gives q) \<or>
        col_right h wd fs sl rgs (cols, cds) q"
      using cr pl by (auto simp: gave_up_def shared_ok_def n_cols_def)
  qed (use cr pl raw in \<open>auto simp: shared_ok_def n_cols_def\<close>)
  moreover have "snd st ! q = None" if "\<not> codes" "q < length (sel_out sl)" for q
    using reread_keeps_None[OF rer, of q] cds that by (auto simp: plans_def)
  ultimately show ?thesis
    using til ans by blast
qed

end
