(* ===== verification/Delivery.thy ===== *)
theory Delivery
  imports Read
begin

text \<open>
  A read as its caller sees it: the rows of every column of the answer, plain or as a pair
  of dictionary and codes, are the rows the files hold. A small file with one timestamp
  column shows that the promises the theorem rests on can be kept.
\<close>

section \<open>The answer in the host\<close>

definition ans_names :: "rd_answer \<Rightarrow> ptr list" where
  "ans_names ans = (case ans of RdTable ns cs \<Rightarrow> ns | RdDict ns cs \<Rightarrow> ns)"

definition ans_cells :: "host \<Rightarrow> rd_answer \<Rightarrow> nat \<Rightarrow> cell list" where
  "ans_cells h ans q = (case ans of
     RdTable ns cs \<Rightarrow> pay_cells (cs ! q)
   | RdDict ns cs \<Rightarrow> (case cs ! q of
       RcVec p \<Rightarrow> pay_cells p
     | RcPair d p \<Rightarrow> map (\<lambda>c. CSym (sym_at (h_intern h) d (code_of c))) (pay_cells p)))"

lemma ans_names_answer:
  "ans_names (answer h fs sl codes st) = map (\<lambda>c. h_intern h (bytes_of (fs_names fs ! c))) (sel_out sl)"
  by (simp add: ans_names_def answer_def Let_def split: prod.splits)

lemma ans_cells_answer:
  assumes "q < length (sel_out sl)" "codes \<or> snd st ! q = None"
  shows "take n (drop off (ans_cells h (answer h fs sl codes st) q)) = result_rows h st q off n"
  using assms
  by (cases st; cases "snd st ! q") (auto simp: ans_cells_def answer_def result_rows_def Let_def)

section \<open>A sample file\<close>

text \<open>
  A page decoder over lists: it keeps the promises of \<open>cr_ok\<close> whatever the columns hold. A
  required column with a null in it is the decoder's error.
\<close>

definition next_rows :: "'a option list \<Rightarrow> i16 \<Rightarrow> nat \<Rightarrow> (nat \<times> 'a list \<times> i16 list) result" where
  "next_rows rows md want =
    (let r = take want rows in
     if 0 < sint md \<or> list_all (\<lambda>x. x \<noteq> None) r
     then Inr (length r, packed r, map (\<lambda>x. case x of None \<Rightarrow> md - 1 | Some v \<Rightarrow> md) r)
     else Inl ''definition levels'')"

definition list_reader :: "(src \<Rightarrow> nat \<Rightarrow> nat \<Rightarrow> chunk_rows) \<Rightarrow> (chunk_rows \<times> i16) column_reader" where
  "list_reader content =
    \<lparr>cr_open = (\<lambda>s g l. Inr (content s g l, ld_max_def (leaf_of s l))),
     cr_typed = (\<lambda>rt st. True),
     cr_next32 = (\<lambda>st want. rbind (next_rows (ck32 (fst st)) (snd st) want)
       (\<lambda>x. Inr (x, (fst st)\<lparr>ck32 := drop (fst x) (ck32 (fst st))\<rparr>, snd st))),
     cr_next64 = (\<lambda>st want. rbind (next_rows (ck64 (fst st)) (snd st) want)
       (\<lambda>x. Inr (x, (fst st)\<lparr>ck64 := drop (fst x) (ck64 (fst st))\<rparr>, snd st)))\<rparr>"

lemma next_rows_ok:
  assumes "0 < want" "next_rows rows md want = Inr (recs, vals, defs)"
  shows "recs \<le> want \<and> recs \<le> length rows \<and> (recs = 0 \<longrightarrow> rows = []) \<and> vals = packed (take recs rows) \<and>
    (0 < sint md \<longrightarrow> levels_of defs md (take recs rows)) \<and> (\<not> 0 < sint md \<longrightarrow> None \<notin> set (take recs rows))"
proof -
  let ?r = "take want rows"
  have x: "recs = length ?r" "vals = packed ?r" "defs = map (\<lambda>x. case x of None \<Rightarrow> md - 1 | Some v \<Rightarrow> md) ?r"
      "0 < sint md \<or> None \<notin> set ?r"
    using assms(2) by (auto simp: next_rows_def Let_def list_all_iff split: if_splits)
  have r: "take recs rows = ?r"
    unfolding x(1) by (cases "want \<le> length rows") (simp_all add: min_absorb2)
  have "levels_of defs md ?r"
    unfolding x(3) levels_of_def by (auto simp: list_all2_conv_all_nth split: option.splits)
  moreover have "rows = []" if "recs = 0"
    using that x(1) assms(1) by (auto simp: min_def split: if_splits)
  moreover have "recs \<le> want" "recs \<le> length rows"
    using x(1) by simp_all
  ultimately show ?thesis
    using x(2,4) unfolding r by blast
qed

lemma list_rd_ok:
  assumes "\<And>k c. get (upd k c) = drop k (get c)"
  shows "rd_ok snd (\<lambda>st want. rbind (next_rows (get (fst st)) (snd st) want)
    (\<lambda>x. Inr (x, upd (fst x) (fst st), snd st))) (\<lambda>st. get (fst st))"
  unfolding rd_ok_def
proof (intro allI impI)
  fix st :: "'a \<times> i16" and want recs vals defs st'
  assume w: "0 < want" and run: "rbind (next_rows (get (fst st)) (snd st) want)
    (\<lambda>x. Inr (x, upd (fst x) (fst st), snd st)) = Inr ((recs, vals, defs), st')"
  then have n: "next_rows (get (fst st)) (snd st) want = Inr (recs, vals, defs)" and st': "st' = (upd recs (fst st), snd st)"
    by (auto simp: rbind_Inr_iff)
  show "recs \<le> want \<and> recs \<le> length (get (fst st)) \<and> (recs = 0 \<longrightarrow> get (fst st) = []) \<and>
      vals = packed (take recs (get (fst st))) \<and> get (fst st') = drop recs (get (fst st)) \<and> snd st' = snd st \<and>
      (0 < sint (snd st) \<longrightarrow> levels_of defs (snd st) (take recs (get (fst st)))) \<and>
      (\<not> 0 < sint (snd st) \<longrightarrow> None \<notin> set (take recs (get (fst st))))"
    using next_rows_ok[OF w n] st' assms by simp
qed

lemma list_reader_ok: "cr_ok (list_reader content) snd fst content"
  by (simp add: cr_ok_def list_reader_def
      list_rd_ok[of ck32 "\<lambda>k c. c\<lparr>ck32 := drop k (ck32 c)\<rparr>"] list_rd_ok[of ck64 "\<lambda>k c. c\<lparr>ck64 := drop k (ck64 c)\<rparr>"])

definition new_vec :: "int \<Rightarrow> nat \<Rightarrow> payload" where
  "new_vec lt n = (if lt = KB \<or> lt = KG then Pay8 (replicate n 0) else if lt = KH then Pay16 (replicate n 0)
     else if lt \<in> {KI, KE, KD, KT} then Pay32 (replicate n 0) else if lt = KS then PaySym (replicate n 0)
     else Pay64 (replicate n 0))"

lemma new_vec_ok: "kt_ok new_vec"
  by (auto simp: kt_ok_def new_vec_def payload_for_def L_TYPES_def)

text \<open>One file of one row group: a timestamp of 1 microsecond past 2000-01-01, and a null.\<close>

definition sample_src :: src where
  "sample_src = \<lparr>src_path = ''a'', src_orig = '':a'',
     src_md = \<lparr>ft_schema = ([\<lparr>f_name = ''t'', f_type = Timestamp Nanosecond None, f_null = True, f_meta = []\<rparr>], []),
       ft_leaves = [\<lparr>ld_phys = P_INT64, ld_max_def = 1, ld_max_rep = 0\<rparr>], ft_roots = [0],
       ft_rgs = [\<lparr>rg_num_rows = 2, rg_cols = [\<lparr>cm_dict_offset = None, cm_compressed = 20, cm_uncompressed = 20,
         cm_stats = Some \<lparr>st_values = SInt64 \<lparr>vs_min = Some 946684800000001000,
           vs_max = Some 946684800000001000, vs_min_exact = True, vs_max_exact = True\<rparr>, st_nulls = Some 1\<rparr>\<rparr>]\<rparr>], ft_rows = 2\<rparr>,
     src_rg_rows = [2], src_leaf = [Some 0]\<rparr>"

definition sample_set :: file_set where
  "sample_set = \<lparr>fs_srcs = [sample_src], fs_names = [''t''], fs_lts = [Inr KP]\<rparr>"

definition sample_rows :: "src \<Rightarrow> nat \<Rightarrow> nat \<Rightarrow> chunk_rows" where
  "sample_rows s g l = \<lparr>ck32 = [], ck64 = [Some 946684800000001000, None]\<rparr>"

definition sample_store :: "(chunk_rows \<times> i16) store" where
  "sample_store = \<lparr>so_open = (\<lambda>s. Inr ()), so_clone = (\<lambda>s. Inr ()), so_cols = list_reader sample_rows,
     so_batches = (\<lambda>s g msk. Inl ''no pages'')\<rparr>"

definition sample_host :: host where
  "sample_host = \<lparr>h_intern = number_intern, h_rd = number_rd, h_deref = (\<lambda>a. Inl []), h_cast = (\<lambda>a dt. Inl [])\<rparr>"

definition sample_world :: "(chunk_rows \<times> i16) world" where
  "sample_world = \<lparr>wd_mdef = snd, wd_rest = fst, wd_chunk = sample_rows, wd_acol = (\<lambda>s g c lt. []), wd_owner = (\<lambda>a. 0)\<rparr>"

definition sample_sel :: sel where
  "sample_sel = \<lparr>sel_out = [0], sel_lts = [KP], sel_uniq = [0], sel_raw = [Some (RI64 1)]\<rparr>"

definition sample_pages :: page_src where
  "sample_pages = \<lparr>pg_open = (\<lambda>s. Inr ()), pg_next = (\<lambda>s g c. Inr None)\<rparr>"

lemma sample_ok:
  "world_ok sample_store sample_host sample_world" "set_agrees shw sample_set"
  "select sample_set None who = Inr sample_sel" "window sample_set 0 1 = ([(0, 0, 0, 2)], 2)"
  "true_total (in_window 0 1 0 (flat_rgs sample_set)) = 2"
proof -
  show "world_ok sample_store sample_host sample_world"
    by (simp add: world_ok_def sample_store_def sample_host_def sample_world_def number_host cast_ok_def
        cast_keeps_rows_def list_reader_ok)
  show "set_agrees shw sample_set"
    by (simp add: set_agrees_def sample_set_def sample_src_def same_schema_def ok_of_def)
  show "select sample_set None who = Inr sample_sel"
    by (simp add: select_def resolve_def sample_set_def sample_sel_def sample_src_def leaf_at_def leaf_of_def
        raw_of_def col_type_def Let_def)
  show "window sample_set 0 1 = ([(0, 0, 0, 2)], 2)"
    by (simp add: window_def window_step_def flat_rgs_def sample_set_def sample_src_def)
  show "true_total (in_window 0 1 0 (flat_rgs sample_set)) = 2"
    by (simp add: true_total_def flat_rgs_def sample_set_def sample_src_def)
qed

text \<open>The decode of the sample, step by step.\<close>

definition sample_task :: task where
  "sample_task = \<lparr>tk_f = 0, tk_g = 0, tk_off = 0, tk_rows = 2, tk_p = 0\<rparr>"

lemma sample_loop:
  "raw_loop (cr_next64 (list_reader sample_rows)) signed_native NJ NS2000 1 1 who 0 2 0
     (sample_rows s g l, 1) [0, 0] = Some (Inr ([1000, NJ], 2))"
  by (subst raw_loop.simps, subst raw_loop.simps)
    (simp add: list_reader_def sample_rows_def next_rows_def raw_batch_def patch_def patch_shift_def
      BATCH_ROWS_def write_at_def NJ_def NS2000_def signed_native_def checked_mul_s_def fits_signed_def Let_def)

lemma sample_raw_col:
  "raw_col (list_reader sample_rows) sample_src 0 0 (RI64 1) KP (Pay64 [0, 0]) 0 2 who =
     Some (Inr (Pay64 [1000, NJ], 2))"
  using sample_loop[of who sample_src 0 0]
  by (simp add: raw_col_def list_reader_def leaf_of_def sample_src_def)

text \<open>The batches for Arrow do not matter to it.\<close>

lemma sample_one:
  "one (sample_store\<lparr>so_batches := bs\<rparr>) sample_host sample_set sample_sel [raw_part 0] [None] who sample_task sy ([Pay64 [0, 0]], [False]) =
     Some (Inr (sy, ([Pay64 [1000, NJ]], [False])))"
  using sample_raw_col[of who]
  by (simp add: one_def raw_one_def sample_store_def sample_set_def sample_sel_def sample_task_def raw_part_def
      leaf_at_def) (simp add: sample_src_def)

lemma sample_decode:
  "decode (sample_store\<lparr>so_batches := bs\<rparr>) sample_host sample_set 1 sample_sel [raw_part 0] [None] [sample_task] who
     ([Pay64 [0, 0]], [False]) (Inr ([Pay64 [1000, NJ]], [False]))"
proof -
  let ?b = "decode_body (sample_store\<lparr>so_batches := bs\<rparr>) sample_host sample_set sample_sel [raw_part 0] [None] who [sample_task]"
  let ?t = "\<lambda>k ws sh. \<lparr>ps_next = k, ps_stop = False, ps_err = None, ps_panic = False, ps_shared = sh, ps_workers = ws\<rparr>"
  let ?sh = "([Pay64 [0, 0]], [False])" and ?sh' = "([Pay64 [1000, NJ]], [False])"
  let ?ws = "decode_workers 1 [sample_task]"
  have ws: "?ws = [sc_new]"
    by (simp add: decode_workers_def)
  have s0: "pool_reach 1 ?b ?ws ?sh (?t 0 [Idle sc_new] ?sh)"
    using pool_reach.start[of 1 ?b ?ws ?sh] unfolding pool_start_def ws list.map .
  have "claim_step 1 ?b (?t 0 [Idle sc_new] ?sh) (?t 1 [Busy 0 sc_new] ?sh)"
    using claim_step.claim[of 0 "?t 0 [Idle sc_new] ?sh" sc_new 1 ?b] by simp
  then have s1: "pool_reach 1 ?b ?ws ?sh (?t 1 [Busy 0 sc_new] ?sh)"
    by (rule pool_reach.step[OF s0])
  have "claim_step 1 ?b (?t 1 [Busy 0 sc_new] ?sh) (?t 1 [Idle sc_new] ?sh')"
    using claim_step.finish[of 0 "?t 1 [Busy 0 sc_new] ?sh" 0 sc_new ?b sc_new ?sh' 1]
    by (simp add: decode_body_def sample_one)
  then have s2: "pool_reach 1 ?b ?ws ?sh (?t 1 [Idle sc_new] ?sh')"
    by (rule pool_reach.step[OF s1])
  have "claim_step 1 ?b (?t 1 [Idle sc_new] ?sh') (?t 2 [Gone] ?sh')"
    using claim_step.exhausted[of 0 "?t 1 [Idle sc_new] ?sh'" sc_new 1 ?b] by (simp add: numeral_2_eq_2)
  then have s3: "pool_reach 1 ?b ?ws ?sh (?t 2 [Gone] ?sh')"
    by (rule pool_reach.step[OF s2])
  have "pool_reach (length [sample_task]) ?b ?ws ?sh (?t 2 [Gone] ?sh')"
    using s3 by simp
  from decode.run[OF _ this] show ?thesis
    by (simp add: pool_done_def decode_answer_def)
qed

lemma sample_read_with:
  "read_set (sample_store\<lparr>so_batches := bs\<rparr>) sample_host ps new_vec 1 sample_set sample_sel 0 1 False who
     (Inr (RdTable [number_intern [116]] [Pay64 [1000, NJ]]))"
proof -
  have parts: "split_sel sample_set sample_sel k = [raw_part 0]" for k
    by (simp add: split_sel_def sample_sel_def)
  have tasks: "tasks_of [(0, 0, 0, 2)] 1 = [sample_task]"
    by (simp add: tasks_of_def sample_task_def)
  have fresh: "fresh_cols new_vec [None] sample_sel 2 = ([Pay64 [0, 0]], [False])"
    by (simp add: fresh_cols_def sample_sel_def col_lt_def new_vec_def numeral_2_eq_2)
  have plans: "plans sample_host ps sample_set [(0, 0, 0, 2)] sample_sel False who = Inr [None]"
    by (simp add: plans_def sample_sel_def)
  have again: "reread (sample_store\<lparr>so_batches := bs\<rparr>) sample_host new_vec sample_set 1 sample_sel [(0, 0, 0, 2)] 2 who [False]
      [0..<length (sel_out sample_sel)] ([Pay64 [1000, NJ]], [None]) (Inr ([Pay64 [1000, NJ]], [None]))"
    by (auto simp: sample_sel_def gave_up_def intro!: reread.intros)
  have ans: "answer sample_host sample_set sample_sel False ([Pay64 [1000, NJ]], [None]) =
      RdTable [number_intern [116]] [Pay64 [1000, NJ]]"
    by (simp add: answer_def sample_host_def sample_set_def sample_sel_def bytes_of_def)
  show ?thesis
    unfolding read_set_def sample_ok(4) parts
    using sample_decode[of bs who] again
    by (auto simp: plans tasks[simplified] fresh ans intro!: exI[of _ "Inr ([Pay64 [1000, NJ]], [False])"]
        exI[of _ "Inr ([Pay64 [1000, NJ]], [None])"])
qed

lemma sample_read:
  "read_set sample_store sample_host ps new_vec 1 sample_set sample_sel 0 1 False who
     (Inr (RdTable [number_intern [116]] [Pay64 [1000, NJ]]))"
  using sample_read_with[of "so_batches sample_store"] by simp

section \<open>Properties\<close>

text \<open>C2
  End to end: a read that answers holds, in every column and at the offset the window gives
  each row group, the rows the files hold for it. This is so for every number of threads and
  every interleaving of the decode pool, for the zero-copy, the Arrow, the plain symbol and
  the dictionary code path, and for a column that was read again. The offsets tile the
  result, so no row is left unwritten.
\<close>

theorem read_delivers:
  assumes "world_ok so h wd" "kt_ok ktn" "set_agrees shw fs" "select fs want who = Inr sl"
    and "window fs g0 g1 = (rgs, tw)" "true_total (in_window g0 g1 0 (flat_rgs fs)) < 2 ^ 64"
    and "\<forall>cds. plans h ps fs rgs sl codes who = Inr cds \<longrightarrow> (\<forall>cd. Some cd \<in> set cds \<longrightarrow> small_plan cd)"
    and "read_set so h ps ktn nthreads fs sl g0 g1 codes who (Inr ans)"
  shows "tiles 0 rgs (unat tw) \<and>
    ans_names ans = map (\<lambda>c. h_intern h (bytes_of (fs_names fs ! c))) (sel_out sl) \<and>
    (\<forall>q < length (sel_out sl). \<forall>(f, g, off, n) \<in> set rgs.
       take n (drop off (ans_cells h ans q)) = file_rows wd fs sl q f g n)"
proof -
  have "small_plan cd" if "plans h ps fs rgs sl codes who = Inr cds" "q < length cds" "cds ! q = Some cd" for cds q cd
    using assms(7) that by (metis nth_mem)
  then obtain st where st: "tiles 0 rgs (unat tw)" "ans = answer h fs sl codes st"
      "\<forall>q < length (sel_out sl). payload_len (fst st ! q) = unat tw \<and>
         (\<not> codes \<longrightarrow> snd st ! q = None) \<and> col_right h wd fs sl rgs st q"
    using read_rows[OF assms(1-6) _ assms(8)] by blast
  have "take n (drop off (ans_cells h ans q)) = file_rows wd fs sl q f g n"
    if "q < length (sel_out sl)" "(f, g, off, n) \<in> set rgs" for q f g off n
    using st(3) that ans_cells_answer[of q sl codes st] unfolding st(2) col_right_def by fastforce
  then show ?thesis
    using st(1) by (auto simp: st(2) ans_names_answer)
qed

theorem read_delivers_witness:
  "pay_cells (Pay64 [1000, NJ]) = file_rows sample_world sample_set sample_sel 0 0 0 2"
proof -
  have tt: "true_total (in_window 0 1 0 (flat_rgs sample_set)) < 2 ^ 64"
    unfolding sample_ok(5) by simp
  have pl: "\<forall>cds. plans sample_host sample_pages sample_set [(0, 0, 0, 2)] sample_sel False who = Inr cds \<longrightarrow>
      (\<forall>cd. Some cd \<in> set cds \<longrightarrow> small_plan cd)" for who
    by (auto simp: plans_def)
  show ?thesis
    using read_delivers[OF sample_ok(1) new_vec_ok sample_ok(2) sample_ok(3) sample_ok(4) tt pl sample_read]
    by (simp add: ans_cells_def) (simp add: sample_sel_def)
qed

text \<open>C10
  The zero-copy reader of one column chunk, over batches of at most 65536 rows: when it
  answers, it has written the first \<open>rows\<close> values of the chunk, or all of them when there are
  fewer, at its offset and nothing anywhere else, and it says how many.
\<close>

theorem raw_col_writes:
  assumes "cr_ok cr mdef rest content" "off + rows \<le> payload_len col"
    and "raw_col cr s g leaf rt lt col off rows who = Some (Inr (col', n))"
  shows "n = min rows (payload_len (raw_image rt lt (content s g leaf))) \<and> pay_kind col' = pay_kind col \<and>
    pay_cells col' = write_at off (take n (pay_cells (raw_image rt lt (content s g leaf)))) (pay_cells col)"
  using assms by (rule raw_col_image)

theorem raw_col_writes_witness:
  "pay_cells (Pay64 [1000, NJ]) =
     write_at 0 (take 2 (pay_cells (raw_image (RI64 1) KP (sample_rows sample_src 0 0)))) (pay_cells (Pay64 [0, 0]))"
  using raw_col_writes[OF list_reader_ok[of sample_rows] _ sample_raw_col] by simp

text \<open>
  A row group whose chunk holds more rows than the footer claims is not refused: the extra
  rows are dropped and the task succeeds.
\<close>

theorem surplus_rows_dropped:
  "length (ck64 (sample_rows sample_src 0 0)) = 2 \<and>
   (\<exists>col. one sample_store sample_host sample_set sample_sel [raw_part 0] [None] who
     \<lparr>tk_f = 0, tk_g = 0, tk_off = 0, tk_rows = 1, tk_p = 0\<rparr> sy ([Pay64 [0]], [False]) =
     Some (Inr (sy, ([Pay64 [1000]], [False]))))"
proof -
  have "raw_loop (cr_next64 (list_reader sample_rows)) signed_native NJ NS2000 1 1 who 0 1 0
     (sample_rows sample_src 0 0, 1) [0] = Some (Inr ([1000], 1))"
    by (subst raw_loop.simps, subst raw_loop.simps)
      (simp add: list_reader_def sample_rows_def next_rows_def raw_batch_def patch_def patch_shift_def
        BATCH_ROWS_def write_at_def map_range_def NJ_def NS2000_def signed_native_def checked_mul_s_def fits_signed_def Let_def)
  then have "raw_col (list_reader sample_rows) sample_src 0 0 (RI64 1) KP (Pay64 [0]) 0 1 who = Some (Inr (Pay64 [1000], 1))"
    by (simp add: raw_col_def list_reader_def leaf_of_def sample_src_def)
  then have "one sample_store sample_host sample_set sample_sel [raw_part 0] [None] who
     \<lparr>tk_f = 0, tk_g = 0, tk_off = 0, tk_rows = 1, tk_p = 0\<rparr> sy ([Pay64 [0]], [False]) =
     Some (Inr (sy, ([Pay64 [1000]], [False])))"
    by (simp add: one_def raw_one_def sample_store_def sample_set_def sample_sel_def raw_part_def leaf_at_def)
      (simp add: sample_src_def)
  then show ?thesis
    by (simp add: sample_rows_def)
qed

text \<open>
  A file set that opens agrees: all its files have the names and the L types of the first,
  which is what a read over the set relies on.
\<close>

theorem open_set_agrees:
  assumes "open_set shw load_all files who = Inr fs" "length (the (load_all files)) = length files"
  shows "set_agrees shw fs \<and> map Inr (fs_srcs fs) = the (load_all files)"
proof -
  have "length out = length files" if "load_all files = Some out" for out
    using assms(2) that by simp
  from open_set_Inr[OF assms(1) this] show ?thesis
    by (simp add: set_agrees_def)
qed

theorem open_set_agrees_witness: "set_agrees (\<lambda>t. []) sample_set"
proof -
  have "open_set (\<lambda>t. []) (\<lambda>fs. Some [Inr sample_src]) [('':a'', ''a'')] [] = Inr sample_set"
    by (simp add: open_set_def sample_set_def sample_src_def lts_of_def Let_def)
  from open_set_agrees[OF this] show ?thesis
    by simp
qed

end
