(* ===== verification/Opts.thy ===== *)
theory Opts
  imports Args ArrowTypes
begin

text \<open>
  The options of \<^verbatim>\<open>pq_write\<close> (\<^verbatim>\<open>parse_opts\<close> in
  \<^verbatim>\<open>src/src/write.rs\<close>) and the encoding each column gets from them
  (\<^verbatim>\<open>probe\<close>, \<^verbatim>\<open>pick_int\<close>, \<^verbatim>\<open>pick\<close>,
  \<^verbatim>\<open>set_enc\<close>). The level ranges of the codecs belong to the Parquet crate and
  are the parameters \<open>zl\<close> and \<open>gl\<close>.
\<close>

section \<open>Options\<close>

datatype compression = UNCOMPRESSED | ZSTD i32 | SNAPPY | LZ4_RAW | GZIP u32

record opts =
  op_comp :: compression
  op_rg :: nat
  op_dict :: bool
  op_stats :: bool

definition ROW_GROUP :: nat where "ROW_GROUP = 1048576"

definition opts_default :: opts where
  "opts_default = \<lparr>op_comp = UNCOMPRESSED, op_rg = ROW_GROUP, op_dict = True, op_stats = True\<rparr>"

definition bad :: "string \<Rightarrow> string \<Rightarrow> string val \<Rightarrow> string" where
  "bad key want v = ''pq_write: opt `'' @ key @ '' wants a '' @ want @
     (case v of VBad t \<Rightarrow> '' (got type '' @ show_int t @ '')'' | _ \<Rightarrow> [])"

text \<open>The loop's state: the options so far, and the codec and level collected on the side.\<close>

type_synonym opt_state = "opts \<times> string option \<times> i64 option"

definition opt_step :: "kval \<Rightarrow> kval \<Rightarrow> opt_state \<Rightarrow> nat \<Rightarrow> opt_state result" where
  "opt_step keys vals st i =
    (let (o1, codec, level) = st; k = key_at keys i; v = tree_val_at vals i in
     if \<not> utf8_ok k then Inl ''pq_write: opts key utf8''
     else if k = ''codec'' then
       (case v of VSym s \<Rightarrow>
          if utf8_ok s then Inr (o1, Some s, level) else Inl ''pq_write: opt `codec utf8''
        | _ \<Rightarrow> Inl (bad ''codec'' ''symbol'' v))
     else if k = ''level'' then
       (case v of VInt n \<Rightarrow> Inr (o1, codec, Some n) | _ \<Rightarrow> Inl (bad ''level'' ''long'' v))
     else if k = ''rg'' then
       (case v of VInt n \<Rightarrow>
          if 0 < sint n then Inr (o1\<lparr>op_rg := unat n\<rparr>, codec, level)
          else Inl ''pq_write: opt `rg must be > 0''
        | _ \<Rightarrow> Inl (bad ''rg'' ''long'' v))
     else if k = ''dict'' then
       (case v of VBool b \<Rightarrow> Inr (o1\<lparr>op_dict := b\<rparr>, codec, level) | _ \<Rightarrow> Inl (bad ''dict'' ''boolean'' v))
     else if k = ''stats'' then
       (case v of VBool b \<Rightarrow> Inr (o1\<lparr>op_stats := b\<rparr>, codec, level) | _ \<Rightarrow> Inl (bad ''stats'' ''boolean'' v))
     else Inl (''pq_write: unknown opt `'' @ k))"

text \<open>
  \<^verbatim>\<open>i32::try_from\<close> and \<^verbatim>\<open>u32::try_from\<close> of the level, then the
  crate's own check.
\<close>

definition codec_of :: "(i32 \<Rightarrow> bool) \<Rightarrow> (u32 \<Rightarrow> bool) \<Rightarrow> string option \<Rightarrow> i64 option \<Rightarrow> compression result" where
  "codec_of zl gl codec level =
    (let lv = (\<lambda>d. case level of None \<Rightarrow> d | Some l \<Rightarrow> sint l);
         range = (\<lambda>c. ''pq_write: opt `level out of range for `'' @ c) in
     case codec of
       None \<Rightarrow> Inr UNCOMPRESSED
     | Some c \<Rightarrow>
        if c = ''none'' then Inr UNCOMPRESSED
        else if c = ''zstd'' then
          (let l = lv 1 in if fits_signed TYPE(32) l \<and> zl (of_int l) then Inr (ZSTD (of_int l)) else Inl (range ''zstd''))
        else if c = ''snappy'' then Inr SNAPPY
        else if c = ''lz4'' then Inr LZ4_RAW
        else if c = ''gzip'' then
          (let l = lv 6 in if 0 \<le> l \<and> l < 2 ^ 32 \<and> gl (of_int l) then Inr (GZIP (of_int l)) else Inl (range ''gzip''))
        else Inl (''pq_write: opt `codec `'' @ c @ '' (want `none`zstd`snappy`lz4`gzip)''))"

definition parse_opts :: "(i32 \<Rightarrow> bool) \<Rightarrow> (u32 \<Rightarrow> bool) \<Rightarrow> kval option \<Rightarrow> opts result" where
  "parse_opts zl gl x = (case x of None \<Rightarrow> Inr opts_default
   | Some d \<Rightarrow>
      if ktype d \<noteq> XD then Inl ''pq_write: opts must be a dict''
      else let keys = dict_keys d; vals = dict_vals d in
        if kcount keys \<noteq> 0 \<and> ksub keys \<noteq> KS then Inl ''pq_write: opts keys must be symbols''
        else rbind (foldR (opt_step keys vals) (opts_default, None, None) [0..<kcount keys]) (\<lambda>(o1, codec, level).
          rbind (codec_of zl gl codec level) (\<lambda>c. Inr (o1\<lparr>op_comp := c\<rparr>))))"

section \<open>Encoding\<close>

datatype enc = EPlain | EDelta | EDict | ERle

definition SAMPLE :: nat where "SAMPLE = 8192"
definition DICT_CARD :: nat where "DICT_CARD = 65536"

text \<open>One element widened, or None for the null of its type.\<close>

definition probe :: "kval \<Rightarrow> int \<Rightarrow> nat \<Rightarrow> int option" where
  "probe col t i = (case col of
     KVec8 u xs \<Rightarrow> if t = KG then Some (uint (xs ! i)) else None
   | KVec16 u xs \<Rightarrow> if t = KH then (if xs ! i = NH then None else Some (sint (xs ! i))) else None
   | KVec32 u xs \<Rightarrow> if t = KI \<or> t = KD \<or> t = KT then (if xs ! i = NI then None else Some (sint (xs ! i))) else None
   | KVec64 u xs \<Rightarrow> if t = KJ \<or> t = KP \<or> t = KN then (if xs ! i = NJ then None else Some (sint (xs ! i))) else None
   | _ \<Rightarrow> None)"

text \<open>\<^verbatim>\<open>windows(2).all\<close>\<close>

fun all_pairs :: "('a \<Rightarrow> 'a \<Rightarrow> bool) \<Rightarrow> 'a list \<Rightarrow> bool" where
  "all_pairs p (x # y # r) = (p x y \<and> all_pairs p (y # r))"
| "all_pairs p _ = True"

definition sampled :: "kval \<Rightarrow> int \<Rightarrow> nat \<Rightarrow> int list" where
  "sampled col t n =
    (let m = min SAMPLE n; step = max (n div m) 1
     in map the (filter (\<lambda>x. x \<noteq> None) (map (\<lambda>i. probe col t (i * step)) [0..<m])))"

text \<open>
  The estimate is None for \<^verbatim>\<open>usize::MAX\<close>, far above the threshold.
\<close>

definition card_below :: "nat \<Rightarrow> int list \<Rightarrow> bool" where
  "card_below n v =
    (let s = length v; d = length (remdups v) in
     if min SAMPLE n = n then d < DICT_CARD
     else if d = s then False
     else s * s div (2 * (s - d)) < DICT_CARD)"

definition pick_int :: "kval \<Rightarrow> int \<Rightarrow> nat \<Rightarrow> bool \<Rightarrow> enc" where
  "pick_int col t n dict =
    (if n < 2 then EPlain
     else let v = sampled col t n in
       if length v < 2 then EPlain
       else if all_pairs (\<le>) v \<or> all_pairs (\<ge>) v then EDelta
       else if card_below n v then (if dict then EDict else EDelta)
       else EPlain)"

definition pick_enc :: "kval \<Rightarrow> int \<Rightarrow> nat \<Rightarrow> opts \<Rightarrow> enc" where
  "pick_enc col t n ops =
    (if t = KB then ERle
     else if t = KE \<or> t = KF then EPlain
     else if t = KS then (if op_dict ops then EDict else EPlain)
     else if t = KZ then EPlain
     else pick_int col t n (op_dict ops))"

text \<open>The writer properties of one column: the dictionary mode and the explicit encoding.\<close>

datatype encoding = PLAIN | DELTA_BINARY_PACKED | RLE

definition set_enc :: "(string \<Rightarrow> (bool \<times> encoding option) option) \<Rightarrow> string \<Rightarrow> enc \<Rightarrow> string \<Rightarrow> (bool \<times> encoding option) option" where
  "set_enc b name e = (case e of
     EDict \<Rightarrow> b(name \<mapsto> (True, case b name of None \<Rightarrow> None | Some (_, x) \<Rightarrow> x))
   | EPlain \<Rightarrow> b(name \<mapsto> (False, Some PLAIN))
   | EDelta \<Rightarrow> b(name \<mapsto> (False, Some DELTA_BINARY_PACKED))
   | ERle \<Rightarrow> b(name \<mapsto> (False, Some RLE)))"

section \<open>What accepted options say\<close>

text \<open>The value of the last entry under a key, among the first \<open>n\<close>.\<close>

primrec last_entry :: "kval \<Rightarrow> kval \<Rightarrow> string \<Rightarrow> nat \<Rightarrow> string val option" where
  "last_entry keys vals k 0 = None"
| "last_entry keys vals k (Suc n) =
    (if key_at keys n = k then Some (tree_val_at vals n) else last_entry keys vals k n)"

definition entry_int :: "string val option \<Rightarrow> i64 option" where
  "entry_int v = (case v of Some (VInt n) \<Rightarrow> Some n | _ \<Rightarrow> None)"

definition entry_sym :: "string val option \<Rightarrow> string option" where
  "entry_sym v = (case v of Some (VSym s) \<Rightarrow> Some s | _ \<Rightarrow> None)"

definition entry_bool :: "string val option \<Rightarrow> bool" where
  "entry_bool v = (case v of Some (VBool b) \<Rightarrow> b | _ \<Rightarrow> True)"

definition entry_rg :: "string val option \<Rightarrow> nat" where
  "entry_rg v = (case entry_int v of Some n \<Rightarrow> unat n | None \<Rightarrow> ROW_GROUP)"

lemmas entry_defs = entry_int_def entry_sym_def entry_bool_def entry_rg_def

definition opts_read :: "kval \<Rightarrow> kval \<Rightarrow> nat \<Rightarrow> opt_state \<Rightarrow> bool" where
  "opts_read keys vals n st \<longleftrightarrow> (let (ops, codec, level) = st in
     (\<forall>i < n. key_at keys i \<in> {''codec'', ''level'', ''rg'', ''dict'', ''stats''}) \<and>
     codec = entry_sym (last_entry keys vals ''codec'' n) \<and> level = entry_int (last_entry keys vals ''level'' n) \<and>
     op_rg ops = entry_rg (last_entry keys vals ''rg'' n) \<and> 0 < op_rg ops \<and> op_rg ops < 2 ^ 63 \<and>
     op_dict ops = entry_bool (last_entry keys vals ''dict'' n) \<and>
     op_stats ops = entry_bool (last_entry keys vals ''stats'' n))"

lemma entry_simps [simp]:
  "entry_int (Some (VInt n)) = Some n" "entry_sym (Some (VSym s)) = Some s" "entry_bool (Some (VBool b)) = b"
  "entry_rg (Some (VInt n)) = unat n"
  by (simp_all add: entry_defs)

lemma pos_sint: "0 < sint (n :: i64) \<Longrightarrow> 0 < unat n \<and> unat n < 2 ^ 63"
proof -
  assume pos: "0 < sint n"
  have "uint n = take_bit 64 (sint n)"
    using uint_word_of_int[of "sint n", where 'a = 64] by (simp add: take_bit_eq_mod)
  also have "\<dots> = sint n"
    using pos sint_less[of n] by (simp add: take_bit_int_eq_self)
  finally have "unat n = nat (sint n)"
    by (metis nat_uint_eq)
  with pos sint_less[of n] show ?thesis
    by simp
qed

lemma opt_step_Inr:
  assumes "opt_step keys vals (ops, codec, level) n = Inr st"
  obtains (codec) s where "key_at keys n = ''codec''" "tree_val_at vals n = VSym s" "st = (ops, Some s, level)"
  | (level) l where "key_at keys n = ''level''" "tree_val_at vals n = VInt l" "st = (ops, codec, Some l)"
  | (rg) r where "key_at keys n = ''rg''" "tree_val_at vals n = VInt r" "0 < sint r" "st = (ops\<lparr>op_rg := unat r\<rparr>, codec, level)"
  | (dict) b where "key_at keys n = ''dict''" "tree_val_at vals n = VBool b" "st = (ops\<lparr>op_dict := b\<rparr>, codec, level)"
  | (stats) b where "key_at keys n = ''stats''" "tree_val_at vals n = VBool b" "st = (ops\<lparr>op_stats := b\<rparr>, codec, level)"
  using assms unfolding opt_step_def Let_def prod.case
  by (cases "tree_val_at vals n") (simp_all split: if_splits)

lemma opt_step_read:
  assumes "opt_step keys vals st n = Inr st'" "opts_read keys vals n st"
  shows "opts_read keys vals (Suc n) st'"
proof -
  have small: "0 < sint (r :: i64) \<Longrightarrow> unat r < 9223372036854775808" for r
    using pos_sint[of r] by simp
  obtain ops codec level where st: "st = (ops, codec, level)"
    by (cases st)
  note r = assms(2)[unfolded opts_read_def st Let_def prod.case]
  from assms(1)[unfolded st] show ?thesis
    by (cases rule: opt_step_Inr) (use r in \<open>simp_all add: opts_read_def less_Suc_eq_le le_less all_conj_distrib pos_sint small\<close>)
qed

lemma fold_opts_read:
  "foldR (opt_step keys vals) (opts_default, None, None) [0..<n] = Inr st \<Longrightarrow> opts_read keys vals n st"
proof (induction n arbitrary: st)
  case 0
  then show ?case
    by (auto simp: opts_read_def opts_default_def entry_defs ROW_GROUP_def)
next
  case (Suc n)
  then show ?case
    by (auto simp: foldR_append rbind_Inr_iff intro: opt_step_read)
qed

lemma codec_of_level:
  assumes "codec_of zl gl codec level = Inr cm"
  shows "case cm of
      ZSTD l \<Rightarrow> codec = Some ''zstd'' \<and> zl l \<and> sint l = (case level of None \<Rightarrow> 1 | Some n \<Rightarrow> sint n)
    | GZIP l \<Rightarrow> codec = Some ''gzip'' \<and> gl l \<and> uint l = (case level of None \<Rightarrow> 6 | Some n \<Rightarrow> sint n)
    | SNAPPY \<Rightarrow> codec = Some ''snappy''
    | LZ4_RAW \<Rightarrow> codec = Some ''lz4''
    | UNCOMPRESSED \<Rightarrow> codec = None \<or> codec = Some ''none''"
proof -
  have z: "sint (scast n :: i32) = sint n" if "fits_signed TYPE(32) (sint n)" for n :: i64
    using sint_of_int_fits[OF that] by simp
  have g: "uint (scast n :: u32) = sint n" if "0 \<le> sint n" "sint n < 4294967296" for n :: i64
    using that uint_word_of_int[of "sint n", where 'a = 32] by (simp add: take_bit_int_eq_self)
  show ?thesis
    using assms by (auto simp: codec_of_def Let_def z g split: option.splits if_splits)
qed


lemma ascii_keys: "utf8_ok ''codec''" "utf8_ok ''level''" "utf8_ok ''rg''" "utf8_ok ''zstd''"
  by (rule utf8_ascii, simp)+


text \<open>A column without nulls that never decreases over its sampled rows.\<close>

definition sampled_rising :: "kval \<Rightarrow> int \<Rightarrow> nat \<Rightarrow> bool" where
  "sampled_rising col t n \<longleftrightarrow> 2 \<le> length (sampled col t n) \<and> sorted (sampled col t n)"

lemma all_pairs_sorted: "sorted xs \<Longrightarrow> all_pairs (\<le>) (xs :: int list)"
  by (induction "(\<le>) :: int \<Rightarrow> int \<Rightarrow> bool" xs rule: all_pairs.induct) auto

lemma stride_in_range: "0 < n \<Longrightarrow> i < min SAMPLE n \<Longrightarrow> i * max (n div min SAMPLE n) 1 < n"
proof -
  assume n: "0 < n" and i: "i < min SAMPLE n"
  let ?m = "min SAMPLE n"
  have "1 \<le> n div ?m"
    using n by (simp add: SAMPLE_def Suc_le_eq div_greater_zero_iff)
  then have "i * max (n div ?m) 1 = i * (n div ?m)"
    by (simp add: max_def)
  also have "\<dots> < ?m * (n div ?m)"
    using i \<open>1 \<le> n div ?m\<close> by simp
  also have "\<dots> \<le> n"
    by simp
  finally show ?thesis .
qed

text \<open>C30
  The encoding chosen for a column is one its values can have: the probe stays inside the
  column, booleans alone are run-length encoded, delta encoding goes to integer columns only,
  a dictionary is used only where the options allow one, and an integer column whose sample
  rises is delta encoded.
\<close>

theorem encoding_fits:
  assumes "arrow_type t True = Inr w"
  shows "(0 < n \<longrightarrow> (\<forall>i < min SAMPLE n. i * max (n div min SAMPLE n) 1 < n)) \<and>
    (pick_enc col t n ops = ERle) = (t = KB) \<and>
    (pick_enc col t n ops = EDelta \<longrightarrow> t \<in> {KG, KH, KI, KJ, KD, KT, KP, KN}) \<and>
    (pick_enc col t n ops = EDict \<longrightarrow> op_dict ops) \<and>
    (t \<in> {KG, KH, KI, KJ, KD, KT, KP, KN} \<and> 2 \<le> n \<and> sampled_rising col t n \<longrightarrow> pick_enc col t n ops = EDelta)"
proof -
  have t: "t \<in> {KB, KG, KH, KI, KJ, KE, KF, KS, KD, KT, KP, KZ, KN}"
    using assms by (auto simp: arrow_type_def split: if_splits)
  have ints: "pick_int col t n b \<noteq> ERle" "pick_int col t n b = EDict \<Longrightarrow> b" for b
    by (auto simp: pick_int_def Let_def split: if_splits)
  have rise: "2 \<le> n \<Longrightarrow> sampled_rising col t n \<Longrightarrow> pick_int col t n b = EDelta" for b
    by (simp add: pick_int_def sampled_rising_def all_pairs_sorted)
  show ?thesis
  proof (intro conjI)
    show "0 < n \<longrightarrow> (\<forall>i < min SAMPLE n. i * max (n div min SAMPLE n) 1 < n)"
      using stride_in_range by blast
    show "(pick_enc col t n ops = ERle) = (t = KB)"
      using ints(1) by (simp add: pick_enc_def)
    show "pick_enc col t n ops = EDelta \<longrightarrow> t \<in> {KG, KH, KI, KJ, KD, KT, KP, KN}"
      using t unfolding pick_enc_def by (elim insertE emptyE) (simp_all split: if_splits)
    show "pick_enc col t n ops = EDict \<longrightarrow> op_dict ops"
      using ints(2)[of "op_dict ops"] by (auto simp: pick_enc_def)
    show "t \<in> {KG, KH, KI, KJ, KD, KT, KP, KN} \<and> 2 \<le> n \<and> sampled_rising col t n \<longrightarrow> pick_enc col t n ops = EDelta"
    proof (intro impI, elim conjE)
      assume "t \<in> {KG, KH, KI, KJ, KD, KT, KP, KN}" and n: "2 \<le> n" "sampled_rising col t n"
      then have "t \<noteq> KB \<and> t \<noteq> KE \<and> t \<noteq> KF \<and> t \<noteq> KS \<and> t \<noteq> KZ"
        by (elim insertE emptyE) simp_all
      then show "pick_enc col t n ops = EDelta"
        using rise[OF n] by (simp add: pick_enc_def)
    qed
  qed
qed

theorem encoding_fits_witness:
  "pick_enc (KVec64 KJ [1, 2, 5]) KJ 3 opts_default = EDelta"
proof -
  have "sampled_rising (KVec64 KJ [1, 2, 5]) KJ 3"
  proof -
    have "min SAMPLE 3 = 3" "[0..<3] = [0, 1, 2 :: nat]"
      by (simp_all add: SAMPLE_def upt_rec)
    then have "sampled (KVec64 KJ [1, 2, 5]) KJ 3 = [1, 2, 5]"
      by (simp add: sampled_def probe_def NJ_def)
    then show ?thesis
      by (simp add: sampled_rising_def)
  qed
  moreover have "arrow_type KJ True = Inr Int64"
    by (simp add: arrow_type_def)
  ultimately show ?thesis
    using encoding_fits[of KJ Int64 3 "KVec64 KJ [1, 2, 5]" opts_default] by simp
qed

end
