(* ===== verification/ColWrite.thy ===== *)
theory ColWrite
  imports Image Stats RawCol Args
begin

text \<open>
  One L column to an Arrow array (\<^verbatim>\<open>col_raw\<close>, \<^verbatim>\<open>col_prim\<close>,
  \<^verbatim>\<open>col_sym\<close>, \<^verbatim>\<open>col_to_arrow\<close> of
  \<^verbatim>\<open>src/src/write.rs\<close>). Whether a values buffer is borrowed or copied is not
  visible in the array (\<open>HostHeap\<close> shows it for \<^verbatim>\<open>vals_of\<close>), so here the buffer
  is the slice itself.
\<close>

section \<open>Fixed-width columns\<close>

text \<open>
  With no shift the bitmap is one pass over the source; with one, the shifted values and the
  bitmap come out of the same pass over blocks of 64.
\<close>

definition prim_step :: "('a::len word \<Rightarrow> bool) \<Rightarrow> 'a word \<Rightarrow> 'a word list \<times> u64 list \<times> bool \<Rightarrow> 'a word list \<Rightarrow>
    'a word list \<times> u64 list \<times> bool" where
  "prim_step valid sh st c =
    (let (v, bits, nulls) = st; w = pack_bits valid 0 0 c in
     (v @ map (\<lambda>x. x + sh) c, bits @ [w], nulls \<or> w \<noteq> drop_bit (64 - length c) (NOT 0)))"

definition col_prim :: "'a::len word list \<Rightarrow> 'a word \<Rightarrow> ('a word \<Rightarrow> bool) \<Rightarrow> 'a word list \<times> null_buf option" where
  "col_prim s sh valid =
    (if sh = 0 then (s, map_option (\<lambda>b. bit_chunks b (length s)) (null_bits s valid))
     else let (v, bits, nulls) = foldl (prim_step valid sh) ([], [], False) (chunks 64 s) in
       (v, if nulls then Some (bit_chunks bits (length s)) else None))"

section \<open>Floats\<close>

definition is_nan64 :: "64 word \<Rightarrow> bool" where
  "is_nan64 b \<longleftrightarrow> take_bit 11 (drop_bit 52 b) = 0x7FF \<and> take_bit 52 b \<noteq> 0"

text \<open>An IEEE double: a finite one is its sign, an integral significand and a power of two.\<close>

datatype f64 = FNaN | FInf bool | FFin bool nat int

definition f64_of :: "64 word \<Rightarrow> f64" where
  "f64_of b =
    (let s = bit b 63; e = unat (take_bit 11 (drop_bit 52 b)); m = unat (take_bit 52 b) in
     if e = 2047 then (if m = 0 then FInf s else FNaN)
     else if e = 0 then FFin s m (-1074)
     else FFin s (m + 2 ^ 52) (int e - 1075))"

fun bit_len :: "nat \<Rightarrow> nat" where
  "bit_len n = (if n = 0 then 0 else Suc (bit_len (n div 2)))"

declare bit_len.simps [simp del]

definition round_even :: "nat \<Rightarrow> nat \<Rightarrow> nat" where
  "round_even n k =
    (let q = n div 2 ^ k; r = n mod 2 ^ k; h = 2 ^ k div 2 in
     if 0 < k \<and> (h < r \<or> (r = h \<and> odd q)) then q + 1 else q)"

text \<open>
  Multiplication by a positive integral constant, rounded to 53 significant bits. A result
  below the normal range rounds earlier in hardware; it is then below one either way, and only
  its integral part is used.
\<close>

definition f64_scale :: "nat \<Rightarrow> f64 \<Rightarrow> f64" where
  "f64_scale c x = (case x of FFin s m e \<Rightarrow>
       let n = m * c; k = bit_len n - 53; q = round_even n k in
       if 1024 < int (bit_len q) + e + int k then FInf s else FFin s q (e + int k)
     | _ \<Rightarrow> x)"

definition below_i64 :: "f64 \<Rightarrow> bool" where
  "below_i64 x = (case x of FNaN \<Rightarrow> False | FInf s \<Rightarrow> s
     | FFin s m e \<Rightarrow> s \<and> (if 0 \<le> e then 2 ^ 63 < m * 2 ^ nat e else 2 ^ (63 + nat (- e)) < m))"

text \<open>\<^verbatim>\<open>f as i64\<close>: towards zero, saturating.\<close>

definition f64_as_i64 :: "f64 \<Rightarrow> i64" where
  "f64_as_i64 x = (case x of FNaN \<Rightarrow> 0 | FInf s \<Rightarrow> if s then NJ else NJ - 1
     | FFin s m e \<Rightarrow>
        let t = int (if 0 \<le> e then m * 2 ^ nat e else m div 2 ^ nat (- e)); v = (if s then - t else t) in
        of_int (max (- (2 ^ 63)) (min (2 ^ 63 - 1) v)))"

text \<open>A datetime, in days since 2000, as nanoseconds since 1970.\<close>

definition days_ns :: "64 word \<Rightarrow> i64 option" where
  "days_ns b =
    (let f = f64_scale 86400000000000 (f64_of b) in
     if f = FNaN \<or> below_i64 f then None else checked_add_s (f64_as_i64 f) NS2000)"

section \<open>Symbol columns\<close>

text \<open>
  The hash of an interned pointer. It is a bijection of the 64-bit words, so two symbols never
  share a hash: the map keyed by it is keyed by the pointer.
\<close>

definition GOLDEN :: u64 where "GOLDEN = 0x9E3779B97F4A7C15"
definition ptr_hash :: "u64 \<Rightarrow> u64" where
  "ptr_hash v = (let h = v * GOLDEN in h XOR drop_bit 32 h)"

text \<open>The byte-wise arm the trait asks for; the only keys are pointers.\<close>

definition ptr_hash_bytes :: "u64 \<Rightarrow> u8 list \<Rightarrow> u64" where
  "ptr_hash_bytes h bs = foldl (\<lambda>h b. (h XOR ucast b) * 0x100000001B3) h bs"

lemma GOLDEN_odd: "GOLDEN * 0xf1de83e19937733d = 1"
  by (simp add: GOLDEN_def)

lemma xor_shift_back: "(h XOR drop_bit 32 h) XOR drop_bit 32 (h XOR drop_bit 32 h) = (h :: u64)"
proof (rule bit_word_eqI)
  fix n
  have "\<not> bit h (64 + n)"
    using bit_imp_le_length[of h "64 + n"] by auto
  then show "bit ((h XOR drop_bit 32 h) XOR drop_bit 32 (h XOR drop_bit 32 h)) n = bit h n"
    by (cases "bit h n"; cases "bit h (32 + n)") (simp_all add: bit_xor_iff bit_drop_bit_eq)
qed

lemma GOLDEN_back: "p * GOLDEN * 0xf1de83e19937733d = p"
proof -
  have "p * GOLDEN * 0xf1de83e19937733d = p * (GOLDEN * 0xf1de83e19937733d)"
    by (rule mult.assoc)
  also have "\<dots> = p * 1"
    by (rule arg_cong[OF GOLDEN_odd])
  also have "\<dots> = p"
    by (rule mult_1_right)
  finally show ?thesis .
qed

lemma ptr_hash_inj: "ptr_hash p = ptr_hash q \<longleftrightarrow> p = q"
proof
  assume "ptr_hash p = ptr_hash q"
  then have "p * GOLDEN = q * GOLDEN"
    using xor_shift_back[of "p * GOLDEN"] xor_shift_back[of "q * GOLDEN"] unfolding ptr_hash_def Let_def by metis
  then show "p = q"
    using GOLDEN_back[of p] GOLDEN_back[of q] by metis
qed simp

record 'p sym_state =
  ss_ids :: "'p \<Rightarrow> i32 option"
  ss_vals :: "string list"
  ss_keys :: "i32 list"
  ss_nulls :: "bool list option"
  ss_last :: "('p \<times> i32) option"

definition sym_id :: "('p \<Rightarrow> string) \<Rightarrow> 'p sym_state \<Rightarrow> 'p \<Rightarrow> i32 \<times> ('p \<Rightarrow> i32 option) \<times> string list" where
  "sym_id txt st p =
    (case ss_ids st p of
       Some k \<Rightarrow> (k, ss_ids st, ss_vals st)
     | None \<Rightarrow>
        (if utf8_ok (txt p)
         then let vals = ss_vals st @ [txt p]; k = of_nat (length vals) - 1
              in (k, (ss_ids st)(p \<mapsto> k), vals)
         else (-1, (ss_ids st)(p \<mapsto> -1), ss_vals st)))"

definition sym_step :: "('p \<Rightarrow> string) \<Rightarrow> 'p sym_state \<Rightarrow> nat \<times> 'p \<Rightarrow> 'p sym_state" where
  "sym_step txt st x =
    (let (i, p) = x;
         (k, ids, vals) = (case ss_last st of
            Some (q, k) \<Rightarrow> if p = q then (k, ss_ids st, ss_vals st) else sym_id txt st p
          | None \<Rightarrow> sym_id txt st p);
         nulls = (if sint k < 0 \<and> ss_nulls st = None then Some (replicate i True) else ss_nulls st)
     in \<lparr>ss_ids = ids, ss_vals = vals, ss_keys = ss_keys st @ [of_int (max (sint k) 0)],
         ss_nulls = map_option (\<lambda>b. b @ [0 \<le> sint k]) nulls, ss_last = Some (p, k)\<rparr>)"

definition pack_bools :: "bool list \<Rightarrow> null_buf" where
  "pack_bools bs = bit_chunks (map (pack_bits (\<lambda>b. b) 0 0) (chunks 64 bs)) (length bs)"

text \<open>The keys as the consumer indexes with them, and the dictionary's strings.\<close>

definition col_sym :: "('p \<Rightarrow> string) \<Rightarrow> arc \<Rightarrow> 'p list \<Rightarrow> dict_array \<times> string list" where
  "col_sym txt a ps =
    (let st = foldl (sym_step txt)
           \<lparr>ss_ids = Map.empty, ss_vals = [], ss_keys = [], ss_nulls = None, ss_last = None\<rparr> (enumerate 0 ps);
         vals = (if ss_vals st = [] \<and> ss_keys st \<noteq> [] then [[]] else ss_vals st)
     in (\<lparr>da_keys = map unat (ss_keys st), da_nulls = map_option pack_bools (ss_nulls st), da_values = a\<rparr>, vals))"

section \<open>The dispatch\<close>

definition slice :: "nat \<Rightarrow> nat \<Rightarrow> 'a list \<Rightarrow> 'a list" where
  "slice off n xs = take n (drop off xs)"

text \<open>
  The array of rows \<open>[off, off + n)\<close> of a column, with the strings of its dictionary; \<open>a\<close>
  names the dictionary it builds.
\<close>

definition col_to_arrow :: "arc \<Rightarrow> kval \<Rightarrow> nat \<Rightarrow> nat \<Rightarrow> (arr \<times> string list) result" where
  "col_to_arrow a col off n =
    (let t = ktype col;
         p32 = (\<lambda>dt xs sh valid. let (v, nb) = col_prim (slice off n xs) sh valid in Inr (Arr32 dt v nb, []));
         p64 = (\<lambda>dt xs sh valid. let (v, nb) = col_prim (slice off n xs) sh valid in Inr (Arr64 dt v nb, []));
         no = (if t = 0 then Inl ''nyi: list column'' else Inl (''nyi: column type '' @ show_int t))
     in case col of
       KVec8 u xs \<Rightarrow>
         if t = KB then Inr (ArrBool (map (\<lambda>x. x \<noteq> 0) (slice off n xs)) None, [])
         else if t = KG then Inr (Arr8 UInt8 (slice off n xs) None, []) else no
     | KVec16 u xs \<Rightarrow> if t = KH then Inr (Arr16 Int16 (slice off n xs) None, []) else no
     | KVec32 u xs \<Rightarrow>
         if t = KE then Inr (Arr32 Float32 (slice off n xs) None, [])
         else if t = KI then p32 Int32 xs 0 (\<lambda>x. x \<noteq> NI)
         else if t = KD then p32 Date32 xs DAY2000 (\<lambda>x. x \<noteq> NI \<and> sint x \<le> sint (0x7FFFFFFF - DAY2000))
         else if t = KT then p32 (Time32 Millisecond) xs 0 (\<lambda>x. x \<noteq> NI) else no
     | KVec64 u xs \<Rightarrow>
         if t = KJ then p64 Int64 xs 0 (\<lambda>x. x \<noteq> NJ)
         else if t = KF then p64 Float64 xs 0 (\<lambda>x. \<not> is_nan64 x)
         else if t = KP then p64 (Timestamp Nanosecond None) xs NS2000
           (\<lambda>x. x \<noteq> NJ \<and> sint x \<le> sint (0x7FFFFFFFFFFFFFFF - NS2000))
         else if t = KN then p64 (Duration Nanosecond) xs 0 (\<lambda>x. x \<noteq> NJ)
         else if t = KZ then
           (let r = map days_ns (slice off n xs)
            in Inr (Arr64 (Timestamp Nanosecond None) (map (\<lambda>x. case x of None \<Rightarrow> 0 | Some v \<Rightarrow> v) r)
                 (map_option (\<lambda>b. bit_chunks b (length r)) (null_bits r (\<lambda>x. x \<noteq> None))), []))
         else no
     | KSyms ss \<Rightarrow>
         (let (da, vals) = col_sym (\<lambda>s. s) a (slice off n ss) in Inr (ArrDict (Dictionary Int32 Utf8) da, vals))
     | _ \<Rightarrow> no)"

section \<open>What a fixed-width column keeps\<close>

lemma prim_fold:
  "foldl (prim_step valid sh) (v, bits, nulls) cs =
     (v @ map (\<lambda>x. x + sh) (concat cs), bits @ map (pack_bits valid 0 0) cs,
      nulls \<or> list_ex (\<lambda>c. pack_bits valid 0 0 c \<noteq> drop_bit (64 - length c) (NOT 0)) cs)"
  by (induction cs arbitrary: v bits nulls) (auto simp: prim_step_def Let_def)

text \<open>The fused pass is the two separate ones.\<close>

lemma col_prim_eq:
  "col_prim s sh valid = (map (\<lambda>x. x + sh) s, map_option (\<lambda>b. bit_chunks b (length s)) (null_bits s valid))"
  by (simp add: col_prim_def prim_fold chunks_concat null_bits_def list_ex_iff o_def Let_def)

lemma written_valid:
  assumes "i < length s"
  shows "(case map_option (\<lambda>b. bit_chunks b (length s)) (null_bits s valid) of
      None \<Rightarrow> True | Some nb \<Rightarrow> nb_valid nb i) \<longleftrightarrow> valid (s ! i)"
proof (cases "null_bits s valid")
  case None
  then have "list_all valid s"
    using null_bits_None_iff by blast
  with None assms show ?thesis
    by (simp add: list_all_length)
next
  case (Some bits)
  have "length s div 64 \<le> length bits"
    using null_bits_valid[OF Some assms] by (simp add: div_ceil_def div_le_mono)
  with Some assms show ?thesis
    using null_bits_valid[OF Some assms] by (simp add: bit_chunks_valid)
qed

text \<open>What a stored row reads back as.\<close>

definition kept_row :: "('a::len word \<Rightarrow> bool) \<Rightarrow> 'a word \<Rightarrow> 'a word \<Rightarrow> 'a word \<Rightarrow> 'a word" where
  "kept_row valid nullv sh x =
    (if valid x then (if sh = 0 then x else shift_down signed_native nullv sh (x + sh)) else nullv)"

lemma col_prim_image:
  assumes "col_prim s sh valid = (v, nb)"
  shows "prim_image signed_native v nb nullv sh = map (kept_row valid nullv sh) s"
proof (rule nth_equalityI)
  have v: "v = map (\<lambda>x. x + sh) s" and nb: "nb = map_option (\<lambda>b. bit_chunks b (length s)) (null_bits s valid)"
    using assms by (simp_all add: col_prim_eq)
  show "length (prim_image signed_native v nb nullv sh) = length (map (kept_row valid nullv sh) s)"
    by (simp add: prim_image_def v)
  fix i
  assume "i < length (prim_image signed_native v nb nullv sh)"
  then have i: "i < length s"
    by (simp add: prim_image_def v)
  have "prim_row signed_native v nb nullv sh i = kept_row valid nullv sh (s ! i)"
    unfolding prim_row_def kept_row_def nb written_valid[OF i] using i by (simp add: v)
  then show "prim_image signed_native v nb nullv sh ! i = map (kept_row valid nullv sh) s ! i"
    using i by (simp add: prim_image_def v)
qed

lemma kept_plain: "kept_row valid nullv 0 x = (if valid x then x else nullv)"
  by (simp add: kept_row_def)

text \<open>The epoch shift out and back is the identity where the writer did not refuse the value.\<close>

lemma unshift:
  assumes "fits_signed TYPE('a::len) (sint (x :: 'a word) + sint sh)"
  shows "checked_sub_s (x + sh) sh = Some x"
proof -
  have "sint (x + sh) = sint x + sint sh"
    using assms by (rule sint_add_fits)
  then show ?thesis
    using fits_signed_sint[of x] by (simp add: checked_sub_s_def)
qed

lemma kept_date:
  "kept_row (\<lambda>x. x \<noteq> NI \<and> sint x \<le> sint (0x7FFFFFFF - DAY2000)) NI DAY2000 x =
     (if sint x \<le> 2 ^ 31 - 1 - 10957 then x else NI)"
proof (cases "sint x \<le> 2 ^ 31 - 1 - 10957")
  case True
  then have "fits_signed TYPE(32) (sint x + sint DAY2000)"
    using sint_greater_eq[of x] by (simp add: fits_signed_def sint_epochs)
  moreover have "sint (0x7FFFFFFF - DAY2000) = 2 ^ 31 - 1 - 10957" "DAY2000 \<noteq> 0"
    by (simp_all add: DAY2000_def)
  ultimately show ?thesis
    using True by (simp add: kept_row_def shift_down_NI unshift)
next
  case False
  then show ?thesis
    by (simp add: kept_row_def DAY2000_def)
qed

lemma kept_timestamp:
  "kept_row (\<lambda>x. x \<noteq> NJ \<and> sint x \<le> sint (0x7FFFFFFFFFFFFFFF - NS2000)) NJ NS2000 x =
     (if sint x \<le> 2 ^ 63 - 1 - 946684800000000000 then x else NJ)"
proof (cases "sint x \<le> 2 ^ 63 - 1 - 946684800000000000")
  case True
  then have "fits_signed TYPE(64) (sint x + sint NS2000)"
    using sint_greater_eq[of x] by (simp add: fits_signed_def sint_epochs)
  moreover have "sint (0x7FFFFFFFFFFFFFFF - NS2000) = 2 ^ 63 - 1 - 946684800000000000" "NS2000 \<noteq> 0"
    by (simp_all add: NS2000_def)
  ultimately show ?thesis
    using True by (simp add: kept_row_def shift_down_NJ unshift)
next
  case False
  then show ?thesis
    by (simp add: kept_row_def NS2000_def)
qed

section \<open>What a symbol column keeps\<close>

text \<open>An id names its string, or is -1 for a symbol whose bytes are not UTF-8.\<close>

definition good_id :: "string list \<Rightarrow> string \<Rightarrow> i32 \<Rightarrow> bool" where
  "good_id vals s k \<longleftrightarrow> (if utf8_ok s then \<exists>m < length vals. k = of_nat m \<and> vals ! m = s else k = -1)"

definition good_key :: "string list \<Rightarrow> string \<Rightarrow> i32 \<Rightarrow> bool" where
  "good_key vals s k \<longleftrightarrow> (if utf8_ok s then \<exists>m < length vals. k = of_nat m \<and> vals ! m = s else k = 0)"

definition sym_inv :: "('p \<Rightarrow> string) \<Rightarrow> 'p list \<Rightarrow> 'p sym_state \<Rightarrow> bool" where
  "sym_inv txt ps st \<longleftrightarrow>
     length (ss_vals st) \<le> length ps \<and>
     (\<forall>p k. ss_ids st p = Some k \<longrightarrow> good_id (ss_vals st) (txt p) k) \<and>
     (\<forall>p k. ss_last st = Some (p, k) \<longrightarrow> ss_ids st p = Some k) \<and>
     list_all2 (\<lambda>p k. good_key (ss_vals st) (txt p) k) ps (ss_keys st) \<and>
     ss_nulls st = (if list_all (\<lambda>p. utf8_ok (txt p)) ps then None else Some (map (\<lambda>p. utf8_ok (txt p)) ps))"

lemma good_id_more: "good_id vals s k \<Longrightarrow> good_id (vals @ vs) s k"
  by (auto simp: good_id_def nth_append split: if_splits)

lemma good_key_more: "good_key vals s k \<Longrightarrow> good_key (vals @ vs) s k"
  by (auto simp: good_key_def nth_append split: if_splits)

lemma sint_small_nat: "m < 2 ^ 31 \<Longrightarrow> sint (of_nat m :: i32) = int m"
  using sint_of_int_fits[of "int m", where 'a = 32] by (simp add: fits_signed_def)

lemma good_id_sign:
  assumes "good_id vals s k" "length vals < 2 ^ 31"
  shows "0 \<le> sint k \<longleftrightarrow> utf8_ok s" "good_key vals s (of_int (max (sint k) 0))"
  using assms sint_small_nat by (auto simp: good_id_def good_key_def split: if_splits)

lemma sym_id_good:
  assumes ids: "\<forall>p k. ss_ids st p = Some k \<longrightarrow> good_id (ss_vals st) (txt p) k"
    and run: "sym_id txt st p = (k, ids', vals')"
  shows "\<exists>vs. vals' = ss_vals st @ vs \<and> length vs \<le> 1 \<and> good_id vals' (txt p) k \<and> ids' p = Some k \<and>
    (\<forall>q j. ids' q = Some j \<longrightarrow> good_id vals' (txt q) j)"
proof (cases "ss_ids st p")
  case (Some j)
  with run ids show ?thesis
    by (auto simp: sym_id_def)
next
  case None
  show ?thesis
  proof (cases "utf8_ok (txt p)")
    case True
    have "good_id (ss_vals st @ [txt p]) (txt p) (of_nat (length (ss_vals st)))"
      using True by (auto simp: good_id_def intro!: exI[of _ "length (ss_vals st)"])
    moreover have "\<forall>q j. ss_ids st q = Some j \<longrightarrow> good_id (ss_vals st @ [txt p]) (txt q) j"
      using ids good_id_more by blast
    ultimately show ?thesis
      using True None run by (auto simp: sym_id_def Let_def)
  next
    case False
    then have "good_id (ss_vals st) (txt p) (-1)"
      by (simp add: good_id_def)
    with False None run ids show ?thesis
      by (auto simp: sym_id_def split: if_splits)
  qed
qed

lemma sym_step_inv:
  assumes st: "sym_inv txt ps st" and len: "length ps < 2 ^ 31 - 1"
  shows "sym_inv txt (ps @ [p]) (sym_step txt st (length ps, p))"
proof -
  obtain k ids' vals' where pick: "(case ss_last st of
            Some (q, k) \<Rightarrow> if p = q then (k, ss_ids st, ss_vals st) else sym_id txt st p
          | None \<Rightarrow> sym_id txt st p) = (k, ids', vals')"
    by (metis prod_cases3)
  have ids: "\<forall>p k. ss_ids st p = Some k \<longrightarrow> good_id (ss_vals st) (txt p) k"
    using st by (simp add: sym_inv_def)
  have "\<exists>vs. vals' = ss_vals st @ vs \<and> length vs \<le> 1 \<and> good_id vals' (txt p) k \<and> ids' p = Some k \<and>
      (\<forall>q j. ids' q = Some j \<longrightarrow> good_id vals' (txt q) j)"
  proof (cases "\<exists>j. ss_last st = Some (p, j)")
    case True
    then obtain j where j: "ss_last st = Some (p, j)"
      by blast
    then have "ss_ids st p = Some j"
      using st by (simp add: sym_inv_def)
    with j pick ids show ?thesis
      by auto
  next
    case False
    then have "sym_id txt st p = (k, ids', vals')"
      using pick by (auto split: option.splits if_splits)
    then show ?thesis
      by (rule sym_id_good[OF ids])
  qed
  then obtain vs where vs: "vals' = ss_vals st @ vs" "length vs \<le> 1" "good_id vals' (txt p) k" "ids' p = Some k"
      "\<forall>q j. ids' q = Some j \<longrightarrow> good_id vals' (txt q) j"
    by blast
  have n: "length vals' \<le> length ps + 1"
    using vs(1,2) st by (simp add: sym_inv_def)
  then have small: "length vals' < 2 ^ 31"
    using len by linarith
  note sgn = good_id_sign[OF vs(3) small]
  have keys: "list_all2 (\<lambda>p k. good_key vals' (txt p) k) (ps @ [p]) (ss_keys st @ [of_int (max (sint k) 0)])"
    using st sgn(2) unfolding vs(1) sym_inv_def
    by (auto intro!: list_all2_appendI elim!: list_all2_mono intro: good_key_more)
  have "replicate (length ps) True = map (\<lambda>p. utf8_ok (txt p)) ps" if "list_all (\<lambda>p. utf8_ok (txt p)) ps"
    using that by (induction ps) auto
  then have nulls: "map_option (\<lambda>b. b @ [0 \<le> sint k])
      (if sint k < 0 \<and> ss_nulls st = None then Some (replicate (length ps) True) else ss_nulls st) =
      (if list_all (\<lambda>p. utf8_ok (txt p)) (ps @ [p]) then None else Some (map (\<lambda>p. utf8_ok (txt p)) (ps @ [p])))"
    using st sgn(1) by (auto simp: sym_inv_def not_less[symmetric])
  show ?thesis
    using keys n vs(4,5) unfolding sym_step_def sym_inv_def split pick Let_def nulls by simp
qed

lemma sym_fold_inv:
  "length ps < 2 ^ 31 \<Longrightarrow> sym_inv txt ps (foldl (sym_step txt)
     \<lparr>ss_ids = Map.empty, ss_vals = [], ss_keys = [], ss_nulls = None, ss_last = None\<rparr> (enumerate 0 ps))"
proof (induction ps rule: rev_induct)
  case Nil
  then show ?case by (simp add: sym_inv_def)
next
  case (snoc p ps)
  then show ?case
    using sym_step_inv[OF snoc.IH, of p] by (simp add: enumerate_append_eq)
qed

lemma pack_bools_ok:
  assumes "\<not> list_all (\<lambda>b. b) bs"
  shows "nb_ok (pack_bools bs) \<and> nb_length (pack_bools bs) = length bs"
    and "i < length bs \<Longrightarrow> nb_valid (pack_bools bs) i \<longleftrightarrow> bs ! i"
proof -
  let ?w = "map (pack_bits (\<lambda>b. b) 0 0) (chunks 64 bs)"
  have "length ?w = div_ceil (length bs) 64"
    by (simp add: chunks_count)
  then have le: "length bs div 64 \<le> length ?w"
    by (simp add: div_ceil_def div_le_mono)
  then have k: "min (length ?w) (length bs div 64) = length bs div 64"
    by (rule min_absorb2)
  show "nb_ok (pack_bools bs) \<and> nb_length (pack_bools bs) = length bs"
    using k by (simp add: pack_bools_def bit_chunks_def nb_ok_def nb_length_def)
  have "null_bits bs (\<lambda>b. b) \<noteq> None"
    using assms null_bits_None_iff by blast
  then have w: "null_bits bs (\<lambda>b. b) = Some ?w"
    by (auto simp: null_bits_def Let_def o_def split: if_splits)
  show "nb_valid (pack_bools bs) i \<longleftrightarrow> bs ! i" if "i < length bs"
    using that le null_bits_valid[OF w that] by (simp add: pack_bools_def bit_chunks_valid)
qed

lemma unat_small_key: "m < 2 ^ 31 \<Longrightarrow> unat (of_nat m :: i32) = m"
  by (rule unat_of_nat_small) simp

lemma col_sym_rows:
  assumes n: "length ps < 2 ^ 31" and run: "col_sym txt a ps = (da, vals)"
  shows "length (da_keys da) = length ps \<and> da_values da = a \<and> dict_ok da \<and>
    (\<forall>i < length ps. sym_of intern (dict_row (map (Some \<circ> bytes_of) vals) da i) =
       intern (if utf8_ok (txt (ps ! i)) then bytes_of (txt (ps ! i)) else []))"
proof -
  let ?ok = "\<lambda>p. utf8_ok (txt p)"
  obtain st where st: "sym_inv txt ps st"
      "da = \<lparr>da_keys = map unat (ss_keys st), da_nulls = map_option pack_bools (ss_nulls st), da_values = a\<rparr>"
      "vals = (if ss_vals st = [] \<and> ss_keys st \<noteq> [] then [[]] else ss_vals st)"
    using sym_fold_inv[OF n, of "txt"] run by (auto simp: col_sym_def Let_def)
  have keys: "list_all2 (\<lambda>p k. good_key (ss_vals st) (txt p) k) ps (ss_keys st)" and small: "length (ss_vals st) < 2 ^ 31"
    and nulls: "ss_nulls st = (if list_all ?ok ps then None else Some (map ?ok ps))"
    using st(1) n by (auto simp: sym_inv_def)
  have len: "length (ss_keys st) = length ps"
    using keys by (simp add: list_all2_lengthD)
  have some: "\<not> list_all (\<lambda>b. b) (map ?ok ps)" if "\<not> list_all ?ok ps"
    using that by (simp add: list_all_iff)
  have "dict_ok da"
    using pack_bools_ok(1)[OF some] len by (auto simp: dict_ok_def st(2) nulls split: if_splits)
  moreover have "sym_of intern (dict_row (map (Some \<circ> bytes_of) vals) da i) =
       intern (if ?ok (ps ! i) then bytes_of (txt (ps ! i)) else [])" if i: "i < length ps" for i
  proof -
    have valid: "(case da_nulls da of None \<Rightarrow> False | Some nb \<Rightarrow> \<not> nb_valid nb i) \<longleftrightarrow> \<not> ?ok (ps ! i)"
      using pack_bools_ok(2)[OF some, of i] i by (auto simp: st(2) nulls list_all_length)
    show ?thesis
    proof (cases "?ok (ps ! i)")
      case False
      with valid show ?thesis
        by (simp add: dict_row_def sym_of_def)
    next
      case True
      then obtain m where m: "m < length (ss_vals st)" "ss_keys st ! i = of_nat m" "ss_vals st ! m = txt (ps ! i)"
        using list_all2_nthD[OF keys i] by (auto simp: good_key_def)
      then have "vals = ss_vals st"
        using st(3) by auto
      moreover have "da_keys da ! i = m"
        using m(1,2) small i len by (simp add: st(2) unat_small_key)
      ultimately show ?thesis
        using valid True m(1,3) by (simp add: dict_row_def sym_of_def)
    qed
  qed
  ultimately show ?thesis
    using len by (simp add: st(2))
qed

section \<open>What a column keeps\<close>

definition rows_of :: "kval \<Rightarrow> nat \<Rightarrow> nat \<Rightarrow> kval" where
  "rows_of col off n = (case col of
     KVec8 t xs \<Rightarrow> KVec8 t (slice off n xs) | KVec16 t xs \<Rightarrow> KVec16 t (slice off n xs)
   | KVec32 t xs \<Rightarrow> KVec32 t (slice off n xs) | KVec64 t xs \<Rightarrow> KVec64 t (slice off n xs)
   | KSyms ss \<Rightarrow> KSyms (slice off n ss) | v \<Rightarrow> v)"

text \<open>
  The payload a written column comes back as: itself, a boolean normalised, a date or a
  timestamp whose 1970 form leaves its type as the null, every NaN of a float column as the
  one null, a datetime as nanoseconds, a symbol that is not UTF-8 as the null symbol.
\<close>

definition kept :: "(u8 list \<Rightarrow> ptr) \<Rightarrow> kval \<Rightarrow> payload" where
  "kept intern col = (case col of
     KVec8 t xs \<Rightarrow> Pay8 (if t = KB then map (\<lambda>x. of_bool (x \<noteq> 0)) xs else xs)
   | KVec16 t xs \<Rightarrow> Pay16 xs
   | KVec32 t xs \<Rightarrow> Pay32 (if t = KD then map (\<lambda>x. if sint x \<le> 2 ^ 31 - 1 - 10957 then x else NI) xs else xs)
   | KVec64 t xs \<Rightarrow> Pay64 (
       if t = KP then map (\<lambda>x. if sint x \<le> 2 ^ 63 - 1 - 946684800000000000 then x else NJ) xs
       else if t = KF then map (\<lambda>x. if is_nan64 x then F64_NAN else x) xs
       else if t = KZ then map (\<lambda>x. if days_ns x = None then NJ else f64_as_i64 (f64_scale 86400000000000 (f64_of x))) xs
       else xs)
   | KSyms ss \<Rightarrow> PaySym (map (\<lambda>s. intern (if utf8_ok s then bytes_of s else [])) ss)
   | _ \<Rightarrow> Pay8 [])"

definition back_type :: "int \<Rightarrow> int" where
  "back_type t = (if t = KZ then KP else t)"

lemma bool_image_plain: "bool_image bs None = map of_bool bs"
  by (rule nth_equalityI) (simp_all add: bool_image_def)

lemma prim_image_plain: "prim_image signed_native xs None nullv (0 :: 'a::len word) = xs"
  by (rule nth_equalityI) (simp_all add: prim_image_def prim_row_def)

lemma kept_datetime:
  "(if days_ns x \<noteq> None then shift_down signed_native NJ NS2000 (case days_ns x of None \<Rightarrow> 0 | Some v \<Rightarrow> v) else NJ) =
     (if days_ns x = None then NJ else f64_as_i64 (f64_scale 86400000000000 (f64_of x)))"
proof (cases "days_ns x")
  case (Some v)
  let ?f = "f64_as_i64 (f64_scale 86400000000000 (f64_of x))"
  have v: "checked_add_s ?f NS2000 = Some v"
    using Some by (simp add: days_ns_def Let_def split: if_splits)
  then have "v = ?f + NS2000" "fits_signed TYPE(64) (sint ?f + sint NS2000)"
    by (simp_all add: checked_add_s_def split: if_splits)
  then have "checked_sub_s v NS2000 = Some ?f"
    using unshift by blast
  with Some show ?thesis
    by (simp add: shift_down_NJ)
qed simp

lemma datetime_image:
  assumes "r = map days_ns s"
  shows "prim_image signed_native (map (\<lambda>x. case x of None \<Rightarrow> 0 | Some v \<Rightarrow> v) r)
      (map_option (\<lambda>b. bit_chunks b (length r)) (null_bits r (\<lambda>x. x \<noteq> None))) NJ NS2000 =
    map (\<lambda>x. if days_ns x = None then NJ else f64_as_i64 (f64_scale 86400000000000 (f64_of x))) s"
proof (rule nth_equalityI)
  fix i
  assume "i < length (prim_image signed_native (map (\<lambda>x. case x of None \<Rightarrow> 0 | Some v \<Rightarrow> v) r)
      (map_option (\<lambda>b. bit_chunks b (length r)) (null_bits r (\<lambda>x. x \<noteq> None))) NJ NS2000)"
  then have i: "i < length r" "i < length s"
    by (simp_all add: prim_image_def assms)
  have "prim_row signed_native (map (\<lambda>x. case x of None \<Rightarrow> 0 | Some v \<Rightarrow> v) r)
      (map_option (\<lambda>b. bit_chunks b (length r)) (null_bits r (\<lambda>x. x \<noteq> None))) NJ NS2000 i =
    (if days_ns (s ! i) \<noteq> None then shift_down signed_native NJ NS2000 (case days_ns (s ! i) of None \<Rightarrow> 0 | Some v \<Rightarrow> v) else NJ)"
    unfolding prim_row_def written_valid[OF i(1)] using i by (simp add: assms NS2000_nonzero)
  then show "prim_image signed_native (map (\<lambda>x. case x of None \<Rightarrow> 0 | Some v \<Rightarrow> v) r)
      (map_option (\<lambda>b. bit_chunks b (length r)) (null_bits r (\<lambda>x. x \<noteq> None))) NJ NS2000 ! i =
    map (\<lambda>x. if days_ns x = None then NJ else f64_as_i64 (f64_scale 86400000000000 (f64_of x))) s ! i"
    using i unfolding kept_datetime by (simp add: prim_image_def assms)
qed (simp add: prim_image_def assms)

text \<open>
  Column by column: the array has the Arrow type of its L type, and the reader's converters
  make of it the rows that were written.
\<close>

lemma col_to_arrow_image:
  assumes run: "col_to_arrow a col off n = Inr (arr, vals)" and n: "n < 2 ^ 31" and ty: "typed col"
    and vals: "deref a = Inr (map (Some \<circ> bytes_of) vals)"
  shows "image intern deref cast (back_type (ktype col)) arr = Inr (kept intern (rows_of col off n)) \<and>
    arrow_type (ktype col) True = Inr (arr_type arr)"
proof (cases col)
  case (KVec8 t xs)
  then show ?thesis
    using run ty
    by (auto simp: col_to_arrow_def ktype_def image_def image8_def kept_def rows_of_def back_type_def arrow_type_def
        bool_image_plain prim_image_plain o_def Let_def split: if_splits)
next
  case (KVec16 t xs)
  then show ?thesis
    using run ty
    by (auto simp: col_to_arrow_def ktype_def image_def image16_def kept_def rows_of_def back_type_def arrow_type_def
        prim_image_plain Let_def split: if_splits)
next
  case (KVec32 t xs)
  have id: "map (\<lambda>x. if x \<noteq> NI then x else NI) ys = ys" for ys
    by (induction ys) auto
  show ?thesis
    using run ty KVec32
    by (auto simp: col_to_arrow_def ktype_def image_def image32_def kept_def rows_of_def back_type_def arrow_type_def
        prim_image_plain kept_plain[abs_def] kept_date[abs_def] id Let_def dest!: col_prim_image[where nullv = NI]
        split: if_splits prod.splits)
next
  case (KVec64 t xs)
  then have "t \<in> {KJ, KF, KP, KZ, KN}"
    using ty by simp
  then consider "t = KJ \<or> t = KN" | "t = KF" | "t = KP" | "t = KZ"
    by blast
  then show ?thesis
  proof cases
    case 1
    have id: "map (\<lambda>x. if x \<noteq> NJ then x else NJ) ys = ys" for ys
      by (induction ys) auto
    show ?thesis
      using 1 run KVec64
      by (auto simp: col_to_arrow_def ktype_def image_def image64_def to_type_def kept_def rows_of_def back_type_def
          arrow_type_def kept_plain[abs_def] id Let_def dest!: col_prim_image[where nullv = NJ] split: prod.splits)
  next
    case 2
    have sw: "map (\<lambda>x. if \<not> is_nan64 x then x else F64_NAN) ys = map (\<lambda>x. if is_nan64 x then F64_NAN else x) ys" for ys
      by (induction ys) auto
    show ?thesis
      using 2 run KVec64
      by (auto simp: col_to_arrow_def ktype_def image_def image64_def kept_def rows_of_def back_type_def arrow_type_def
          kept_plain[abs_def] sw Let_def dest!: col_prim_image[where nullv = F64_NAN] split: prod.splits)
  next
    case 3
    show ?thesis
      using 3 run KVec64
      by (auto simp: col_to_arrow_def ktype_def image_def image64_def to_type_def kept_def rows_of_def back_type_def
          arrow_type_def kept_timestamp[abs_def] Let_def dest!: col_prim_image[where nullv = NJ] split: prod.splits)
  next
    case 4
    then show ?thesis
      using run KVec64 datetime_image[OF refl, of "slice off n xs"]
      by (auto simp: col_to_arrow_def ktype_def image_def image64_def to_type_def kept_def rows_of_def back_type_def
          arrow_type_def Let_def)
  qed
next
  case (KSyms ss)
  obtain da where da: "col_sym (\<lambda>s. s) a (slice off n ss) = (da, vals)" "arr = ArrDict (Dictionary Int32 Utf8) da"
    using run KSyms by (auto simp: col_to_arrow_def Let_def split: prod.splits)
  have "length (slice off n ss) < 2 ^ 31"
    using n by (simp add: slice_def)
  note rows = col_sym_rows[OF this da(1), of intern]
  have "map (\<lambda>i. sym_of intern (dict_row (map (Some \<circ> bytes_of) vals) da i)) [0..<length (da_keys da)] =
      map (\<lambda>s. intern (if utf8_ok s then bytes_of s else [])) (slice off n ss)"
    using rows by (intro nth_equalityI) auto
  then show ?thesis
    using rows vals by (simp add: KSyms da(2) image_def ktype_def back_type_def kept_def rows_of_def arrow_type_def)
qed (use run in \<open>auto simp: col_to_arrow_def Let_def split: if_splits\<close>)

text \<open>
  What a lossless file holds of an array: each row's value, or nothing where it is null.
\<close>

definition stored_rows :: "'a list \<Rightarrow> null_buf option \<Rightarrow> 'a option list" where
  "stored_rows xs nulls = map (\<lambda>i. if (case nulls of None \<Rightarrow> True | Some nb \<Rightarrow> nb_valid nb i)
     then Some (xs ! i) else None) [0..<length xs]"

definition stored :: "arr \<Rightarrow> chunk_rows" where
  "stored a = (case a of
     Arr32 dt xs nb \<Rightarrow> \<lparr>ck32 = stored_rows xs nb, ck64 = []\<rparr>
   | Arr64 dt xs nb \<Rightarrow> \<lparr>ck32 = [], ck64 = stored_rows xs nb\<rparr>
   | _ \<Rightarrow> \<lparr>ck32 = [], ck64 = []\<rparr>)"

lemma row_value_stored:
  assumes "n_is_one ops mul" "n_is_zero ops = (\<lambda>x. x = 0)" "n_sub ops = (-)" "n_add ops = (+)"
    "n_lt ops = (\<lambda>x y. sint x < sint y)"
  shows "map (row_value ops nullv sh mul) (stored_rows xs nb) = prim_image signed_native xs nb nullv sh"
proof -
  have "patch_shift ops nullv sh mul v = (if sh = 0 then v else shift_down signed_native nullv sh v)" for v
    using assms by (simp add: patch_shift_def shift_down_def Let_def)
  then show ?thesis
    by (simp add: stored_rows_def prim_image_def prim_row_def row_value_def o_def if_distrib cong: if_cong)
qed

lemma row_value_stored_ints:
  "map (row_value signed_native nullv sh 1) (stored_rows xs nb) = prim_image signed_native xs nb nullv sh"
  by (rule row_value_stored) (simp_all add: signed_native_def)

lemma row_value_stored_floats:
  "map (row_value (float_native one) nullv sh one) (stored_rows xs nb) = prim_image signed_native xs nb nullv sh"
  by (rule row_value_stored) (simp_all add: signed_native_def float_native_def)

lemma raw_image_stored:
  assumes "raw_of (arr_type arr) pt = Some rt" "arrow_type t True = Inr (arr_type arr)"
    and "image intern deref cast (back_type t) arr = Inr p"
  shows "raw_image rt (back_type t) (stored arr) = p"
proof -
  have "arrow_type t True = Inr dt \<Longrightarrow> raw_of dt pt = Some rt \<Longrightarrow> t \<in> {KI, KJ, KE, KF, KD, KT, KP, KZ, KN}" for dt
    by (auto simp: arrow_type_def raw_of_def split: if_splits)
  then have "t \<in> {KI, KJ, KE, KF, KD, KT, KP, KZ, KN}"
    using assms(1,2) by blast
  then consider "t = KI" | "t = KJ" | "t = KE" | "t = KF" | "t = KD" | "t = KT" | "t = KP \<or> t = KZ" | "t = KN"
    by blast
  then show ?thesis
    using assms
    by cases (cases arr; auto simp: arrow_type_def raw_of_def back_type_def image_def image32_def image64_def to_type_def
      raw_image_def stored_def row_value_stored_ints row_value_stored_floats split: if_splits)+
qed

section \<open>Properties\<close>

text \<open>C3
  A column survives the file: the array the writer makes of any rows of an L column has the
  Arrow type of its L type, and reading it back, through Arrow's arrays or straight from the
  decoded values where the reader does that, gives the rows that were written. The exceptions
  are exactly those of \<open>kept\<close>: a value whose 1970 form would leave its type becomes the null,
  never a wrapped value.
\<close>

theorem written_column_roundtrip:
  assumes "col_to_arrow a col off n = Inr (arr, vals)" "n < 2 ^ 31" "typed col"
    and "deref a = Inr (map (Some \<circ> bytes_of) vals)"
  shows "image intern deref cast (back_type (ktype col)) arr = Inr (kept intern (rows_of col off n)) \<and>
    arrow_type (ktype col) True = Inr (arr_type arr) \<and>
    (case raw_of (arr_type arr) pt of None \<Rightarrow> True
     | Some rt \<Rightarrow> raw_image rt (back_type (ktype col)) (stored arr) = kept intern (rows_of col off n))"
  using col_to_arrow_image[of a col off n arr vals deref intern cast, OF assms] raw_image_stored
  by (auto split: option.splits)

theorem written_column_roundtrip_witness:
  "case col_to_arrow 0 (KVec32 KD [7, NI, 5, 0x7FFFFFFF]) 1 3 of
     Inl e \<Rightarrow> False
   | Inr (arr, vals) \<Rightarrow> image number_intern (\<lambda>a. Inr []) (\<lambda>a t. Inl []) KD arr = Inr (Pay32 [NI, 5, NI])"
proof -
  obtain arr where run: "col_to_arrow 0 (KVec32 KD [7, NI, 5, 0x7FFFFFFF]) 1 3 = Inr (arr, [])"
    by (simp add: col_to_arrow_def ktype_def split_beta)
  have "kept number_intern (rows_of (KVec32 KD [7, NI, 5, 0x7FFFFFFF]) 1 3) = Pay32 [NI, 5, NI]"
    by (simp add: kept_def rows_of_def slice_def NI_def)
  then show ?thesis
    using written_column_roundtrip[OF run, of "\<lambda>a. Inr []" number_intern "\<lambda>a t. Inl []"] run
    by (simp add: ktype_def back_type_def)
qed

end
