(* ===== verification/Queue.thy ===== *)
theory Queue
  imports ColWrite Claim
begin

text \<open>
  The writer's work queue (\<^verbatim>\<open>Q\<close>, \<^verbatim>\<open>Shared\<close>, \<^verbatim>\<open>worker\<close> and \<^verbatim>\<open>master\<close> in
  \<^verbatim>\<open>src/src/write.rs\<close>). Workers encode the (row group, column) chunks of a table in
  any order; the master appends them to the file in one. A step is one critical section of the
  queue's lock or one action outside it, and the two condition variables are the states
  \<open>WSleep\<close> and \<open>MSleep\<close>.
\<close>

section \<open>The Parquet crate\<close>

text \<open>
  What the queue calls: the column writers of a row group, a column's leaves, a leaf written
  and a writer closed into a chunk, and the three operations on the file. None, or a task of
  \<open>lb_panics\<close>, is a panic.
\<close>

record ('w, 'lf, 'ch, 'f) pq_lib =
  lb_writers :: "nat \<Rightarrow> 'w list outcome"
  lb_leaves :: "nat \<Rightarrow> arr \<times> string list \<Rightarrow> 'lf list result"
  lb_write :: "'w \<Rightarrow> 'lf \<Rightarrow> 'w result"
  lb_close :: "'w \<Rightarrow> 'ch result"
  lb_panics :: "nat \<Rightarrow> bool"
  lb_next_rg :: "'f \<Rightarrow> 'f result"
  lb_append :: "'f \<Rightarrow> 'ch \<Rightarrow> 'f result"
  lb_close_rg :: "'f \<Rightarrow> 'f result"

section \<open>The queue\<close>

record write_job =
  jb_cols :: "kval list"
  jb_nrows :: nat
  jb_rg :: nat
  jb_nrg :: nat
  jb_window :: nat

definition ncols :: "write_job \<Rightarrow> nat" where
  "ncols jb = length (jb_cols jb)"

definition ntasks :: "write_job \<Rightarrow> nat" where
  "ntasks jb = jb_nrg jb * ncols jb"

record ('w, 'ch) queue =
  q_next :: nat
  q_head :: nat
  q_wr :: "nat \<Rightarrow> 'w option list option"
  q_done :: "nat \<Rightarrow> 'ch option"
  q_err :: "string option"

datatype 'w wk = WLook | WSleep | WEnc nat 'w | WErr string | WNotify | WGone

datatype 'ch ms = MNext nat | MLook nat nat | MSleep nat nat | MAppend nat nat 'ch | MClose nat
  | MErr string | MNotify string | MEnd | MRet "unit result"

record ('w, 'ch, 'f) wq =
  wq_q :: "('w, 'ch) queue"
  wq_wk :: "'w wk list"
  wq_ms :: "'ch ms"
  wq_file :: 'f

section \<open>A worker\<close>

text \<open>
  Claiming the next task takes its column writer with it; the writers of a row group are made
  with its first column and dropped with its last.
\<close>

definition row_writers :: "('w, 'lf, 'ch, 'f) pq_lib \<Rightarrow> nat \<Rightarrow> nat \<Rightarrow> (nat \<Rightarrow> 'w option list option) \<Rightarrow>
    (nat \<Rightarrow> 'w option list option) result" where
  "row_writers L g c wr =
    (if c = 0 then (case lb_writers L g of
         None \<Rightarrow> Inl ''pq_write: worker panic''
       | Some r \<Rightarrow> rbind (ctx ''pq_write'' r) (\<lambda>ws. Inr (wr(g \<mapsto> map Some ws))))
     else Inr wr)"

definition take_writer :: "nat \<Rightarrow> nat \<Rightarrow> nat \<Rightarrow> (nat \<Rightarrow> 'w option list option) \<Rightarrow>
    'w option \<times> (nat \<Rightarrow> 'w option list option)" where
  "take_writer nc g c wr =
    (let slot = (case wr g of None \<Rightarrow> None | Some v \<Rightarrow> if c < length v then v ! c else None);
         wr1 = (case wr g of None \<Rightarrow> wr | Some v \<Rightarrow> wr(g \<mapsto> v[c := None]))
     in (slot, if c + 1 = nc then wr1(g := None) else wr1))"

definition claim_task :: "('w, 'lf, 'ch, 'f) pq_lib \<Rightarrow> write_job \<Rightarrow> ('w, 'ch) queue \<Rightarrow> ('w, 'ch) queue \<times> 'w wk" where
  "claim_task L jb q =
    (let i = q_next q; g = i div ncols jb; c = i mod ncols jb in
     case row_writers L g c (q_wr q) of
       Inl e \<Rightarrow> (q, WErr e)
     | Inr wr \<Rightarrow> let (slot, wr2) = take_writer (ncols jb) g c wr in
         (q\<lparr>q_next := i + 1, q_wr := wr2\<rparr>,
          case slot of Some w \<Rightarrow> WEnc i w | None \<Rightarrow> WErr ''pq_write: writer lost''))"

definition look :: "('w, 'lf, 'ch, 'f) pq_lib \<Rightarrow> write_job \<Rightarrow> ('w, 'ch) queue \<Rightarrow> ('w, 'ch) queue \<times> 'w wk" where
  "look L jb q =
    (if q_err q \<noteq> None \<or> ntasks jb \<le> q_next q then (q, WGone)
     else if q_next q < q_head q + jb_window jb then claim_task L jb q
     else (q, WSleep))"

definition encode :: "('w, 'lf, 'ch, 'f) pq_lib \<Rightarrow> write_job \<Rightarrow> nat \<Rightarrow> 'w \<Rightarrow> 'ch outcome" where
  "encode L jb i w =
    (if lb_panics L i then None
     else Some (let g = i div ncols jb; c = i mod ncols jb; off = g * jb_rg jb;
                    len = min (jb_rg jb) (jb_nrows jb - off) in
       rbind (col_to_arrow i (jb_cols jb ! c) off len) (\<lambda>a.
       rbind (ctx ''pq_write'' (lb_leaves L c a)) (\<lambda>ls.
       rbind (foldR (\<lambda>w lf. ctx ''pq_write'' (lb_write L w lf)) w ls) (\<lambda>w.
       ctx ''pq_write'' (lb_close L w))))))"

text \<open>\<^verbatim>\<open>get_or_insert\<close>: the first failure stays.\<close>

definition record_err :: "string \<Rightarrow> ('w, 'ch) queue \<Rightarrow> ('w, 'ch) queue" where
  "record_err e q = q\<lparr>q_err := Some (case q_err q of None \<Rightarrow> e | Some e0 \<Rightarrow> e0)\<rparr>"

section \<open>Waking\<close>

definition wake :: "'w wk \<Rightarrow> 'w wk" where
  "wake w = (if w = WSleep then WLook else w)"

definition wake_ms :: "'ch ms \<Rightarrow> 'ch ms" where
  "wake_ms m = (case m of MSleep g c \<Rightarrow> MLook g c | _ \<Rightarrow> m)"

definition notify_one :: "'w wk list \<Rightarrow> 'w wk list \<Rightarrow> bool" where
  "notify_one ws ws' \<longleftrightarrow>
    (if WSleep \<in> set ws then \<exists>k < length ws. ws ! k = WSleep \<and> ws' = ws[k := WLook] else ws' = ws)"

section \<open>The master\<close>

text \<open>Its moves over the file and its loop counters, the queue aside.\<close>

definition io_to :: "'f result \<Rightarrow> 'ch ms \<Rightarrow> 'f \<Rightarrow> 'ch ms \<times> 'f" where
  "io_to r m f = (case ctx ''pq_write'' r of Inl e \<Rightarrow> (MErr e, f) | Inr f' \<Rightarrow> (m, f'))"

definition master_io :: "('w, 'lf, 'ch, 'f) pq_lib \<Rightarrow> write_job \<Rightarrow> 'ch ms \<Rightarrow> 'f \<Rightarrow> ('ch ms \<times> 'f) option" where
  "master_io L jb m f = (case m of
     MNext g \<Rightarrow> Some (if g < jb_nrg jb then io_to (lb_next_rg L f) (MLook g 0) f else (MEnd, f))
   | MLook g c \<Rightarrow> if c < ncols jb then None else Some (MClose g, f)
   | MAppend g c ch \<Rightarrow> Some (io_to (lb_append L f ch) (MLook g (c + 1)) f)
   | MClose g \<Rightarrow> Some (io_to (lb_close_rg L f) (MNext (g + 1)) f)
   | _ \<Rightarrow> None)"

section \<open>Steps\<close>

inductive wq_step :: "('w, 'lf, 'ch, 'f) pq_lib \<Rightarrow> write_job \<Rightarrow> ('w, 'ch, 'f) wq \<Rightarrow> ('w, 'ch, 'f) wq \<Rightarrow> bool"
  for L :: "('w, 'lf, 'ch, 'f) pq_lib" and jb :: write_job where
  looked: "k < length (wq_wk s) \<Longrightarrow> wq_wk s ! k = WLook \<Longrightarrow> look L jb (wq_q s) = (q', x) \<Longrightarrow>
    wq_step L jb s (s\<lparr>wq_q := q', wq_wk := (wq_wk s)[k := x]\<rparr>)"
| encoded: "k < length (wq_wk s) \<Longrightarrow> wq_wk s ! k = WEnc i w \<Longrightarrow> encode L jb i w = Some (Inr ch) \<Longrightarrow>
    wq_step L jb s (s\<lparr>wq_q := (wq_q s)\<lparr>q_done := (q_done (wq_q s))(i \<mapsto> ch)\<rparr>,
      wq_wk := (wq_wk s)[k := WLook], wq_ms := wake_ms (wq_ms s)\<rparr>)"
| refused: "k < length (wq_wk s) \<Longrightarrow> wq_wk s ! k = WEnc i w \<Longrightarrow> encode L jb i w = r \<Longrightarrow>
    r = None \<and> e = ''pq_write: worker panic'' \<or> r = Some (Inl e) \<Longrightarrow>
    wq_step L jb s (s\<lparr>wq_wk := (wq_wk s)[k := WErr e]\<rparr>)"
| recorded: "k < length (wq_wk s) \<Longrightarrow> wq_wk s ! k = WErr e \<Longrightarrow>
    wq_step L jb s (s\<lparr>wq_q := record_err e (wq_q s), wq_wk := (wq_wk s)[k := WNotify]\<rparr>)"
| notified: "k < length (wq_wk s) \<Longrightarrow> wq_wk s ! k = WNotify \<Longrightarrow>
    wq_step L jb s (s\<lparr>wq_wk := (map wake (wq_wk s))[k := WGone], wq_ms := wake_ms (wq_ms s)\<rparr>)"
| wrote: "master_io L jb (wq_ms s) (wq_file s) = Some (m', f') \<Longrightarrow>
    wq_step L jb s (s\<lparr>wq_ms := m', wq_file := f'\<rparr>)"
| consumed: "wq_ms s = MLook g c \<Longrightarrow> c < ncols jb \<Longrightarrow> q_done (wq_q s) (g * ncols jb + c) = Some ch \<Longrightarrow>
    notify_one (wq_wk s) ws' \<Longrightarrow>
    wq_step L jb s (s\<lparr>wq_q := (wq_q s)\<lparr>q_done := (q_done (wq_q s))(g * ncols jb + c := None),
        q_head := g * ncols jb + c + 1\<rparr>, wq_wk := ws', wq_ms := MAppend g c ch\<rparr>)"
| saw_err: "wq_ms s = MLook g c \<Longrightarrow> c < ncols jb \<Longrightarrow> q_done (wq_q s) (g * ncols jb + c) = None \<Longrightarrow>
    q_err (wq_q s) = Some e \<Longrightarrow> wq_step L jb s (s\<lparr>wq_ms := MRet (Inl e)\<rparr>)"
| slept: "wq_ms s = MLook g c \<Longrightarrow> c < ncols jb \<Longrightarrow> q_done (wq_q s) (g * ncols jb + c) = None \<Longrightarrow>
    q_err (wq_q s) = None \<Longrightarrow> wq_step L jb s (s\<lparr>wq_ms := MSleep g c\<rparr>)"
| m_recorded: "wq_ms s = MErr e \<Longrightarrow> wq_step L jb s (s\<lparr>wq_q := record_err e (wq_q s), wq_ms := MNotify e\<rparr>)"
| m_notified: "wq_ms s = MNotify e \<Longrightarrow> wq_step L jb s (s\<lparr>wq_wk := map wake (wq_wk s), wq_ms := MRet (Inl e)\<rparr>)"
| m_ended: "wq_ms s = MEnd \<Longrightarrow> wq_step L jb s (s\<lparr>wq_wk := map wake (wq_wk s), wq_ms := MRet (Inr ())\<rparr>)"

inductive_cases wq_stepE: "wq_step L jb s s'"

definition wq_start :: "nat \<Rightarrow> 'f \<Rightarrow> ('w, 'ch, 'f) wq" where
  "wq_start n f = \<lparr>wq_q = \<lparr>q_next = 0, q_head = 0, q_wr = Map.empty, q_done = Map.empty, q_err = None\<rparr>,
     wq_wk = replicate n WLook, wq_ms = MNext 0, wq_file = f\<rparr>"

text \<open>A condition variable may also wake a sleeper for no reason.\<close>

inductive wq_reach :: "('w, 'lf, 'ch, 'f) pq_lib \<Rightarrow> write_job \<Rightarrow> nat \<Rightarrow> 'f \<Rightarrow> ('w, 'ch, 'f) wq \<Rightarrow> bool"
  for L :: "('w, 'lf, 'ch, 'f) pq_lib" and jb :: write_job and n :: nat and f :: 'f where
  start: "wq_reach L jb n f (wq_start n f)"
| step: "wq_reach L jb n f s \<Longrightarrow> wq_step L jb s s' \<Longrightarrow> wq_reach L jb n f s'"
| spurious: "wq_reach L jb n f s \<Longrightarrow> k < length (wq_wk s) \<Longrightarrow> wq_wk s ! k = WSleep \<Longrightarrow>
    wq_reach L jb n f (s\<lparr>wq_wk := (wq_wk s)[k := WLook]\<rparr>)"
| m_spurious: "wq_reach L jb n f s \<Longrightarrow> wq_reach L jb n f (s\<lparr>wq_ms := wake_ms (wq_ms s)\<rparr>)"

section \<open>The serial writer\<close>

text \<open>The reference: one chunk after the other.\<close>

definition serial_task :: "('w, 'lf, 'ch, 'f) pq_lib \<Rightarrow> write_job \<Rightarrow> nat \<Rightarrow> 'ch result" where
  "serial_task L jb i =
    (case lb_writers L (i div ncols jb) of
       None \<Rightarrow> Inl ''pq_write: worker panic''
     | Some r \<Rightarrow> rbind (ctx ''pq_write'' r) (\<lambda>ws.
         if i mod ncols jb < length ws then
           (case encode L jb i (ws ! (i mod ncols jb)) of None \<Rightarrow> Inl ''pq_write: worker panic'' | Some r \<Rightarrow> r)
         else Inl ''pq_write: writer lost''))"

definition serial_cols :: "('w, 'lf, 'ch, 'f) pq_lib \<Rightarrow> write_job \<Rightarrow> nat \<Rightarrow> nat \<Rightarrow> 'f \<Rightarrow> 'f result" where
  "serial_cols L jb g c f =
    rbind (ctx ''pq_write'' (lb_next_rg L f))
      (\<lambda>f. foldR (\<lambda>f c. rbind (serial_task L jb (g * ncols jb + c)) (\<lambda>ch. ctx ''pq_write'' (lb_append L f ch))) f [0..<c])"

definition serial_group :: "('w, 'lf, 'ch, 'f) pq_lib \<Rightarrow> write_job \<Rightarrow> 'f \<Rightarrow> nat \<Rightarrow> 'f result" where
  "serial_group L jb f g = rbind (serial_cols L jb g (ncols jb) f) (\<lambda>f. ctx ''pq_write'' (lb_close_rg L f))"

definition serial_upto :: "('w, 'lf, 'ch, 'f) pq_lib \<Rightarrow> write_job \<Rightarrow> nat \<Rightarrow> 'f \<Rightarrow> 'f result" where
  "serial_upto L jb n f = foldR (serial_group L jb) f [0..<n]"

definition serial_write :: "('w, 'lf, 'ch, 'f) pq_lib \<Rightarrow> write_job \<Rightarrow> 'f \<Rightarrow> 'f result" where
  "serial_write L jb f = serial_upto L jb (jb_nrg jb) f"

section \<open>Workers in a list\<close>

lemma in_upd: "x \<in> set (ws[k := y]) \<Longrightarrow> x = y \<or> x \<in> set ws"
  using set_update_subset_insert[of ws k y] by blast

lemma keep_mem: "x \<in> set ws \<Longrightarrow> ws ! k \<noteq> x \<Longrightarrow> x \<in> set (ws[k := y])"
  by (metis in_set_conv_nth length_list_update nth_list_update_neq)

lemma in_wake: "x \<in> set (map wake ws) \<Longrightarrow> x = WLook \<or> x \<in> set ws \<and> x \<noteq> WSleep"
  by (auto simp: wake_def)

lemma wake_enc [simp]: "wake w = WEnc i v \<longleftrightarrow> w = WEnc i v" "WEnc i v = wake w \<longleftrightarrow> w = WEnc i v"
  "wake w = WErr e \<longleftrightarrow> w = WErr e" "wake w = WNotify \<longleftrightarrow> w = WNotify" "wake w = WGone \<longleftrightarrow> w = WGone"
  "wake w \<noteq> WSleep"
  by (auto simp: wake_def)

lemma mem_map_wake [simp]: "WEnc i v \<in> set (map wake ws) \<longleftrightarrow> WEnc i v \<in> set ws"
  "WErr e \<in> set (map wake ws) \<longleftrightarrow> WErr e \<in> set ws" "WNotify \<in> set (map wake ws) \<longleftrightarrow> WNotify \<in> set ws"
  "WGone \<in> set (map wake ws) \<longleftrightarrow> WGone \<in> set ws" "WSleep \<notin> set (map wake ws)"
  by (auto simp: wake_def image_iff split: if_splits)

lemma wake_ms_simps [simp]:
  "wake_ms (MNext g) = MNext g" "wake_ms (MLook g c) = MLook g c" "wake_ms (MSleep g c) = MLook g c"
  "wake_ms (MAppend g c ch) = MAppend g c ch" "wake_ms (MClose g) = MClose g" "wake_ms (MErr e) = MErr e"
  "wake_ms (MNotify e) = MNotify e" "wake_ms MEnd = MEnd" "wake_ms (MRet r) = MRet r"
  "wake_ms m \<noteq> MSleep g c"
  by (auto simp: wake_ms_def split: ms.splits)

lemma notify_one_mem:
  assumes "notify_one ws ws'" "x \<in> set ws'"
  shows "x = WLook \<or> x \<in> set ws"
  using assms by (auto simp: notify_one_def split: if_splits dest: in_upd)

lemma notify_one_keep:
  assumes "notify_one ws ws'" "x \<in> set ws" "x \<noteq> WSleep"
  shows "x \<in> set ws'"
  using assms by (auto simp: notify_one_def split: if_splits intro: keep_mem)

lemma notify_one_length [simp]: "notify_one ws ws' \<Longrightarrow> length ws' = length ws"
  by (auto simp: notify_one_def split: if_splits)

lemma notify_one_enc:
  "notify_one ws ws' \<Longrightarrow> ws' ! k = WEnc i w \<longleftrightarrow> ws ! k = WEnc i w"
  by (auto simp: notify_one_def nth_list_update split: if_splits)

section \<open>What a look at the queue answers\<close>

definition wr_ok :: "('w, 'lf, 'ch, 'f) pq_lib \<Rightarrow> (nat \<Rightarrow> 'w option list option) \<Rightarrow> bool" where
  "wr_ok L wr \<longleftrightarrow> (\<forall>g v. wr g = Some v \<longrightarrow> (\<exists>ws. lb_writers L g = Some (Inr ws) \<and> length v = length ws \<and>
     (\<forall>c < length v. v ! c = None \<or> v ! c = Some (ws ! c))))"

definition task_writer :: "('w, 'lf, 'ch, 'f) pq_lib \<Rightarrow> write_job \<Rightarrow> nat \<Rightarrow> 'w \<Rightarrow> bool" where
  "task_writer L jb i w \<longleftrightarrow> (\<exists>ws. lb_writers L (i div ncols jb) = Some (Inr ws) \<and>
     i mod ncols jb < length ws \<and> w = ws ! (i mod ncols jb))"

lemma row_writers_ok:
  assumes "row_writers L g c wr = Inr wr'" "wr_ok L wr"
  shows "wr_ok L wr'"
  using assms by (auto simp: row_writers_def wr_ok_def result_simps split: if_splits option.splits)

lemma take_writer_ok:
  assumes "take_writer nc g c wr = (slot, wr')" "wr_ok L wr"
  shows "wr_ok L wr'"
proof -
  have "wr_ok L (wr(g \<mapsto> v[c := None]))" if "wr g = Some v" for v
  proof -
    obtain ws where ws: "lb_writers L g = Some (Inr ws)" "length v = length ws"
        "\<forall>i < length v. v ! i = None \<or> v ! i = Some (ws ! i)"
      using assms(2) \<open>wr g = Some v\<close> unfolding wr_ok_def by blast
    then have "\<forall>i < length v. v[c := None] ! i = None \<or> v[c := None] ! i = Some (ws ! i)"
      by (metis length_list_update nth_list_update_eq nth_list_update_neq)
    with ws assms(2) show ?thesis
      unfolding wr_ok_def by auto
  qed
  then have "wr_ok L (case wr g of None \<Rightarrow> wr | Some v \<Rightarrow> wr(g \<mapsto> v[c := None]))"
    using assms(2) by (auto split: option.splits)
  moreover have "wr_ok L w \<Longrightarrow> wr_ok L (w(g := None))" for w
    by (simp add: wr_ok_def)
  ultimately show ?thesis
    using assms(1) by (auto simp: take_writer_def Let_def)
qed

lemma take_writer_slot:
  assumes "take_writer nc g c wr = (Some w, wr')" "wr_ok L wr"
  shows "\<exists>ws. lb_writers L g = Some (Inr ws) \<and> c < length ws \<and> w = ws ! c"
  using assms unfolding take_writer_def wr_ok_def Let_def
  by (force split: if_splits option.splits)

inductive looked_at :: "('w, 'lf, 'ch, 'f) pq_lib \<Rightarrow> write_job \<Rightarrow> ('w, 'ch) queue \<Rightarrow> ('w, 'ch) queue \<times> 'w wk \<Rightarrow> bool"
  for L :: "('w, 'lf, 'ch, 'f) pq_lib" and jb :: write_job and q :: "('w, 'ch) queue" where
  gone: "q_err q \<noteq> None \<or> ntasks jb \<le> q_next q \<Longrightarrow> looked_at L jb q (q, WGone)"
| full: "q_err q = None \<Longrightarrow> q_next q < ntasks jb \<Longrightarrow> q_head q + jb_window jb \<le> q_next q \<Longrightarrow> looked_at L jb q (q, WSleep)"
| no_writers: "q_err q = None \<Longrightarrow> q_next q < ntasks jb \<Longrightarrow> looked_at L jb q (q, WErr e)"
| lost: "q_err q = None \<Longrightarrow> q_next q < ntasks jb \<Longrightarrow> q_next q < q_head q + jb_window jb \<Longrightarrow>
    (wr_ok L (q_wr q) \<Longrightarrow> wr_ok L wr) \<Longrightarrow>
    looked_at L jb q (q\<lparr>q_next := q_next q + 1, q_wr := wr\<rparr>, WErr e)"
| task: "q_err q = None \<Longrightarrow> q_next q < ntasks jb \<Longrightarrow> q_next q < q_head q + jb_window jb \<Longrightarrow>
    (wr_ok L (q_wr q) \<Longrightarrow> wr_ok L wr \<and> task_writer L jb (q_next q) w) \<Longrightarrow>
    looked_at L jb q (q\<lparr>q_next := q_next q + 1, q_wr := wr\<rparr>, WEnc (q_next q) w)"

lemma look_cases: "looked_at L jb q (look L jb q)"
proof -
  let ?i = "q_next q"
  let ?g = "?i div ncols jb" and ?c = "?i mod ncols jb"
  consider "q_err q \<noteq> None \<or> ntasks jb \<le> ?i"
    | "q_err q = None" "?i < ntasks jb" "q_head q + jb_window jb \<le> ?i"
    | "q_err q = None" "?i < ntasks jb" "?i < q_head q + jb_window jb"
    by linarith
  then show ?thesis
  proof cases
    case 3
    show ?thesis
    proof (cases "row_writers L ?g ?c (q_wr q)")
      case (Inl e)
      then show ?thesis
        using 3 by (auto simp: look_def claim_task_def intro: looked_at.no_writers)
    next
      case (Inr wr)
      obtain slot wr2 where t: "take_writer (ncols jb) ?g ?c wr = (slot, wr2)"
        by fastforce
      have ok: "wr_ok L wr2" if "wr_ok L (q_wr q)"
        by (rule take_writer_ok[OF t]) (rule row_writers_ok[OF Inr that])
      have tw: "task_writer L jb ?i w" if "wr_ok L (q_wr q)" "slot = Some w" for w
        using take_writer_slot[of "ncols jb" ?g ?c wr w wr2 L] row_writers_ok[OF Inr that(1)] t that(2)
        by (simp add: task_writer_def)
      show ?thesis
      proof (cases slot)
        case None
        then show ?thesis
          using 3 Inr t ok by (auto simp: look_def claim_task_def intro: looked_at.lost[of q jb L wr2, simplified])
      next
        case (Some w)
        then show ?thesis
          using 3 Inr t ok tw by (auto simp: look_def claim_task_def Let_def intro: looked_at.task[of q jb L wr2, simplified])
      qed
    qed
  qed (auto simp: look_def intro: looked_at.intros)
qed

lemma look_E:
  assumes "look L jb q = (q', x)"
  obtains (gone) "x = WGone" "q' = q" "q_err q \<noteq> None \<or> ntasks jb \<le> q_next q"
  | (full) "x = WSleep" "q' = q" "q_err q = None" "q_next q < ntasks jb" "q_head q + jb_window jb \<le> q_next q"
  | (no_writers) e where "x = WErr e" "q' = q" "q_err q = None" "q_next q < ntasks jb"
  | (lost) e wr where "x = WErr e" "q' = q\<lparr>q_next := q_next q + 1, q_wr := wr\<rparr>" "q_err q = None"
      "q_next q < ntasks jb" "q_next q < q_head q + jb_window jb" "wr_ok L (q_wr q) \<Longrightarrow> wr_ok L wr"
  | (task) wr w where "x = WEnc (q_next q) w" "q' = q\<lparr>q_next := q_next q + 1, q_wr := wr\<rparr>" "q_err q = None"
      "q_next q < ntasks jb" "q_next q < q_head q + jb_window jb"
      "wr_ok L (q_wr q) \<Longrightarrow> wr_ok L wr \<and> task_writer L jb (q_next q) w"
  using look_cases[of L jb q] unfolding assms by (cases rule: looked_at.cases) auto

section \<open>Every finished chunk is its task's\<close>

definition chunk_inv :: "('w, 'lf, 'ch, 'f) pq_lib \<Rightarrow> write_job \<Rightarrow> ('w, 'ch, 'f) wq \<Rightarrow> bool" where
  "chunk_inv L jb s \<longleftrightarrow> wr_ok L (q_wr (wq_q s)) \<and>
     (\<forall>i w. WEnc i w \<in> set (wq_wk s) \<longrightarrow> task_writer L jb i w) \<and>
     (\<forall>i ch. q_done (wq_q s) i = Some ch \<longrightarrow> serial_task L jb i = Inr ch)"

lemma serial_task_encode:
  assumes "task_writer L jb i w" "encode L jb i w = Some r"
  shows "serial_task L jb i = r"
  using assms by (auto simp: serial_task_def task_writer_def)

lemma record_err_simps [simp]:
  "q_next (record_err e q) = q_next q" "q_head (record_err e q) = q_head q" "q_wr (record_err e q) = q_wr q"
  "q_done (record_err e q) = q_done q" "q_err (record_err e q) \<noteq> None"
  by (simp_all add: record_err_def)

lemma chunk_inv_step: "wq_step L jb s s' \<Longrightarrow> chunk_inv L jb s \<Longrightarrow> chunk_inv L jb s'"
proof (induction rule: wq_step.induct)
  case (looked k s q' x)
  from looked(3) show ?case
    by (cases rule: look_E) (use looked(4) in \<open>auto simp: chunk_inv_def dest: in_upd\<close>)
next
  case (encoded k s i w ch)
  have "WEnc i w \<in> set (wq_wk s)"
    using encoded(1,2) by (metis nth_mem)
  then have "serial_task L jb i = Inr ch"
    using encoded(3,4) by (auto simp: chunk_inv_def intro: serial_task_encode)
  with encoded(4) show ?case
    by (auto simp: chunk_inv_def dest: in_upd)
next
  case (notified k s)
  then show ?case
    by (auto simp: chunk_inv_def simp del: set_map dest!: in_upd)
next
  case (consumed s g c ch ws')
  then show ?case
    by (auto simp: chunk_inv_def dest: notify_one_mem split: if_splits)
qed (auto simp: chunk_inv_def simp del: set_map dest!: in_upd)

lemma chunk_inv_reach: "wq_reach L jb n f s \<Longrightarrow> chunk_inv L jb s"
proof (induction rule: wq_reach.induct)
  case start
  then show ?case by (simp add: chunk_inv_def wq_start_def wr_ok_def)
next
  case (step s s')
  then show ?case by (blast intro: chunk_inv_step)
qed (auto simp: chunk_inv_def dest: in_upd)

section \<open>Tasks in flight\<close>

text \<open>
  What is claimed and not yet appended lies between the head and the cursor, a window apart at
  most; each such task has one worker at most, and a finished one none.
\<close>

definition flight_queue :: "write_job \<Rightarrow> ('w, 'ch) queue \<Rightarrow> bool" where
  "flight_queue jb q \<longleftrightarrow> q_head q \<le> q_next q \<and> q_next q \<le> ntasks jb \<and> q_next q \<le> q_head q + jb_window jb \<and>
     (\<forall>i. q_done q i \<noteq> None \<longrightarrow> q_head q \<le> i \<and> i < q_next q)"

definition flight_workers :: "('w, 'ch) queue \<Rightarrow> 'w wk list \<Rightarrow> bool" where
  "flight_workers q ws \<longleftrightarrow>
     (\<forall>k < length ws. \<forall>i w. ws ! k = WEnc i w \<longrightarrow> q_head q \<le> i \<and> i < q_next q \<and> q_done q i = None) \<and>
     (\<forall>k < length ws. \<forall>k' < length ws. \<forall>i w w'. ws ! k = WEnc i w \<longrightarrow> ws ! k' = WEnc i w' \<longrightarrow> k = k')"

definition flight_master :: "write_job \<Rightarrow> ('w, 'ch) queue \<Rightarrow> 'ch ms \<Rightarrow> bool" where
  "flight_master jb q m \<longleftrightarrow> (case m of
       MNext g \<Rightarrow> g \<le> jb_nrg jb \<and> q_head q = g * ncols jb
     | MLook g c \<Rightarrow> g < jb_nrg jb \<and> c \<le> ncols jb \<and> q_head q = g * ncols jb + c
     | MSleep g c \<Rightarrow> g < jb_nrg jb \<and> c < ncols jb \<and> q_head q = g * ncols jb + c
     | MAppend g c ch \<Rightarrow> g < jb_nrg jb \<and> c < ncols jb \<and> q_head q = g * ncols jb + c + 1
     | MClose g \<Rightarrow> g < jb_nrg jb \<and> q_head q = g * ncols jb + ncols jb
     | MEnd \<Rightarrow> q_head q = ntasks jb
     | MRet (Inr u) \<Rightarrow> q_head q = ntasks jb
     | _ \<Rightarrow> True)"

definition flight_inv :: "write_job \<Rightarrow> ('w, 'ch, 'f) wq \<Rightarrow> bool" where
  "flight_inv jb s \<longleftrightarrow> flight_queue jb (wq_q s) \<and> flight_workers (wq_q s) (wq_wk s) \<and>
     flight_master jb (wq_q s) (wq_ms s)"

lemma nth_upd: "j < length ws \<Longrightarrow> ws[k := x] ! j = (if j = k then x else ws ! j)"
  by auto

lemma flight_workers_idle:
  assumes "flight_workers q ws" "\<And>i w. x \<noteq> WEnc i w"
  shows "flight_workers q (ws[k := x])"
  using assms unfolding flight_workers_def by (auto simp: nth_upd split: if_splits)

lemma flight_workers_map:
  "flight_workers q (map wake ws) \<longleftrightarrow> flight_workers q ws"
  by (simp add: flight_workers_def)

lemma flight_master_wake: "flight_master jb q m \<Longrightarrow> flight_master jb q (wake_ms m)"
  by (auto simp: flight_master_def split: ms.splits)

lemma flight_record [simp]:
  "flight_queue jb (record_err e q) = flight_queue jb q"
  "flight_workers (record_err e q) ws = flight_workers q ws"
  "flight_master jb (record_err e q) m = flight_master jb q m"
  by (simp_all add: flight_queue_def flight_workers_def flight_master_def split: ms.splits sum.splits)

lemma flight_step: "wq_step L jb s s' \<Longrightarrow> flight_inv jb s \<Longrightarrow> flight_inv jb s'"
proof (induction rule: wq_step.induct)
  case (looked k s q' x)
  let ?q = "wq_q s" and ?ws = "wq_wk s"
  have fq: "flight_queue jb ?q" and fw: "flight_workers ?q ?ws" and fm: "flight_master jb ?q (wq_ms s)"
    using looked(4) by (simp_all add: flight_inv_def)
  have fm': "flight_master jb (?q\<lparr>q_next := n, q_wr := wr\<rparr>) (wq_ms s)" for n wr
    using fm by (simp add: flight_master_def split: ms.splits sum.splits)
  have fw': "flight_workers (?q\<lparr>q_next := q_next ?q + 1, q_wr := wr\<rparr>) ?ws" for wr
    using fw by (auto simp: flight_workers_def less_Suc_eq)
  from looked(3) show ?case
  proof (cases rule: look_E)
    case (lost e wr)
    have "flight_queue jb q'"
      using fq lost(2,4,5) by (auto simp: flight_queue_def less_Suc_eq)
    then show ?thesis
      using fw' fm' lost(1,2) by (simp add: flight_inv_def flight_workers_idle)
  next
    case (task wr w)
    have "flight_queue jb q'"
      using fq task(2,4,5) by (auto simp: flight_queue_def less_Suc_eq)
    moreover have "flight_workers q' (?ws[k := x])"
      using fw fq unfolding task(1,2) flight_workers_def flight_queue_def
      by (auto simp: nth_upd less_Suc_eq split: if_splits)
    ultimately show ?thesis
      using fm' task(2) by (simp add: flight_inv_def)
  qed (use fq fw fm in \<open>simp_all add: flight_inv_def flight_workers_idle\<close>)
next
  case (encoded k s i w ch)
  let ?q = "wq_q s" and ?ws = "wq_wk s"
  let ?q' = "?q\<lparr>q_done := (q_done ?q)(i \<mapsto> ch)\<rparr>"
  have fq: "flight_queue jb ?q" and fw: "flight_workers ?q ?ws" and fm: "flight_master jb ?q (wq_ms s)"
    using encoded(4) by (simp_all add: flight_inv_def)
  have "q_head ?q \<le> i \<and> i < q_next ?q"
    using fw encoded(1,2) by (simp add: flight_workers_def)
  then have "flight_queue jb ?q'"
    using fq by (simp add: flight_queue_def)
  moreover have "flight_workers ?q' (?ws[k := WLook])"
    using fw encoded(1,2) unfolding flight_workers_def by (auto simp: nth_upd split: if_splits)
  moreover have "flight_master jb ?q' (wake_ms (wq_ms s))"
    using flight_master_wake[OF fm] by (simp add: flight_master_def split: ms.splits sum.splits)
  ultimately show ?case
    by (simp add: flight_inv_def)
next
  case (consumed s g c ch ws')
  let ?q = "wq_q s" and ?i = "g * ncols jb + c"
  let ?q' = "?q\<lparr>q_done := (q_done ?q)(?i := None), q_head := ?i + 1\<rparr>"
  have fq: "flight_queue jb ?q" and fw: "flight_workers ?q (wq_wk s)" and fm: "flight_master jb ?q (wq_ms s)"
    using consumed(5) by (simp_all add: flight_inv_def)
  have head: "q_head ?q = ?i" "g < jb_nrg jb"
    using fm consumed(1) by (simp_all add: flight_master_def)
  have enc: "i \<noteq> ?i" if "k < length (wq_wk s)" "wq_wk s ! k = WEnc i w" for k i w
    using fw that consumed(3) by (auto simp: flight_workers_def)
  have "?i < q_next ?q"
    using fq consumed(3) by (simp add: flight_queue_def)
  then have "flight_queue jb ?q'"
    using fq unfolding flight_queue_def head(1) by (auto simp: Suc_le_eq order_less_le)
  moreover have "flight_workers ?q' ws'"
    using fw enc notify_one_enc[OF consumed(4)] notify_one_length[OF consumed(4)]
    unfolding flight_workers_def head(1) by (auto simp: Suc_le_eq order_less_le)
  moreover have "flight_master jb ?q' (MAppend g c ch)"
    using head(2) consumed(2) by (simp add: flight_master_def)
  ultimately show ?case
    by (simp add: flight_inv_def)
next
  case (wrote s m' f')
  then show ?case
    by (auto simp: flight_inv_def master_io_def io_to_def flight_master_def ntasks_def
        split: ms.splits if_splits sum.splits)
next
  case (notified k s)
  then show ?case
    by (simp add: flight_inv_def flight_workers_idle flight_workers_map flight_master_wake)
next
  case (saw_err s g c e)
  then show ?case by (simp add: flight_inv_def flight_master_def)
next
  case (slept s g c)
  then show ?case by (simp add: flight_inv_def flight_master_def)
next
  case (m_recorded s e)
  then show ?case by (simp add: flight_inv_def flight_master_def)
next
  case (m_notified s e)
  then show ?case by (simp add: flight_inv_def flight_workers_map flight_master_def)
next
  case (m_ended s)
  then show ?case by (simp add: flight_inv_def flight_workers_map flight_master_def)
qed (simp_all add: flight_inv_def flight_workers_idle)

lemma flight_reach: "wq_reach L jb n f s \<Longrightarrow> flight_inv jb s"
proof (induction rule: wq_reach.induct)
  case start
  then show ?case
    by (simp add: flight_inv_def wq_start_def flight_queue_def flight_workers_def flight_master_def)
next
  case (step s s')
  then show ?case by (blast intro: flight_step)
next
  case (spurious s k)
  then show ?case by (simp add: flight_inv_def flight_workers_idle)
next
  case (m_spurious s)
  then show ?case by (simp add: flight_inv_def flight_master_wake)
qed

section \<open>The file is the serial writer's\<close>

lemma rbind_return [simp]: "rbind x Inr = x"
  by (cases x) simp_all

lemma serial_upto_Suc: "serial_upto L jb (Suc g) f = rbind (serial_upto L jb g f) (\<lambda>f. serial_group L jb f g)"
  by (simp add: serial_upto_def foldR_append)

lemma serial_cols_0: "serial_cols L jb g 0 f = ctx ''pq_write'' (lb_next_rg L f)"
  by (simp add: serial_cols_def)

lemma serial_cols_Suc:
  "serial_cols L jb g (Suc c) f = rbind (serial_cols L jb g c f)
     (\<lambda>f. rbind (serial_task L jb (g * ncols jb + c)) (\<lambda>ch. ctx ''pq_write'' (lb_append L f ch)))"
  by (simp add: serial_cols_def foldR_append rbind_assoc)

definition at_col :: "('w, 'lf, 'ch, 'f) pq_lib \<Rightarrow> write_job \<Rightarrow> 'f \<Rightarrow> nat \<Rightarrow> nat \<Rightarrow> 'f result" where
  "at_col L jb f0 g c = rbind (serial_upto L jb g f0) (\<lambda>f. serial_cols L jb g c f)"

lemma at_col_0: "at_col L jb f0 g 0 = rbind (serial_upto L jb g f0) (\<lambda>f. ctx ''pq_write'' (lb_next_rg L f))"
  by (simp add: at_col_def serial_cols_0)

lemma at_col_Suc: "at_col L jb f0 g (Suc c) = rbind (at_col L jb f0 g c)
     (\<lambda>f. rbind (serial_task L jb (g * ncols jb + c)) (\<lambda>ch. ctx ''pq_write'' (lb_append L f ch)))"
  unfolding at_col_def serial_cols_Suc rbind_assoc ..

lemma upto_at_col: "serial_upto L jb (Suc g) f0 = rbind (at_col L jb f0 g (ncols jb)) (\<lambda>f. ctx ''pq_write'' (lb_close_rg L f))"
  unfolding at_col_def serial_upto_Suc serial_group_def rbind_assoc ..

definition file_at :: "('w, 'lf, 'ch, 'f) pq_lib \<Rightarrow> write_job \<Rightarrow> 'f \<Rightarrow> 'ch ms \<Rightarrow> 'f \<Rightarrow> bool" where
  "file_at L jb f0 m f \<longleftrightarrow> (case m of
       MNext g \<Rightarrow> g \<le> jb_nrg jb \<and> serial_upto L jb g f0 = Inr f
     | MLook g c \<Rightarrow> g < jb_nrg jb \<and> c \<le> ncols jb \<and> at_col L jb f0 g c = Inr f
     | MSleep g c \<Rightarrow> g < jb_nrg jb \<and> c \<le> ncols jb \<and> at_col L jb f0 g c = Inr f
     | MAppend g c ch \<Rightarrow> g < jb_nrg jb \<and> c < ncols jb \<and> at_col L jb f0 g c = Inr f \<and>
         serial_task L jb (g * ncols jb + c) = Inr ch
     | MClose g \<Rightarrow> g < jb_nrg jb \<and> at_col L jb f0 g (ncols jb) = Inr f
     | MEnd \<Rightarrow> serial_write L jb f0 = Inr f
     | MRet (Inr u) \<Rightarrow> serial_write L jb f0 = Inr f
     | _ \<Rightarrow> True)"

definition file_inv :: "('w, 'lf, 'ch, 'f) pq_lib \<Rightarrow> write_job \<Rightarrow> 'f \<Rightarrow> ('w, 'ch, 'f) wq \<Rightarrow> bool" where
  "file_inv L jb f0 s \<longleftrightarrow> file_at L jb f0 (wq_ms s) (wq_file s)"

lemma file_at_wake: "file_at L jb f0 m f \<Longrightarrow> file_at L jb f0 (wake_ms m) f"
  by (auto simp: file_at_def split: ms.splits)

lemma file_at_io:
  assumes "master_io L jb m f = Some (m', f')" "file_at L jb f0 m f"
  shows "file_at L jb f0 m' f'"
proof (cases m)
  case (MNext g)
  then show ?thesis
    using assms by (auto simp: file_at_def master_io_def io_to_def at_col_0 serial_write_def split: if_splits sum.splits)
next
  case (MLook g c)
  then show ?thesis
    using assms by (auto simp: file_at_def master_io_def split: if_splits)
next
  case (MAppend g c ch)
  then show ?thesis
    using assms by (auto simp: file_at_def master_io_def io_to_def at_col_Suc split: sum.splits)
next
  case (MClose g)
  then show ?thesis
    using assms by (auto simp: file_at_def master_io_def io_to_def upto_at_col split: sum.splits)
qed (use assms in \<open>simp_all add: master_io_def\<close>)

lemma file_inv_step: "wq_step L jb s s' \<Longrightarrow> chunk_inv L jb s \<Longrightarrow> file_inv L jb f0 s \<Longrightarrow> file_inv L jb f0 s'"
proof (induction rule: wq_step.induct)
  case (wrote s m' f')
  then show ?case by (auto simp: file_inv_def intro: file_at_io)
next
  case (consumed s g c ch ws')
  then show ?case by (simp add: file_inv_def file_at_def chunk_inv_def)
next
  case (slept s g c)
  then show ?case by (simp add: file_inv_def file_at_def)
qed (simp_all add: file_inv_def file_at_wake, simp_all add: file_at_def)

lemma file_inv_reach: "wq_reach L jb n f0 s \<Longrightarrow> file_inv L jb f0 s"
proof (induction rule: wq_reach.induct)
  case start
  then show ?case by (simp add: file_inv_def file_at_def wq_start_def serial_upto_def)
next
  case (step s s')
  show ?case by (rule file_inv_step[OF step(2) chunk_inv_reach[OF step(1)] step(3)])
qed (simp_all add: file_inv_def file_at_wake)

section \<open>No wakeup is lost\<close>

primrec looking :: "'w wk \<Rightarrow> nat" where
  "looking WLook = 1" | "looking WSleep = 0" | "looking (WEnc i w) = 0" | "looking (WErr e) = 0"
| "looking WNotify = 0" | "looking WGone = 0"

definition lookers :: "'w wk list \<Rightarrow> nat" where
  "lookers ws = sum_list (map looking ws)"

lemma lookers_upd: "k < length ws \<Longrightarrow> lookers (ws[k := x]) + looking (ws ! k) = lookers ws + looking x"
  by (simp add: lookers_def sum_list_update)

text \<open>
  A claimed chunk is finished, being encoded, or its worker is about to report an error. A
  sleeping master lacks its chunk, and a failure still has its notification to come. While a
  worker sleeps there are at least as many workers about to look as there are free slots in
  the window, or again a failure is still to be notified.
\<close>

definition erring :: "'w wk list \<Rightarrow> bool" where
  "erring ws \<longleftrightarrow> (\<exists>e. WErr e \<in> set ws)"

definition claimed_live :: "('w, 'ch) queue \<Rightarrow> 'w wk list \<Rightarrow> bool" where
  "claimed_live q ws \<longleftrightarrow> q_err q = None \<and> \<not> erring ws \<longrightarrow>
     (\<forall>i. q_head q \<le> i \<and> i < q_next q \<longrightarrow> q_done q i \<noteq> None \<or> (\<exists>w. WEnc i w \<in> set ws))"

definition master_live :: "write_job \<Rightarrow> ('w, 'ch) queue \<Rightarrow> 'w wk list \<Rightarrow> 'ch ms \<Rightarrow> bool" where
  "master_live jb q ws m \<longleftrightarrow> (\<forall>g c. m = MSleep g c \<longrightarrow>
     q_done q (g * ncols jb + c) = None \<and> (q_err q \<noteq> None \<longrightarrow> WNotify \<in> set ws))"

definition sleepers_live :: "write_job \<Rightarrow> ('w, 'ch) queue \<Rightarrow> 'w wk list \<Rightarrow> 'ch ms \<Rightarrow> bool" where
  "sleepers_live jb q ws m \<longleftrightarrow> (WSleep \<in> set ws \<longrightarrow>
     (if q_err q \<noteq> None then WNotify \<in> set ws \<or> (\<exists>e. m = MNotify e)
      else erring ws \<or> ((\<forall>r. m \<noteq> MRet r) \<and>
        (ntasks jb \<le> q_next q \<or> q_head q + jb_window jb \<le> q_next q + lookers ws))))"

definition ends_live :: "write_job \<Rightarrow> ('w, 'ch) queue \<Rightarrow> 'w wk list \<Rightarrow> 'ch ms \<Rightarrow> bool" where
  "ends_live jb q ws m \<longleftrightarrow> (WGone \<in> set ws \<longrightarrow> q_err q \<noteq> None \<or> ntasks jb \<le> q_next q) \<and>
     (WNotify \<in> set ws \<longrightarrow> q_err q \<noteq> None) \<and>
     (\<forall>e. m = MNotify e \<or> m = MRet (Inl e) \<longrightarrow> q_err q \<noteq> None)"

definition live_inv :: "write_job \<Rightarrow> ('w, 'ch, 'f) wq \<Rightarrow> bool" where
  "live_inv jb s \<longleftrightarrow> claimed_live (wq_q s) (wq_wk s) \<and> master_live jb (wq_q s) (wq_wk s) (wq_ms s) \<and>
     sleepers_live jb (wq_q s) (wq_wk s) (wq_ms s) \<and> ends_live jb (wq_q s) (wq_wk s) (wq_ms s)"

lemmas live_defs = live_inv_def claimed_live_def master_live_def sleepers_live_def ends_live_def

lemma erring_upd: "k < length ws \<Longrightarrow> erring (ws[k := WErr e])"
  by (auto simp: erring_def intro: set_update_memI)

lemma erring_keep: "erring ws \<Longrightarrow> \<forall>e. ws ! k \<noteq> WErr e \<Longrightarrow> erring (ws[k := x])"
  unfolding erring_def by (blast intro: keep_mem)

lemma erring_from: "erring (ws[k := x]) \<Longrightarrow> \<forall>e. x \<noteq> WErr e \<Longrightarrow> erring ws"
  unfolding erring_def by (blast dest: in_upd)

lemma erring_wake [simp]: "erring (map wake ws) = erring ws"
  by (simp only: erring_def mem_map_wake)

lemma live_looked:
  assumes "k < length ws" "ws ! k = WLook" "look L jb q = (q', x)"
    and "live_inv jb s" "flight_inv jb s" "wq_q s = q" "wq_wk s = ws"
  shows "live_inv jb (s\<lparr>wq_q := q', wq_wk := ws[k := x]\<rparr>)"
proof -
  let ?m = "wq_ms s" and ?ws = "ws[k := x]"
  have cl: "claimed_live q ws" and ml: "master_live jb q ws ?m" and sl: "sleepers_live jb q ws ?m" and el: "ends_live jb q ws ?m"
    using assms(4,6,7) by (simp_all add: live_inv_def)
  have ret: "q_next q < ntasks jb \<Longrightarrow> q_err q = None \<Longrightarrow> \<forall>r. ?m \<noteq> MRet r"
    using assms(5,6) el by (auto simp: flight_inv_def flight_master_def flight_queue_def ends_live_def split: sum.splits)
  have keep: "y \<in> set ws \<Longrightarrow> y \<noteq> WLook \<Longrightarrow> y \<in> set ?ws" for y
    using assms(2) by (auto intro: keep_mem)
  have ek: "erring ws \<Longrightarrow> erring ?ws"
    using assms(2) by (auto intro: erring_keep)
  have lk: "lookers ?ws + 1 = lookers ws + looking x"
    using lookers_upd[OF assms(1), of x] assms(2) by simp
  have new: "y \<in> set ?ws \<Longrightarrow> y = x \<or> y \<in> set ws" for y
    by (rule in_upd)
  have mlk: "master_live jb q ?ws ?m"
    using ml keep by (auto simp: master_live_def)
  have still: "claimed_live q ?ws" if "\<And>i w. x \<noteq> WEnc i w"
    using cl keep ek by (fastforce simp: claimed_live_def)
  from assms(3) show ?thesis
  proof (cases rule: look_E)
    case gone
    have "sleepers_live jb q ?ws ?m"
      using sl gone new keep lk ek by (auto simp: sleepers_live_def)
    moreover have "ends_live jb q ?ws ?m"
      using el gone new by (auto simp: ends_live_def)
    ultimately show ?thesis
      using still mlk gone by (simp add: live_inv_def)
  next
    case full
    have "sleepers_live jb q ?ws ?m"
      using full ret by (simp add: sleepers_live_def)
    moreover have "ends_live jb q ?ws ?m"
      using el full new by (auto simp: ends_live_def)
    ultimately show ?thesis
      using still mlk full by (simp add: live_inv_def)
  next
    case (no_writers e)
    have "sleepers_live jb q ?ws ?m"
      using no_writers erring_upd[OF assms(1)] by (simp add: sleepers_live_def)
    moreover have "ends_live jb q ?ws ?m"
      using el no_writers new by (auto simp: ends_live_def)
    ultimately show ?thesis
      using still mlk no_writers by (simp add: live_inv_def)
  next
    case (lost e wr)
    have "erring ?ws"
      using lost erring_upd[OF assms(1)] by simp
    then have "sleepers_live jb q' ?ws ?m" "claimed_live q' ?ws"
      using lost by (simp_all add: sleepers_live_def claimed_live_def)
    moreover have "ends_live jb q' ?ws ?m"
      using el lost new by (auto simp: ends_live_def)
    ultimately show ?thesis
      using mlk lost by (simp add: live_inv_def master_live_def)
  next
    case (task wr w)
    have "sleepers_live jb q' ?ws ?m"
      using sl task new lk ek ret by (auto simp: sleepers_live_def)
    moreover have "claimed_live q' ?ws"
      using cl keep ek set_update_memI[OF assms(1), of x] task
      by (fastforce simp: claimed_live_def less_Suc_eq)
    moreover have "ends_live jb q' ?ws ?m"
      using el task new by (auto simp: ends_live_def)
    ultimately show ?thesis
      using mlk task by (simp add: live_inv_def master_live_def)
  qed
qed

lemma live_encoded:
  assumes "k < length ws" "ws ! k = WEnc i w" and live: "live_inv jb s" and eq: "wq_q s = q" "wq_wk s = ws"
  shows "live_inv jb (s\<lparr>wq_q := q\<lparr>q_done := (q_done q)(i \<mapsto> ch)\<rparr>, wq_wk := ws[k := WLook], wq_ms := wake_ms (wq_ms s)\<rparr>)"
proof -
  let ?m = "wq_ms s" and ?ws = "ws[k := WLook]" and ?q = "q\<lparr>q_done := (q_done q)(i \<mapsto> ch)\<rparr>"
  have cl: "claimed_live q ws" and sl: "sleepers_live jb q ws ?m" and el: "ends_live jb q ws ?m"
    using live eq by (simp_all add: live_inv_def)
  have keep: "y \<in> set ws \<Longrightarrow> y \<noteq> WEnc i w \<Longrightarrow> y \<in> set ?ws" for y
    using assms(2) by (auto intro: keep_mem)
  have new: "y \<in> set ?ws \<Longrightarrow> y = WLook \<or> y \<in> set ws" for y
    by (rule in_upd)
  have ek: "erring ?ws = erring ws"
    using assms(2) by (auto dest: erring_from intro: erring_keep)
  have lk: "lookers ?ws = lookers ws + 1"
    using lookers_upd[OF assms(1), of WLook] assms(2) by simp
  have "claimed_live ?q ?ws"
    using cl keep ek by (fastforce simp: claimed_live_def)
  moreover have "sleepers_live jb ?q ?ws (wake_ms ?m)"
    using sl new keep lk ek by (auto simp: sleepers_live_def wake_ms_def split: ms.splits)
  moreover have "ends_live jb ?q ?ws (wake_ms ?m)"
    using el new by (auto simp: ends_live_def wake_ms_def split: ms.splits)
  ultimately show ?thesis
    by (simp add: live_inv_def master_live_def)
qed

lemma live_refused:
  assumes "k < length ws" "ws ! k = WEnc i w" and live: "live_inv jb s" and eq: "wq_wk s = ws"
  shows "live_inv jb (s\<lparr>wq_wk := ws[k := WErr e]\<rparr>)"
proof -
  have "erring (ws[k := WErr e])"
    by (rule erring_upd[OF assms(1)])
  moreover have "WNotify \<in> set (ws[k := WErr e]) \<longleftrightarrow> WNotify \<in> set ws" "WGone \<in> set (ws[k := WErr e]) \<longleftrightarrow> WGone \<in> set ws"
    "WSleep \<in> set (ws[k := WErr e]) \<longleftrightarrow> WSleep \<in> set ws"
    using assms(2) by (auto dest: in_upd intro: keep_mem)
  ultimately show ?thesis
    using live eq by (auto simp: live_defs)
qed

lemma live_recorded:
  assumes "k < length ws" "ws ! k = WErr e" and live: "live_inv jb s" and eq: "wq_wk s = ws"
  shows "live_inv jb (s\<lparr>wq_q := record_err e (wq_q s), wq_wk := ws[k := WNotify]\<rparr>)"
proof -
  have "WNotify \<in> set (ws[k := WNotify])"
    using assms(1) by (rule set_update_memI)
  then show ?thesis
    using live eq by (auto simp: live_defs)
qed

lemma live_notified:
  assumes "k < length ws" "ws ! k = WNotify" and live: "live_inv jb s" and eq: "wq_wk s = ws"
  shows "live_inv jb (s\<lparr>wq_wk := (map wake ws)[k := WGone], wq_ms := wake_ms (wq_ms s)\<rparr>)"
proof -
  have err: "q_err (wq_q s) \<noteq> None"
    using assms(1,2) live eq by (metis ends_live_def live_inv_def nth_mem)
  moreover have "WSleep \<notin> set ((map wake ws)[k := WGone])"
    by (auto dest: in_upd simp del: set_map)
  ultimately show ?thesis
    by (auto simp: live_defs)
qed

lemma live_consumed:
  assumes "q_done q i = Some ch" "notify_one ws ws'" and live: "live_inv jb s" and eq: "wq_q s = q" "wq_wk s = ws"
    and m: "wq_ms s = MLook g c" "i = g * ncols jb + c" and head: "q_head q = i"
  shows "live_inv jb (s\<lparr>wq_q := q\<lparr>q_done := (q_done q)(i := None), q_head := i + 1\<rparr>, wq_wk := ws', wq_ms := MAppend g c ch\<rparr>)"
proof -
  let ?q = "q\<lparr>q_done := (q_done q)(i := None), q_head := i + 1\<rparr>"
  have cl: "claimed_live q ws" and sl: "sleepers_live jb q ws (MLook g c)" and el: "ends_live jb q ws (MLook g c)"
    using live eq m by (simp_all add: live_inv_def)
  have keep: "y \<in> set ws \<Longrightarrow> y \<noteq> WSleep \<Longrightarrow> y \<in> set ws'" for y
    by (rule notify_one_keep[OF assms(2)])
  have new: "y \<in> set ws' \<Longrightarrow> y = WLook \<or> y \<in> set ws" for y
    by (rule notify_one_mem[OF assms(2)])
  have ek: "erring ws' = erring ws"
    using keep new unfolding erring_def by blast
  have lk: "lookers ws' = lookers ws + 1" if "WSleep \<in> set ws"
  proof -
    obtain k where k: "k < length ws" "ws ! k = WSleep" "ws' = ws[k := WLook]"
      using assms(2) \<open>WSleep \<in> set ws\<close> by (auto simp: notify_one_def)
    then show ?thesis
      using lookers_upd[OF k(1), of WLook] by simp
  qed
  have "claimed_live ?q ws'"
    unfolding claimed_live_def
  proof (intro impI allI, elim conjE)
    fix j
    assume "q_err ?q = None" "\<not> erring ws'" and j: "q_head ?q \<le> j" "j < q_next ?q"
    then have "q_done q j \<noteq> None \<or> (\<exists>w. WEnc j w \<in> set ws)"
      using cl ek head by (simp add: claimed_live_def)
    then show "q_done ?q j \<noteq> None \<or> (\<exists>w. WEnc j w \<in> set ws')"
      using keep j(1) by auto
  qed
  moreover have "sleepers_live jb ?q ws' (MAppend g c ch)"
    using sl new[of WSleep] keep[of WNotify] lk ek head by (auto simp: sleepers_live_def)
  moreover have "ends_live jb ?q ws' (MAppend g c ch)"
    using el new by (auto simp: ends_live_def)
  ultimately show ?thesis
    by (simp add: live_inv_def master_live_def)
qed

lemma live_step: "wq_step L jb s s' \<Longrightarrow> flight_inv jb s \<Longrightarrow> live_inv jb s \<Longrightarrow> live_inv jb s'"
proof (induction rule: wq_step.induct)
  case (looked k s q' x)
  show ?case by (rule live_looked[OF looked(1,2,3,5,4) refl refl])
next
  case (encoded k s i w ch)
  show ?case by (rule live_encoded[OF encoded(1,2,5) refl refl])
next
  case (refused k s i w r e)
  show ?case by (rule live_refused[OF refused(1,2,6) refl])
next
  case (recorded k s e)
  show ?case by (rule live_recorded[OF recorded(1,2,4) refl])
next
  case (notified k s)
  show ?case by (rule live_notified[OF notified(1,2,4) refl])
next
  case (consumed s g c ch ws')
  have "q_head (wq_q s) = g * ncols jb + c"
    using consumed(1,5) by (simp add: flight_inv_def flight_master_def)
  then show ?case
    using live_consumed[OF consumed(3,4,6) refl refl consumed(1) refl] by simp
next
  case (wrote s m' f')
  have "(\<forall>g c. m' \<noteq> MSleep g c) \<and> (\<forall>e. m' \<noteq> MNotify e) \<and> (\<forall>r. m' \<noteq> MRet r) \<and> (\<forall>e. wq_ms s \<noteq> MNotify e)"
    using wrote(1) by (auto simp: master_io_def io_to_def split: ms.splits if_splits sum.splits)
  then show ?case
    using wrote(3) by (auto simp: live_defs)
next
  case (saw_err s g c e)
  then show ?case by (auto simp: live_defs)
next
  case (slept s g c)
  then show ?case by (auto simp: live_defs)
next
  case (m_recorded s e)
  then show ?case by (auto simp: live_defs)
next
  case (m_notified s e)
  then have "q_err (wq_q s) \<noteq> None"
    by (simp add: live_defs)
  with m_notified show ?case by (auto simp: live_defs simp del: set_map)
next
  case (m_ended s)
  then show ?case by (auto simp: live_defs simp del: set_map)
qed

lemma live_spurious:
  assumes "k < length ws" "ws ! k = WSleep" and live: "live_inv jb s" and eq: "wq_q s = q" "wq_wk s = ws"
  shows "live_inv jb (s\<lparr>wq_wk := ws[k := WLook]\<rparr>)"
proof -
  let ?m = "wq_ms s" and ?ws = "ws[k := WLook]"
  have cl: "claimed_live q ws" and ml: "master_live jb q ws ?m" and sl: "sleepers_live jb q ws ?m" and el: "ends_live jb q ws ?m"
    using live eq by (simp_all add: live_inv_def)
  have keep: "y \<in> set ws \<Longrightarrow> y \<noteq> WSleep \<Longrightarrow> y \<in> set ?ws" for y
    using assms(2) by (auto intro: keep_mem)
  have new: "y \<in> set ?ws \<Longrightarrow> y = WLook \<or> y \<in> set ws" for y
    by (rule in_upd)
  have ek: "erring ?ws = erring ws"
    using assms(2) by (auto dest: erring_from intro: erring_keep)
  have lk: "lookers ?ws = lookers ws + 1"
    using lookers_upd[OF assms(1), of WLook] assms(2) by simp
  have "claimed_live q ?ws"
    using cl keep ek by (fastforce simp: claimed_live_def)
  moreover have "sleepers_live jb q ?ws ?m"
    using sl new keep lk ek by (auto simp: sleepers_live_def)
  moreover have "ends_live jb q ?ws ?m"
    using el new by (auto simp: ends_live_def)
  moreover have "master_live jb q ?ws ?m"
    using ml keep by (auto simp: master_live_def)
  ultimately show ?thesis
    using eq by (simp add: live_inv_def)
qed

lemma live_m_spurious: "live_inv jb s \<Longrightarrow> live_inv jb (s\<lparr>wq_ms := wake_ms (wq_ms s)\<rparr>)"
  by (cases "wq_ms s") (auto simp: live_defs)

lemma live_reach: "wq_reach L jb n f s \<Longrightarrow> live_inv jb s"
proof (induction rule: wq_reach.induct)
  case start
  then show ?case by (simp add: live_defs wq_start_def)
next
  case (step s s')
  show ?case by (rule live_step[OF step(2) flight_reach[OF step(1)] step(3)])
next
  case (spurious s k)
  show ?case by (rule live_spurious[OF spurious(2,3,4) refl refl])
qed (rule live_m_spurious)

section \<open>Progress\<close>

lemma length_wk: "wq_step L jb s s' \<Longrightarrow> length (wq_wk s') = length (wq_wk s)"
  by (induction rule: wq_step.induct) auto

lemma length_wk_reach: "wq_reach L jb n f s \<Longrightarrow> length (wq_wk s) = n"
  by (induction rule: wq_reach.induct) (simp_all add: wq_start_def length_wk)

definition wq_done :: "('w, 'ch, 'f) wq \<Rightarrow> bool" where
  "wq_done s \<longleftrightarrow> (\<forall>w \<in> set (wq_wk s). w = WGone) \<and> (\<exists>r. wq_ms s = MRet r)"

lemma worker_stuck:
  assumes "\<nexists>s'. wq_step L jb s s'" "w \<in> set (wq_wk s)"
  shows "w = WSleep \<or> w = WGone"
proof -
  obtain k where k: "k < length (wq_wk s)" "wq_wk s ! k = w"
    using assms(2) by (auto simp: in_set_conv_nth)
  show ?thesis
  proof (cases w)
    case WLook
    then show ?thesis
      using assms(1) k wq_step.looked[of k s L jb "fst (look L jb (wq_q s))" "snd (look L jb (wq_q s))"] by auto
  next
    case (WEnc i v)
    then show ?thesis
    proof (cases "encode L jb i v")
      case None
      then show ?thesis
        using assms(1) k WEnc wq_step.refused[of k s i v L jb None] by auto
    next
      case (Some r)
      then show ?thesis
        using assms(1) k WEnc wq_step.refused[of k s i v L jb "Some r"] wq_step.encoded[of k s i v L jb]
        by (cases r) auto
    qed
  next
    case (WErr e)
    then show ?thesis using assms(1) k wq_step.recorded[of k s e L jb] by auto
  next
    case WNotify
    then show ?thesis using assms(1) k wq_step.notified[of k s L jb] by auto
  qed simp_all
qed

lemma notify_one_ex: "\<exists>ws'. notify_one ws ws'"
proof (cases "WSleep \<in> set ws")
  case True
  then obtain k where "k < length ws" "ws ! k = WSleep"
    by (auto simp: in_set_conv_nth)
  with True show ?thesis by (auto simp: notify_one_def)
qed (simp add: notify_one_def)

lemma master_stuck:
  assumes "\<nexists>s'. wq_step L jb s s'"
  shows "(\<exists>g c. wq_ms s = MSleep g c) \<or> (\<exists>r. wq_ms s = MRet r)"
proof -
  have io: "master_io L jb (wq_ms s) (wq_file s) = None"
    using assms wq_step.wrote[of L jb s] by (cases "master_io L jb (wq_ms s) (wq_file s)") auto
  show ?thesis
  proof (cases "wq_ms s")
    case (MLook g c)
    then have c: "c < ncols jb"
      using io by (simp add: master_io_def split: if_splits)
    obtain ws' where "notify_one (wq_wk s) ws'"
      using notify_one_ex by blast
    then show ?thesis
      using assms MLook c wq_step.consumed[of s g c jb _ ws' L] wq_step.slept[of s g c jb L] wq_step.saw_err[of s g c jb _ L]
      by (cases "q_done (wq_q s) (g * ncols jb + c)"; cases "q_err (wq_q s)") metis+
  next
    case (MErr e)
    then show ?thesis using assms wq_step.m_recorded[of s e L jb] by auto
  next
    case (MNotify e)
    then show ?thesis using assms wq_step.m_notified[of s e L jb] by auto
  next
    case MEnd
    then show ?thesis using assms wq_step.m_ended[of s L jb] by auto
  qed (use io in \<open>simp_all add: master_io_def split: if_splits\<close>)
qed

lemma stuck_done:
  assumes reach: "wq_reach L jb n f s" and stuck: "\<nexists>s'. wq_step L jb s s'"
    and pos: "0 < n" "0 < jb_window jb"
  shows "wq_done s"
proof -
  let ?q = "wq_q s" and ?ws = "wq_wk s"
  have live: "live_inv jb s" and flight: "flight_inv jb s"
    using live_reach[OF reach] flight_reach[OF reach] by auto
  have ws: "w \<in> set ?ws \<Longrightarrow> w = WSleep \<or> w = WGone" for w
    by (rule worker_stuck[OF stuck])
  have none: "\<not> erring ?ws" "WNotify \<notin> set ?ws" "WEnc i w \<notin> set ?ws" for i w
    using ws by (auto simp: erring_def)
  have lk: "lookers ?ws = 0"
    unfolding lookers_def by (force simp: sum_list_eq_0_iff dest: ws)
  have "\<not> (\<exists>g c. wq_ms s = MSleep g c)"
  proof
    assume "\<exists>g c. wq_ms s = MSleep g c"
    then obtain g c where m: "wq_ms s = MSleep g c" by blast
    have head: "q_head ?q = g * ncols jb + c" "g < jb_nrg jb" "c < ncols jb"
      using flight m by (simp_all add: flight_inv_def flight_master_def)
    have err: "q_err ?q = None" and missing: "q_done ?q (g * ncols jb + c) = None"
      using live m none by (auto simp: live_inv_def master_live_def)
    have "q_next ?q \<le> q_head ?q"
      using live err none missing head(1) by (auto simp: live_inv_def claimed_live_def not_less)
    moreover have "g * ncols jb + c < ntasks jb"
      using head(2,3) mult_le_mono1[of "Suc g" "jb_nrg jb" "ncols jb"] by (simp add: ntasks_def)
    ultimately have small: "q_next ?q < ntasks jb" "q_next ?q < q_head ?q + jb_window jb"
      using head(1) pos(2) by linarith+
    have "WGone \<notin> set ?ws"
      using live err small(1) by (auto simp: live_inv_def ends_live_def)
    then have "WSleep \<in> set ?ws"
      using ws length_wk_reach[OF reach] pos(1) by (metis length_greater_0_conv list.set_sel(1))
    then show False
      using live err none small lk by (auto simp: live_inv_def sleepers_live_def)
  qed
  then obtain r where m: "wq_ms s = MRet r"
    using master_stuck[OF stuck] by blast
  have "WSleep \<notin> set ?ws"
    using live m none by (auto simp: live_inv_def sleepers_live_def split: if_splits)
  then show ?thesis
    using ws m unfolding wq_done_def by blast
qed

section \<open>Termination\<close>

text \<open>
  Claims use up the tasks, then workers use up what they still have to do, then the master its
  loop; a sleep alone only uses up the looks, and every wakeup comes with one of the others.
\<close>

primrec wk_left :: "'w wk \<Rightarrow> nat" where
  "wk_left WLook = 3" | "wk_left WSleep = 3" | "wk_left (WEnc i w) = 4" | "wk_left (WErr e) = 2"
| "wk_left WNotify = 1" | "wk_left WGone = 0"

definition wks_left :: "'w wk list \<Rightarrow> nat" where
  "wks_left ws = sum_list (map wk_left ws)"

lemma wks_left_upd: "k < length ws \<Longrightarrow> wks_left (ws[k := x]) + wk_left (ws ! k) = wks_left ws + wk_left x"
  by (simp add: wks_left_def sum_list_update)

lemma wk_left_wake [simp]: "wk_left (wake w) = wk_left w"
  by (cases w) (simp_all add: wake_def)

lemma wks_left_wake [simp]: "wks_left (map wake ws) = wks_left ws"
  by (simp add: wks_left_def o_def)

lemma wks_left_notify: "notify_one ws ws' \<Longrightarrow> wks_left ws' = wks_left ws"
  using wks_left_upd[of _ ws WLook] by (force simp: notify_one_def split: if_splits)

definition group_left :: "write_job \<Rightarrow> nat" where
  "group_left jb = 2 * ncols jb + 5"

definition ms_left :: "write_job \<Rightarrow> 'ch ms \<Rightarrow> nat" where
  "ms_left jb m = (case m of
     MNext g \<Rightarrow> (jb_nrg jb - g) * group_left jb + 4
   | MLook g c \<Rightarrow> (jb_nrg jb - Suc g) * group_left jb + 4 + 2 * (ncols jb - c) + 2
   | MSleep g c \<Rightarrow> (jb_nrg jb - Suc g) * group_left jb + 4 + 2 * (ncols jb - c) + 2
   | MAppend g c ch \<Rightarrow> (jb_nrg jb - Suc g) * group_left jb + 4 + 2 * (ncols jb - Suc c) + 3
   | MClose g \<Rightarrow> (jb_nrg jb - Suc g) * group_left jb + 4 + 1
   | MErr e \<Rightarrow> 2 | MNotify e \<Rightarrow> 1 | MEnd \<Rightarrow> 1 | MRet r \<Rightarrow> 0)"

lemma ms_left_wake [simp]: "ms_left jb (wake_ms m) = ms_left jb m"
  by (cases m) (simp_all add: ms_left_def)

lemma ms_left_io: "master_io L jb m f = Some (m', f') \<Longrightarrow> ms_left jb m' < ms_left jb m"
proof (cases m)
  case (MNext g)
  assume "master_io L jb m f = Some (m', f')"
  moreover have "g < jb_nrg jb \<Longrightarrow> (jb_nrg jb - g) * group_left jb = (jb_nrg jb - Suc g) * group_left jb + group_left jb"
    by (simp add: algebra_simps flip: Suc_diff_Suc)
  ultimately show ?thesis
    using MNext by (auto simp: master_io_def io_to_def ms_left_def group_left_def split: if_splits sum.splits)
qed (auto simp: master_io_def io_to_def ms_left_def split: if_splits sum.splits)

definition awake :: "'ch ms \<Rightarrow> nat" where
  "awake m = (case m of MSleep g c \<Rightarrow> 0 | _ \<Rightarrow> 1)"

definition wq_rank :: "write_job \<Rightarrow> ('w, 'ch, 'f) wq \<Rightarrow> nat \<times> nat \<times> nat \<times> nat" where
  "wq_rank jb s = (ntasks jb - q_next (wq_q s), wks_left (wq_wk s), ms_left jb (wq_ms s),
     lookers (wq_wk s) + awake (wq_ms s))"

definition below4 :: "((nat \<times> nat \<times> nat \<times> nat) \<times> (nat \<times> nat \<times> nat \<times> nat)) set" where
  "below4 = less_than <*lex*> less_than <*lex*> less_than <*lex*> less_than"

lemma below4_wf: "wf below4"
  by (auto simp: below4_def)

lemma below4_iff: "((a, b, c, d), (a', b', c', d')) \<in> below4 \<longleftrightarrow>
    a < a' \<or> (a = a' \<and> (b < b' \<or> (b = b' \<and> (c < c' \<or> (c = c' \<and> d < d')))))"
  by (auto simp: below4_def)

lemma wq_step_rank: "wq_step L jb s s' \<Longrightarrow> (wq_rank jb s', wq_rank jb s) \<in> below4"
proof (induction rule: wq_step.induct)
  case (looked k s q' x)
  note left = wks_left_upd[OF looked(1), of x] lookers_upd[OF looked(1), of x]
  from looked(3) show ?case
    by (cases rule: look_E) (use left looked(2) in \<open>auto simp: wq_rank_def below4_iff\<close>)
next
  case (encoded k s i w ch)
  then show ?case
    using wks_left_upd[OF encoded(1), of WLook] by (simp add: wq_rank_def below4_iff)
next
  case (refused k s i w r e)
  then show ?case
    using wks_left_upd[OF refused(1), of "WErr e"] by (simp add: wq_rank_def below4_iff)
next
  case (recorded k s e)
  then show ?case
    using wks_left_upd[OF recorded(1), of WNotify] by (simp add: wq_rank_def below4_iff)
next
  case (notified k s)
  then show ?case
    using wks_left_upd[of k "map wake (wq_wk s)" WGone] by (simp add: wq_rank_def below4_iff wake_def)
next
  case (wrote s m' f')
  then show ?case
    by (simp add: wq_rank_def below4_iff ms_left_io)
next
  case (consumed s g c ch ws')
  then show ?case
    using Suc_diff_Suc[OF consumed(2)] by (simp add: wq_rank_def below4_iff wks_left_notify ms_left_def)
next
  case (slept s g c)
  then show ?case
    by (simp add: wq_rank_def below4_iff ms_left_def awake_def)
qed (simp_all add: wq_rank_def below4_iff ms_left_def awake_def)

lemma wq_wf: "wf {(s', s). wq_step L jb s s'}"
proof (rule wf_subset)
  show "wf (inv_image below4 (wq_rank jb))"
    by (rule wf_inv_image) (rule below4_wf)
qed (auto intro: wq_step_rank)

section \<open>A write that can succeed does\<close>

lemma upto_prefix: "serial_upto L jb n f0 = Inr x \<Longrightarrow> m \<le> n \<Longrightarrow> \<exists>y. serial_upto L jb m f0 = Inr y"
proof (induction n arbitrary: x)
  case (Suc n)
  then show ?case
    by (cases "m = Suc n") (auto simp: serial_upto_Suc rbind_Inr_iff)
qed auto

lemma at_col_prefix: "at_col L jb f0 g n = Inr x \<Longrightarrow> m \<le> n \<Longrightarrow> \<exists>y. at_col L jb f0 g m = Inr y"
proof (induction n arbitrary: x)
  case (Suc n)
  then show ?case
    by (cases "m = Suc n") (auto simp: at_col_Suc rbind_Inr_iff)
qed auto

lemma group_ok:
  assumes "serial_write L jb f0 = Inr x" "g < jb_nrg jb"
  shows "\<exists>f f'. at_col L jb f0 g (ncols jb) = Inr f \<and> lb_close_rg L f = Inr f'"
  using upto_prefix[of L jb "jb_nrg jb" f0 x "Suc g"] assms
  by (auto simp: serial_write_def upto_at_col rbind_Inr_iff ctx_Inr_iff)

lemma col_ok:
  assumes "serial_write L jb f0 = Inr x" "g < jb_nrg jb" "c < ncols jb"
  shows "\<exists>f ch f'. at_col L jb f0 g c = Inr f \<and> serial_task L jb (g * ncols jb + c) = Inr ch \<and> lb_append L f ch = Inr f'"
proof -
  obtain f where "at_col L jb f0 g (ncols jb) = Inr f"
    using group_ok[OF assms(1,2)] by blast
  then obtain y where "at_col L jb f0 g (Suc c) = Inr y"
    using at_col_prefix[of L jb f0 g "ncols jb" f "Suc c"] assms(3) by (auto simp: Suc_le_eq)
  then show ?thesis
    by (auto simp: at_col_Suc rbind_Inr_iff ctx_Inr_iff)
qed

lemma next_ok:
  assumes "serial_write L jb f0 = Inr x" "g < jb_nrg jb" "serial_upto L jb g f0 = Inr f"
  shows "\<exists>f'. lb_next_rg L f = Inr f'"
proof -
  obtain y where "at_col L jb f0 g (ncols jb) = Inr y"
    using group_ok[OF assms(1,2)] by blast
  then obtain z where "at_col L jb f0 g 0 = Inr z"
    using at_col_prefix[of L jb f0 g "ncols jb" y 0] by auto
  then show ?thesis
    using assms(3) by (auto simp: at_col_0 ctx_Inr_iff)
qed

lemma task_ok:
  assumes "serial_write L jb f0 = Inr x" "i < ntasks jb"
  shows "\<exists>ws ch. lb_writers L (i div ncols jb) = Some (Inr ws) \<and> i mod ncols jb < length ws \<and>
    encode L jb i (ws ! (i mod ncols jb)) = Some (Inr ch)"
proof -
  have pos: "0 < ncols jb"
    using assms(2) by (cases "ncols jb") (simp_all add: ntasks_def)
  have "i div ncols jb < jb_nrg jb"
    using assms(2) by (simp add: ntasks_def less_mult_imp_div_less)
  then obtain ch where "serial_task L jb i = Inr ch"
    using col_ok[OF assms(1), of "i div ncols jb" "i mod ncols jb"] pos by auto
  then show ?thesis
    by (auto simp: serial_task_def rbind_Inr_iff ctx_Inr_iff split: option.splits if_splits)
qed

text \<open>The writers not yet claimed of the row group the cursor stands in.\<close>

definition unclaimed :: "nat \<Rightarrow> nat \<Rightarrow> 'w option list \<Rightarrow> bool" where
  "unclaimed nc c v \<longleftrightarrow> nc \<le> length v \<and> (\<forall>d. c \<le> d \<and> d < nc \<longrightarrow> v ! d \<noteq> None)"

definition writers_ready :: "write_job \<Rightarrow> ('w, 'ch) queue \<Rightarrow> bool" where
  "writers_ready jb q \<longleftrightarrow> q_next q mod ncols jb \<noteq> 0 \<longrightarrow>
     (\<exists>v. q_wr q (q_next q div ncols jb) = Some v \<and> unclaimed (ncols jb) (q_next q mod ncols jb) v)"

lemma all_writers:
  assumes "serial_write L jb f0 = Inr x" "g < jb_nrg jb" "lb_writers L g = Some (Inr ws)"
  shows "ncols jb \<le> length ws"
proof (cases "ncols jb")
  case (Suc n)
  have "g * ncols jb + n < ntasks jb"
    using assms(2) Suc mult_le_mono1[of "Suc g" "jb_nrg jb" "ncols jb"] by (simp add: ntasks_def)
  moreover have n: "n < ncols jb"
    using Suc by simp
  then have "(g * ncols jb + n) div ncols jb = g" "(g * ncols jb + n) mod ncols jb = n"
    by simp_all
  ultimately have "n < length ws"
    using task_ok[OF assms(1), of "g * ncols jb + n"] assms(3) by auto
  with Suc show ?thesis by simp
qed simp

lemma row_writers_ready:
  assumes "serial_write L jb f0 = Inr x" "q_next q < ntasks jb" "writers_ready jb q"
  defines "g \<equiv> q_next q div ncols jb" and "c \<equiv> q_next q mod ncols jb"
  shows "\<exists>wr v. row_writers L g c (q_wr q) = Inr wr \<and> wr g = Some v \<and> unclaimed (ncols jb) c v"
proof (cases "c = 0")
  case True
  obtain ws where ws: "lb_writers L g = Some (Inr ws)"
    using task_ok[OF assms(1,2)] by (auto simp: g_def)
  have "g < jb_nrg jb"
    using assms(2) by (simp add: g_def ntasks_def less_mult_imp_div_less)
  then have "unclaimed (ncols jb) c (map Some ws)"
    using all_writers[OF assms(1) _ ws] by (simp add: unclaimed_def)
  with True ws show ?thesis
    by (simp add: row_writers_def)
next
  case False
  with assms(3) show ?thesis
    by (auto simp: writers_ready_def g_def c_def row_writers_def)
qed

lemma claim_ready:
  assumes "serial_write L jb f0 = Inr x" "q_next q < ntasks jb" "writers_ready jb q"
    and "claim_task L jb q = (q', y)"
  shows "writers_ready jb q' \<and> (\<exists>w. y = WEnc (q_next q) w)"
proof -
  let ?nc = "ncols jb" and ?i = "q_next q"
  let ?g = "?i div ?nc" and ?c = "?i mod ?nc"
  obtain wr v where row: "row_writers L ?g ?c (q_wr q) = Inr wr" and v: "wr ?g = Some v" and un: "unclaimed ?nc ?c v"
    using row_writers_ready[OF assms(1-3)] by blast
  have c: "?c < ?nc"
    using assms(2) by (cases ?nc) (simp_all add: ntasks_def)
  then obtain w where w: "v ! ?c = Some w" "?c < length v"
    using un by (auto simp: unclaimed_def)
  let ?wr = "if ?c + 1 = ?nc then wr(?g := None) else wr(?g \<mapsto> v[?c := None])"
  have res: "q' = q\<lparr>q_next := ?i + 1, q_wr := ?wr\<rparr>" "y = WEnc ?i w"
    using assms(4) row v w by (auto simp: claim_task_def take_writer_def Let_def split: if_splits)
  have "writers_ready jb q'"
  proof (cases "?c + 1 = ?nc")
    case True
    then show ?thesis by (simp add: res(1) writers_ready_def mod_Suc)
  next
    case False
    then have "Suc ?i mod ?nc = Suc ?c" "Suc ?i div ?nc = ?g"
      by (simp_all add: mod_Suc div_Suc)
    moreover have "unclaimed ?nc (Suc ?c) (v[?c := None])"
      using un by (simp add: unclaimed_def)
    ultimately show ?thesis
      using False by (simp add: res(1) writers_ready_def)
  qed
  with res show ?thesis by blast
qed

definition smooth :: "write_job \<Rightarrow> ('w, 'ch, 'f) wq \<Rightarrow> bool" where
  "smooth jb s \<longleftrightarrow> q_err (wq_q s) = None \<and> \<not> erring (wq_wk s) \<and> WNotify \<notin> set (wq_wk s) \<and>
     (\<forall>e. wq_ms s \<noteq> MErr e \<and> wq_ms s \<noteq> MNotify e \<and> wq_ms s \<noteq> MRet (Inl e)) \<and> writers_ready jb (wq_q s) \<and>
     (\<forall>i w. WEnc i w \<in> set (wq_wk s) \<longrightarrow> i < ntasks jb)"

lemma smooth_io:
  assumes ok: "serial_write L jb f0 = Inr x" and io: "master_io L jb m f = Some (m', f')" and at: "file_at L jb f0 m f"
  shows "(\<forall>e. m' \<noteq> MErr e) \<and> (\<forall>e. m' \<noteq> MNotify e) \<and> (\<forall>r. m' \<noteq> MRet r)"
proof (cases m)
  case (MNext g)
  then show ?thesis
    using io at next_ok[OF ok, of g f]
    by (auto simp: master_io_def io_to_def file_at_def split: if_splits)
next
  case (MAppend g c ch)
  then show ?thesis
    using io at col_ok[OF ok, of g c]
    by (auto simp: master_io_def io_to_def file_at_def split: if_splits)
next
  case (MClose g)
  then show ?thesis
    using io at group_ok[OF ok, of g]
    by (auto simp: master_io_def io_to_def file_at_def split: if_splits)
qed (use io in \<open>auto simp: master_io_def split: if_splits\<close>)

lemma smooth_upd:
  assumes "smooth jb s" "\<And>e. x \<noteq> WErr e" "x \<noteq> WNotify" "\<And>i w. x = WEnc i w \<Longrightarrow> i < ntasks jb"
  shows "smooth jb (s\<lparr>wq_wk := (wq_wk s)[k := x]\<rparr>)"
  using assms by (auto simp: smooth_def erring_def dest!: in_upd)

lemma smooth_wake: "smooth jb s \<Longrightarrow> smooth jb (s\<lparr>wq_ms := wake_ms (wq_ms s)\<rparr>)"
  by (cases "wq_ms s") (simp_all add: smooth_def)

lemma smooth_looked:
  assumes ok: "serial_write L jb f0 = Inr x" and "smooth jb s" "look L jb (wq_q s) = (q', y)"
  shows "smooth jb (s\<lparr>wq_q := q', wq_wk := (wq_wk s)[k := y]\<rparr>)"
proof -
  let ?q = "wq_q s"
  have err: "q_err ?q = None" and ready: "writers_ready jb ?q"
    using assms(2) by (simp_all add: smooth_def)
  show ?thesis
  proof (cases "q_next ?q < ntasks jb \<and> q_next ?q < q_head ?q + jb_window jb")
    case False
    then have "q' = ?q" "y = WGone \<or> y = WSleep"
      using assms(3) err by (auto simp: look_def split: if_splits)
    then show ?thesis
      using smooth_upd[OF assms(2), of y k] by auto
  next
    case True
    then have "claim_task L jb ?q = (q', y)"
      using assms(3) err by (auto simp: look_def split: if_splits)
    then obtain w where new: "writers_ready jb q'" "y = WEnc (q_next ?q) w"
      using claim_ready[OF ok _ ready] True by blast
    moreover have "q_err q' = None"
      using assms(3) err by (cases rule: look_E) auto
    moreover have "smooth jb (s\<lparr>wq_wk := (wq_wk s)[k := y]\<rparr>)"
      using smooth_upd[OF assms(2), of y k] new(2) True by auto
    ultimately show ?thesis
      by (simp add: smooth_def)
  qed
qed

lemma smooth_step:
  assumes ok: "serial_write L jb f0 = Inr x"
  shows "wq_step L jb s s' \<Longrightarrow> chunk_inv L jb s \<Longrightarrow> file_inv L jb f0 s \<Longrightarrow> smooth jb s \<Longrightarrow> smooth jb s'"
proof (induction rule: wq_step.induct)
  case (looked k s q' y)
  show ?case by (rule smooth_looked[OF ok looked(6,3)])
next
  case (encoded k s i w ch)
  then show ?case
    using smooth_wake[OF smooth_upd[OF encoded(6), of WLook k]] by (simp add: smooth_def writers_ready_def)
next
  case (refused k s i w r e)
  have mem: "WEnc i w \<in> set (wq_wk s)"
    using refused(1,2) by (metis nth_mem)
  then have "task_writer L jb i w" "i < ntasks jb"
    using refused(5,7) by (auto simp: chunk_inv_def smooth_def)
  then have "\<exists>ch. encode L jb i w = Some (Inr ch)"
    using task_ok[OF ok, of i] by (auto simp: task_writer_def)
  with refused(3,4) show ?case by auto
next
  case (recorded k s e)
  then have "erring (wq_wk s)"
    unfolding erring_def by (metis nth_mem)
  with recorded show ?case by (simp add: smooth_def)
next
  case (notified k s)
  then have "WNotify \<in> set (wq_wk s)"
    by (metis nth_mem)
  with notified show ?case by (simp add: smooth_def)
next
  case (wrote s m' f')
  then show ?case
    using smooth_io[OF ok wrote(1)] by (simp add: smooth_def file_inv_def)
next
  case (consumed s g c ch ws')
  then show ?case
    using notify_one_mem[OF consumed(4)] by (auto simp: smooth_def erring_def writers_ready_def)
qed (auto simp: smooth_def simp del: set_map)

lemma smooth_reach:
  assumes ok: "serial_write L jb f0 = Inr x"
  shows "wq_reach L jb n f0 s \<Longrightarrow> smooth jb s"
proof (induction rule: wq_reach.induct)
  case start
  then show ?case by (simp add: smooth_def wq_start_def erring_def writers_ready_def)
next
  case (step s s')
  show ?case
    by (rule smooth_step[OF ok step(2) chunk_inv_reach[OF step(1)] file_inv_reach[OF step(1)] step(3)])
next
  case (spurious s k)
  show ?case by (rule smooth_upd[OF spurious(4)]) simp_all
qed (rule smooth_wake)

lemma queue_result:
  assumes "wq_reach L jb n f0 s" "wq_ms s = MRet r"
  shows "case r of Inr u \<Rightarrow> serial_write L jb f0 = Inr (wq_file s) | Inl e \<Rightarrow> \<forall>f. serial_write L jb f0 \<noteq> Inr f"
proof (cases r)
  case (Inl e)
  then show ?thesis
    using smooth_reach[OF _ assms(1)] assms(2) by (auto simp: smooth_def)
next
  case (Inr u)
  then show ?thesis
    using file_inv_reach[OF assms(1)] assms(2) by (simp add: file_inv_def file_at_def)
qed

lemma wq_runs:
  assumes "0 < n" "0 < jb_window jb"
  shows "\<exists>s. wq_reach L jb n f0 s \<and> wq_done s"
proof -
  have "wq_start n f0 \<in> {s. wq_reach L jb n f0 s}"
    by (simp add: wq_reach.start)
  then obtain s where s: "wq_reach L jb n f0 s" "\<And>s'. wq_step L jb s s' \<Longrightarrow> \<not> wq_reach L jb n f0 s'"
    using wf_subset[OF wq_wf[of L jb], THEN wfE_min, of "{(s', s). wq_step L jb s s'}" "wq_start n f0" "{s. wq_reach L jb n f0 s}"]
    by auto
  have "\<nexists>s'. wq_step L jb s s'"
  proof
    assume "\<exists>s'. wq_step L jb s s'"
    then obtain s' where "wq_step L jb s s'" by (rule exE)
    then show False
      using s(2) wq_reach.step[OF s(1)] by simp
  qed
  then show ?thesis
    using stuck_done[OF s(1) _ assms] s(1) by blast
qed

section \<open>Properties\<close>

text \<open>C5
  The parallel writer writes the serial writer's file. Whatever the number of workers, the
  window and the interleaving, spurious wakeups included, a master that returns has appended
  exactly the chunks a one-by-one writer appends, in its order; and it returns an error only
  where the one-by-one writer fails as well.
\<close>

theorem queue_writes_serially:
  assumes "wq_reach L jb n f0 s" "wq_ms s = MRet r"
  shows "case r of Inr u \<Rightarrow> serial_write L jb f0 = Inr (wq_file s) | Inl e \<Rightarrow> \<forall>f. serial_write L jb f0 \<noteq> Inr f"
  using assms by (rule queue_result)

text \<open>A byte column of three rows in row groups of two.\<close>

definition ex_lib :: "(arr list, arr, arr list, arr list list list) pq_lib" where
  "ex_lib = \<lparr>lb_writers = (\<lambda>g. Some (Inr [[]])), lb_leaves = (\<lambda>c a. Inr [fst a]), lb_write = (\<lambda>w lf. Inr (w @ [lf])),
     lb_close = Inr, lb_panics = (\<lambda>i. False), lb_next_rg = (\<lambda>f. Inr (f @ [[]])),
     lb_append = (\<lambda>f ch. Inr (butlast f @ [last f @ [ch]])), lb_close_rg = Inr\<rparr>"

definition ex_job :: write_job where
  "ex_job = \<lparr>jb_cols = [KVec8 KG [5, 6, 7]], jb_nrows = 3, jb_rg = 2, jb_nrg = 2, jb_window = 1\<rparr>"

lemma ex_serial:
  "serial_write ex_lib ex_job [] = Inr [[[Arr8 UInt8 [5, 6] None]], [[Arr8 UInt8 [7] None]]]"
  by (simp add: serial_write_def serial_upto_def serial_group_def serial_cols_def serial_task_def encode_def ex_lib_def
    ex_job_def ncols_def col_to_arrow_def ktype_def slice_def upt_rec numeral_2_eq_2)

theorem queue_writes_serially_witness:
  "\<exists>s. wq_reach ex_lib ex_job 3 [] s \<and> wq_ms s = MRet (Inr ()) \<and>
     wq_file s = [[[Arr8 UInt8 [5, 6] None]], [[Arr8 UInt8 [7] None]]]"
proof -
  obtain s r where s: "wq_reach ex_lib ex_job 3 [] s" "wq_ms s = MRet r"
    using wq_runs[of 3 ex_job ex_lib "[]"] by (auto simp: ex_job_def wq_done_def)
  then show ?thesis
    using queue_writes_serially[OF s] ex_serial by (cases r) auto
qed



text \<open>C17
  The queue always ends: no run of it goes on for ever, and no wakeup is lost. A state from
  which nothing can move has the master returned and every worker gone, so that nobody is left
  asleep on a condition variable, after a failure or a panic as well.
\<close>

theorem queue_ends:
  assumes "0 < n" "0 < jb_window jb"
  shows "wf {(s', s). wq_step L jb s s'} \<and>
    (\<forall>s. wq_reach L jb n f0 s \<and> (\<nexists>s'. wq_step L jb s s') \<longrightarrow> wq_done s)"
  by (intro conjI allI impI wq_wf, elim conjE, rule stuck_done[OF _ _ assms])

theorem queue_ends_witness: "wf {(s', s). wq_step ex_lib ex_job s s'}"
  using queue_ends[of 3 ex_job ex_lib "[]"] by (simp add: ex_job_def)

end
