(* ===== verification/Base64.thy ===== *)
theory Base64
  imports NullScan
begin

text \<open>
  The footer's \<^verbatim>\<open>ARROW:schema\<close> entry (\<^verbatim>\<open>b64\<close> and
  \<^verbatim>\<open>arrow_schema_meta\<close> in \<^verbatim>\<open>src/src/write.rs\<close>): the base64
  encoder, a reference decoder it inverts, and the framing of the schema message. The message
  itself is the Arrow crate's and is a parameter.
\<close>

section \<open>The encoder\<close>

definition b64_alphabet :: string where
  "b64_alphabet = ''ABCDEFGHIJKLMNOPQRSTUVWXYZabcdefghijklmnopqrstuvwxyz0123456789+/''"

definition byte_or_0 :: "u8 list \<Rightarrow> nat \<Rightarrow> u8" where
  "byte_or_0 ch i = (if i < length ch then ch ! i else 0)"

definition b64_word :: "u8 list \<Rightarrow> u32" where
  "b64_word ch = of_nat (of_le (rev [0, byte_or_0 ch 0, byte_or_0 ch 1, byte_or_0 ch 2]))"

definition b64_group :: "u8 list \<Rightarrow> string" where
  "b64_group ch = (let w = b64_word ch in
     map (\<lambda>k. if k \<le> length ch then b64_alphabet ! unat (drop_bit (18 - 6 * k) w AND 63) else CHR ''='') [0..<4])"

definition b64 :: "u8 list \<Rightarrow> string" where
  "b64 data = concat (map b64_group (chunks 3 data))"

definition schema_frame :: "u8 list \<Rightarrow> u8 list" where
  "schema_frame msg = [255, 255, 255, 255] @ to_le 4 (length msg) @ msg"

definition arrow_schema_meta :: "('s \<Rightarrow> u8 list) \<Rightarrow> 's \<Rightarrow> string \<times> string" where
  "arrow_schema_meta ipc schema = (''ARROW:schema'', b64 (schema_frame (ipc schema)))"

section \<open>A reference decoder\<close>

text \<open>Four characters to three bytes, less one for each pad.\<close>

definition sextet :: "char \<Rightarrow> nat" where
  "sextet c = (case position (\<lambda>x. x = c) b64_alphabet of Some i \<Rightarrow> i | None \<Rightarrow> 0)"

definition unb64_group :: "string \<Rightarrow> u8 list" where
  "unb64_group cs =
    (let n = foldl (\<lambda>a c. a * 64 + sextet c) 0 cs; pads = length (filter (\<lambda>c. c = CHR ''='') cs) in
     take (3 - pads) (map of_nat [n div 65536, n div 256 mod 256, n mod 256]))"

definition unb64 :: "string \<Rightarrow> u8 list" where
  "unb64 s = concat (map unb64_group (chunks 4 s))"

definition unframe :: "u8 list \<Rightarrow> u8 list" where
  "unframe b = take (of_le (take 4 (drop 4 b))) (drop 8 b)"

section \<open>The round trip\<close>

lemma alphabet_length [simp]: "length b64_alphabet = 64"
  by (simp add: b64_alphabet_def)

lemma alphabet_distinct: "distinct b64_alphabet"
  by (simp add: b64_alphabet_def)

lemma alphabet_pad: "CHR ''='' \<notin> set b64_alphabet"
  by (simp add: b64_alphabet_def)

lemma sextet_nth: "n < 64 \<Longrightarrow> sextet (b64_alphabet ! n) = n"
proof -
  assume n: "n < 64"
  then have "position (\<lambda>x. x = b64_alphabet ! n) b64_alphabet = Some n"
    using alphabet_distinct by (auto simp: position_Some_iff nth_eq_iff_index_eq)
  then show ?thesis by (simp add: sextet_def)
qed

lemma sextet_pad: "sextet CHR ''='' = 0"
proof -
  have "position (\<lambda>x. x = CHR ''='') b64_alphabet = None"
    using alphabet_pad by (auto simp: position_None_iff)
  then show ?thesis by (simp add: sextet_def)
qed

lemma nth_pad: "n < 64 \<Longrightarrow> b64_alphabet ! n \<noteq> CHR ''=''"
  using alphabet_pad by (metis alphabet_length nth_mem)

definition group_nat :: "u8 list \<Rightarrow> nat" where
  "group_nat ch = unat (byte_or_0 ch 0) * 65536 + unat (byte_or_0 ch 1) * 256 + unat (byte_or_0 ch 2)"

lemma byte_bound: "unat (b :: u8) < 256"
  using unsigned_less[of b] by simp

lemma unat_b64_word: "unat (b64_word ch) = group_nat ch" "group_nat ch < 2 ^ 24"
proof -
  show b: "group_nat ch < 2 ^ 24"
    using byte_bound[of "byte_or_0 ch 0"] byte_bound[of "byte_or_0 ch 1"] byte_bound[of "byte_or_0 ch 2"]
    by (simp add: group_nat_def)
  have "of_le (rev [0, byte_or_0 ch 0, byte_or_0 ch 1, byte_or_0 ch 2]) = group_nat ch"
    by (simp add: group_nat_def)
  then show "unat (b64_word ch) = group_nat ch"
    unfolding b64_word_def using b unat_of_nat_small[of "group_nat ch", where 'a = 32] by simp
qed

lemma unat_sextet: "unat (drop_bit k w AND 63 :: u32) = unat w div 2 ^ k mod 64"
proof -
  have "drop_bit k w AND 63 = take_bit 6 (drop_bit k w)"
    by (simp add: take_bit_eq_mask mask_eq_exp_minus_1 and.commute)
  moreover have "unat (take_bit 6 (drop_bit k w)) = take_bit 6 (unat (drop_bit k w))"
    by (simp add: unsigned_take_bit_eq)
  moreover have "unat (drop_bit k w) = unat w div 2 ^ k"
    using unsigned_less[of w, where 'a = nat]
    by (simp only: unsigned_drop_bit_eq drop_bit_eq_div[where 'a = nat] take_bit_nat_eq_self)
  ultimately show ?thesis
    by (simp only: take_bit_eq_mod) simp
qed

definition digit :: "nat \<Rightarrow> nat \<Rightarrow> nat" where
  "digit n k = n div 2 ^ (18 - 6 * k) mod 64"

lemma digit_bound: "digit n k < 64"
  by (simp add: digit_def)

lemma digits_value: "n < 2 ^ 24 \<Longrightarrow> ((digit n 0 * 64 + digit n 1) * 64 + digit n 2) * 64 + digit n 3 = n"
proof -
  assume n: "n < 2 ^ 24"
  have a: "n div 64 * 64 + n mod 64 = n" and b: "n div 4096 * 64 + n div 64 mod 64 = n div 64"
    and c: "n div 262144 * 64 + n div 4096 mod 64 = n div 4096"
    using div_mult_mod_eq[of n 64] div_mult_mod_eq[of "n div 64" 64] div_mult_mod_eq[of "n div 4096" 64]
      div_mult2_eq[of n 64 64] div_mult2_eq[of n 4096 64] by simp_all
  have "n div 262144 mod 64 = n div 262144"
    using n by (simp add: less_mult_imp_div_less)
  then show ?thesis
    using a b c unfolding digit_def by simp
qed

lemma b64_group_digits:
  "b64_group ch = map (\<lambda>k. if k \<le> length ch then b64_alphabet ! digit (group_nat ch) k else CHR ''='') [0, 1, 2, 3]"
proof -
  have "unat (drop_bit (18 - 6 * k) (b64_word ch) AND 63) = digit (group_nat ch) k" for k
    by (simp only: unat_sextet unat_b64_word digit_def)
  moreover have "[0..<4] = [0, 1, 2, 3 :: nat]"
    by (simp add: upt_rec)
  ultimately show ?thesis
    by (simp only: b64_group_def Let_def)
qed

lemma three_bytes:
  assumes "b < 256" "c < (256 :: nat)"
  shows "(a * 65536 + b * 256 + c) div 65536 = a" "(a * 65536 + b * 256 + c) div 256 mod 256 = b"
    "(a * 65536 + b * 256 + c) mod 256 = c"
proof -
  have *: "a * 65536 + b * 256 + c = (a * 256 + b) * 256 + c"
    by simp
  then have d: "(a * 65536 + b * 256 + c) div 256 = a * 256 + b"
    using assms(2) by simp
  then show "(a * 65536 + b * 256 + c) div 256 mod 256 = b"
    using assms(1) by simp
  have "(a * 65536 + b * 256 + c) div 65536 = (a * 65536 + b * 256 + c) div 256 div 256"
    by (simp add: div_mult2_eq[symmetric])
  then show "(a * 65536 + b * 256 + c) div 65536 = a"
    using d assms(1) by simp
  show "(a * 65536 + b * 256 + c) mod 256 = c"
    unfolding * using assms(2) by (simp only: mod_mult_self3 mod_less)
qed

lemma unb64_b64_group:
  assumes "ch \<noteq> []" "length ch \<le> 3"
  shows "length (b64_group ch) = 4 \<and> unb64_group (b64_group ch) = ch"
proof -
  let ?n = "group_nat ch"
  note digits = sextet_nth[OF digit_bound] sextet_pad nth_pad[OF digit_bound] digits_value[OF unat_b64_word(2)]
  consider x where "ch = [x]" | x y where "ch = [x, y]" | x y z where "ch = [x, y, z]"
    using assms by (cases ch; cases "tl ch"; cases "tl (tl ch)") auto
  then have "unb64_group (b64_group ch) = ch"
  proof cases
    case 1
    then have n: "?n = unat x * 65536"
      by (simp add: group_nat_def byte_or_0_def)
    have "digit ?n 2 = 0" "digit ?n 3 = 0"
      unfolding n digit_def by (simp; presburger)+
    then show ?thesis
      using digits(4)[of ch] n 1 by (simp add: b64_group_digits unb64_group_def digits(1-3))
  next
    case 2
    then have n: "?n = unat x * 65536 + unat y * 256"
      by (simp add: group_nat_def byte_or_0_def)
    have "digit ?n 3 = 0"
      unfolding n digit_def by (simp; presburger)
    then show ?thesis
      using digits(4)[of ch] n 2 byte_bound[of y] by (simp add: b64_group_digits unb64_group_def digits(1-3))
  next
    case 3
    then have "?n = unat x * 65536 + unat y * 256 + unat z"
      by (simp add: group_nat_def byte_or_0_def)
    then show ?thesis
      using digits(4)[of ch] 3 three_bytes[OF byte_bound[of y] byte_bound[of z], of "unat x"]
      by (simp add: b64_group_digits unb64_group_def digits(1-3) Let_def)
  qed
  then show ?thesis
    by (simp add: b64_group_digits)
qed

lemma chunks_append: "length a = k \<Longrightarrow> 0 < k \<Longrightarrow> chunks k (a @ b) = a # chunks k b"
  by (subst chunks.simps) auto

lemma unb64_b64: "unb64 (b64 data) = data"
proof (induction "3 :: nat" data rule: chunks.induct)
  case (1 xs)
  show ?case
  proof (cases "xs = []")
    case False
    let ?h = "take 3 xs"
    have h: "?h \<noteq> []" "length ?h \<le> 3"
      using False by auto
    have "b64 xs = b64_group ?h @ b64 (drop 3 xs)"
      using False by (simp add: b64_def chunks.simps[of 3 xs])
    then have "unb64 (b64 xs) = ?h @ unb64 (b64 (drop 3 xs))"
      using unb64_b64_group[OF h] by (simp add: unb64_def chunks_append)
    then show ?thesis
      using 1 False by simp
  qed (simp add: b64_def unb64_def)
qed

section \<open>Properties\<close>

text \<open>C31
  The schema entry of the footer is not lost: decoding it and taking the frame off gives the
  schema message back, whatever its bytes, as long as its length fits the 32-bit prefix.
\<close>

theorem schema_meta_roundtrip:
  assumes "length (ipc schema) < 2 ^ 32"
  shows "unframe (unb64 (snd (arrow_schema_meta ipc schema))) = ipc schema"
  using assms by (simp add: arrow_schema_meta_def unb64_b64 unframe_def schema_frame_def of_le_to_le)

theorem schema_meta_roundtrip_witness:
  "unframe (unb64 (snd (arrow_schema_meta (\<lambda>s. [s, 250]) (7 :: u8)))) = [7, 250]"
  using schema_meta_roundtrip[of "\<lambda>s. [s, 250]" "7 :: u8"] by simp

end
