(* ===== verification/Publish.thy ===== *)
theory Publish
  imports Prelude
begin

text \<open>
  Building beside the target and renaming over it: the scratch path of \<^verbatim>\<open>Scratch\<close> in
  \<^verbatim>\<open>src/src/lib.rs\<close> and the replacement \<^verbatim>\<open>pq_write\<close> and
  \<^verbatim>\<open>pq_stream\<close> end with. The operating system's answers are parameters; a call yields
  the file systems another process can see meanwhile, in order.
\<close>

section \<open>Scratch paths\<close>

record scratch =
  sc_path :: "string option"
  sc_dir :: bool

definition scratch_name :: "string \<Rightarrow> nat \<Rightarrow> nat \<Rightarrow> string" where
  "scratch_name path pid n = trim_end CHR ''/'' path @ ''.'' @ show_nat pid @ ''.'' @ show_nat n @ ''.tmp''"

text \<open>The counter is the process's.\<close>

definition scratch_new :: "string \<Rightarrow> bool \<Rightarrow> nat \<Rightarrow> nat \<Rightarrow> (string \<times> scratch) \<times> nat" where
  "scratch_new path dir pid n =
    (let p = scratch_name path pid n in ((p, \<lparr>sc_path = Some p, sc_dir = dir\<rparr>), n + 1))"

definition scratch_keep :: "scratch \<Rightarrow> scratch" where
  "scratch_keep s = s\<lparr>sc_path := None\<rparr>"

section \<open>The file system\<close>

type_synonym 'c fsys = "string \<Rightarrow> 'c option"

text \<open>
  \<open>os_remove\<close> is what removing the target leaves of it: nothing, or what it held when that
  failed, or part of a directory. Creating and renaming answer an error or None. \<open>os_cleanup\<close> tells whether removing the scratch worked.
\<close>

record 'c os =
  os_create :: "string option"
  os_remove :: "'c \<Rightarrow> 'c option"
  os_rename :: "string option"
  os_cleanup :: bool

definition scratch_drop :: "'c os \<Rightarrow> scratch \<Rightarrow> 'c fsys \<Rightarrow> 'c fsys" where
  "scratch_drop os s fs = (case sc_path s of None \<Rightarrow> fs | Some p \<Rightarrow> if os_cleanup os then fs(p := None) else fs)"

definition remove_target :: "'c os \<Rightarrow> string \<Rightarrow> 'c fsys \<Rightarrow> 'c fsys" where
  "remove_target os path fs = fs(path := Option.bind (fs path) (os_remove os))"

text \<open>
  \<open>parts\<close> are the contents the scratch goes through while it is built and \<open>body\<close> what the
  building answers, its final content or an error. Every early return drops the scratch.
\<close>

definition publish :: "'c os \<Rightarrow> string \<Rightarrow> string \<Rightarrow> string \<times> scratch \<Rightarrow> 'c list \<Rightarrow> 'c result \<Rightarrow> 'c fsys \<Rightarrow>
    'c fsys list \<times> unit result" where
  "publish os who path sc parts body fs =
    (let (tmp, guard) = sc;
         fail = (\<lambda>d e. (d @ [scratch_drop os guard (last d)], Inl e)) in
     case os_create os of
       Some e \<Rightarrow> fail [fs] (who @ '': '' @ path @ '': '' @ e)
     | None \<Rightarrow>
        let d = fs # map (\<lambda>p. fs(tmp \<mapsto> p)) parts in
        case body of
          Inl e \<Rightarrow> fail d e
        | Inr c \<Rightarrow>
            let built = fs(tmp \<mapsto> c); gone = remove_target os path built in
            case os_rename os of
              Some e \<Rightarrow> fail (d @ [built, gone]) (who @ '': '' @ path @ '': '' @ e)
            | None \<Rightarrow>
                let moved = gone(path \<mapsto> c, tmp := None)
                in (d @ [built, gone, moved, scratch_drop os (scratch_keep guard) moved], Inr ()))"

section \<open>Scratch names\<close>

lemma show_nat_digits: "c \<in> set (show_nat n) \<Longrightarrow> \<exists>d < 10. c = char_of (48 + d :: nat)"
proof (induction n rule: show_nat.induct)
  case (1 n)
  then show ?case
    by (cases "n < 10") (auto simp: show_nat.simps[of n] intro: exI[of _ "n mod 10"])
qed

lemma show_nat_no_dot: "CHR ''.'' \<notin> set (show_nat n)"
proof
  assume "CHR ''.'' \<in> set (show_nat n)"
  then obtain d where d: "d < (10 :: nat)" "CHR ''.'' = char_of (48 + d)"
    using show_nat_digits by blast
  then have "of_char (CHR ''.'') = (48 + d) mod 256"
    by simp
  then show False
    using d(1) by simp
qed

lemma char_digit_inj: "d < 10 \<Longrightarrow> e < 10 \<Longrightarrow> char_of (48 + d :: nat) = char_of (48 + e) \<Longrightarrow> d = e"
proof -
  assume "d < 10" "e < 10" "char_of (48 + d :: nat) = char_of (48 + e)"
  moreover have "k < 10 \<Longrightarrow> of_char (char_of (48 + k :: nat)) = 48 + k" for k
    by (simp add: take_bit_nat_eq_self)
  ultimately show "d = e"
    by (metis add_left_cancel)
qed

lemma show_nat_inj: "show_nat m = show_nat n \<Longrightarrow> m = n"
proof (induction m arbitrary: n rule: show_nat.induct)
  case (1 m)
  have len: "k < 10 \<longleftrightarrow> length (show_nat k) = 1" for k
  proof (cases "k < 10")
    case False
    then show ?thesis
      using show_nat_nonempty[of "k div 10"] by (subst show_nat.simps) simp
  qed (subst show_nat.simps, simp)
  show ?case
  proof (cases "m < 10")
    case True
    then have "n < 10"
      using "1.prems" len by metis
    with True "1.prems" show ?thesis
      by (simp add: show_nat.simps[of m] show_nat.simps[of n] char_digit_inj)
  next
    case False
    then have "\<not> n < 10"
      using "1.prems" len by metis
    with False "1.prems" have "show_nat (m div 10) = show_nat (n div 10)" "m mod 10 = n mod 10"
      by (simp_all add: show_nat.simps[of m] show_nat.simps[of n] char_digit_inj)
    with "1.IH"[OF False] show ?thesis
      by (metis div_mult_mod_eq)
  qed
qed

lemma dot_split: "CHR ''.'' \<notin> set a \<Longrightarrow> CHR ''.'' \<notin> set b \<Longrightarrow> a @ CHR ''.'' # x = b @ CHR ''.'' # y \<Longrightarrow> a = b \<and> x = y"
proof (induction a arbitrary: b)
  case Nil
  then show ?case by (cases b) auto
next
  case (Cons c a)
  then show ?case by (cases b) auto
qed

lemma scratch_names:
  "(scratch_name path p n = scratch_name path q m) = (p = q \<and> n = m) \<and> scratch_name path p n \<noteq> path \<and>
   (\<nexists>stem. scratch_name path p n = stem @ ''.parquet'')"
proof (intro conjI)
  show "(scratch_name path p n = scratch_name path q m) = (p = q \<and> n = m)"
    using dot_split[OF show_nat_no_dot[of p] show_nat_no_dot[of q], of "show_nat n @ ''.tmp''" "show_nat m @ ''.tmp''"]
    by (auto simp: scratch_name_def dest: show_nat_inj)
  have last: "last (scratch_name path p n) = CHR ''p''"
    by (simp add: scratch_name_def)
  then show "\<nexists>stem. scratch_name path p n = stem @ ''.parquet''"
    by auto
  show "scratch_name path p n \<noteq> path"
  proof
    assume eq: "scratch_name path p n = path"
    then have "last path = CHR ''p''" "path \<noteq> []"
      using last by (auto simp: scratch_name_def)
    then have "trim_end CHR ''/'' path = path"
      by (cases path rule: rev_cases) (auto simp: trim_end_def)
    with eq show False
      by (simp add: scratch_name_def)
  qed
qed

section \<open>What is seen of a replacement\<close>

lemma publish_facts:
  assumes "publish os who path (fst (scratch_new path dir pid n)) parts body fs = (d, r)"
  defines "tmp \<equiv> scratch_name path pid n"
  shows "(\<forall>fs' \<in> set d. (fs' path = fs path \<or> (\<exists>c. body = Inr c \<and>
        (fs' path = Option.bind (fs path) (os_remove os) \<or> fs' path = Some c))) \<and>
      (\<forall>p. p \<noteq> path \<and> p \<noteq> tmp \<longrightarrow> fs' p = fs p)) \<and>
    (case r of
       Inr u \<Rightarrow> \<exists>c. body = Inr c \<and> last d path = Some c \<and> last d tmp = None
     | Inl e \<Rightarrow> (os_cleanup os \<longrightarrow> last d tmp = None) \<and>
         (os_create os \<noteq> None \<or> (\<exists>e. body = Inl e) \<longrightarrow> last d path = fs path))"
proof -
  have apart: "tmp \<noteq> path" "path \<noteq> tmp"
    using scratch_names[of path pid n pid n] by (auto simp: tmp_def)
  note defs = publish_def scratch_new_def scratch_drop_def scratch_keep_def remove_target_def Let_def
  have run: "publish os who path (tmp, \<lparr>sc_path = Some tmp, sc_dir = dir\<rparr>) parts body fs = (d, r)"
    using assms(1) by (simp add: scratch_new_def tmp_def Let_def)
  show ?thesis
  proof (cases "os_create os")
    case (Some e)
    then show ?thesis
      using run apart by (auto simp: defs)
  next
    case create: None
    let ?fs = "last (fs # map (\<lambda>p. fs(tmp \<mapsto> p)) parts)"
    have last: "?fs p = fs p" if "p \<noteq> tmp" for p
      using that by (cases parts rule: rev_cases) auto
    show ?thesis
    proof (cases body)
      case (Inl e)
      then show ?thesis
        using run create apart last by (auto simp: defs split: if_splits)
    next
      case (Inr c)
      then show ?thesis
        using run create apart by (cases "os_rename os") (auto simp: defs split: if_splits)
    qed
  qed
qed

lemma publish_fails:
  assumes "publish os who path sc parts body fs = (d, Inl e)"
  shows "os_create os \<noteq> None \<or> (\<exists>e. body = Inl e) \<or> os_rename os \<noteq> None"
  using assms by (cases sc) (auto simp: publish_def Let_def split: option.splits sum.splits)

section \<open>Properties\<close>

text \<open>
  Two scratch paths beside one target are different whenever the processes or the counters
  are, none of them is the target, and none has the extension a directory glob for Parquet
  files looks for.
\<close>

theorem scratch_names_apart:
  "(scratch_name path p n = scratch_name path q m) = (p = q \<and> n = m) \<and> scratch_name path p n \<noteq> path \<and>
   (\<nexists>stem. scratch_name path p n = stem @ ''.parquet'')"
  by (rule scratch_names)

text \<open>C24
  Nobody ever sees a half-written target. While a file or a directory is being replaced, what
  its path holds is the old content, what removing the old content leaves of it once the new
  one is complete, or the complete new content; other paths are not touched. A success leaves
  the new content and no scratch. A failure of the building leaves the old content, and no
  scratch where removing it works.
\<close>

theorem publish_all_or_nothing:
  assumes "publish os who path (fst (scratch_new path dir pid n)) parts body fs = (d, r)"
  defines "tmp \<equiv> scratch_name path pid n"
  shows "(\<forall>fs' \<in> set d. (fs' path = fs path \<or> (\<exists>c. body = Inr c \<and>
        (fs' path = Option.bind (fs path) (os_remove os) \<or> fs' path = Some c))) \<and>
      (\<forall>p. p \<noteq> path \<and> p \<noteq> tmp \<longrightarrow> fs' p = fs p)) \<and>
    (case r of
       Inr u \<Rightarrow> \<exists>c. body = Inr c \<and> last d path = Some c \<and> last d tmp = None
     | Inl e \<Rightarrow> (os_cleanup os \<longrightarrow> last d tmp = None) \<and>
         (os_create os \<noteq> None \<or> (\<exists>e. body = Inl e) \<longrightarrow> last d path = fs path))"
  using publish_facts[OF assms(1)] unfolding tmp_def .

definition ex_os :: "nat os" where
  "ex_os = \<lparr>os_create = None, os_remove = (\<lambda>c. None), os_rename = None, os_cleanup = True\<rparr>"

theorem publish_all_or_nothing_witness:
  "\<exists>d. publish ex_os ''pq_write'' ''t'' (fst (scratch_new ''t'' False 7 0)) [1, 2] (Inr 3) [''t'' \<mapsto> 9] = (d, Inr ()) \<and>
     last d ''t'' = Some 3"
proof -
  obtain d r where run: "publish ex_os ''pq_write'' ''t'' (fst (scratch_new ''t'' False 7 0)) [1, 2] (Inr 3) [''t'' \<mapsto> 9] = (d, r)"
    by fastforce
  then have "r = Inr ()"
    by (simp add: publish_def ex_os_def scratch_new_def Let_def)
  with publish_all_or_nothing[OF run] run show ?thesis
    by auto
qed

text \<open>
  The rename is the one step that is not covered: when it fails after the old content was
  removed, the path holds neither the old nor the new content, and the scratch that held the
  finished data is removed as well.
\<close>

theorem failed_rename_loses_both:
  "let os = \<lparr>os_create = None, os_remove = (\<lambda>c. None), os_rename = Some ''EBUSY'', os_cleanup = True\<rparr>;
       (d, r) = publish os ''pq_stream'' ''t'' (fst (scratch_new ''t'' True 7 0)) [] (Inr 3) [''t'' \<mapsto> 9] in
     last d = Map.empty \<and> r = Inl ''pq_stream: t: EBUSY''"
proof -
  have "scratch_name ''t'' 7 0 \<noteq> ''t''"
    using scratch_names by blast
  then show ?thesis
    by (auto simp: publish_def scratch_new_def scratch_drop_def remove_target_def Let_def)
qed

end
