(* ===== verification/Table.thy ===== *)
theory Table
  imports Opts Queue Base64 Publish
begin

text \<open>
  \<^verbatim>\<open>write_table\<close> of \<^verbatim>\<open>src/src/write.rs\<close>: the checks on the table and
  the schema it is written under, the row groups and the size of the in-flight window, the run
  of the work queue, and the replacement of the file. The Parquet crate is the parameter
  \<open>crate\<close>, the operating system the parameter \<open>os\<close>.
\<close>

section \<open>The schema\<close>

record file_spec =
  sp_wf :: "(string \<times> data_type) list"
  sp_mf :: "(string \<times> data_type) list"
  sp_opts :: opts
  sp_encs :: "string \<Rightarrow> (bool \<times> encoding option) option"
  sp_width :: nat
  sp_meta :: "(string \<times> string) list"

text \<open>
  What the writer encodes (\<open>sp_wf\<close>), what the file advertises (\<open>sp_mf\<close>), the encoding of each
  column and the width of the widest.
\<close>

definition spec_start :: "opts \<Rightarrow> file_spec" where
  "spec_start ops = \<lparr>sp_wf = [], sp_mf = [], sp_opts = ops, sp_encs = Map.empty, sp_width = 0, sp_meta = []\<rparr>"

definition field_step :: "kval \<Rightarrow> nat \<Rightarrow> file_spec \<Rightarrow> nat \<times> kval \<Rightarrow> file_spec result" where
  "field_step names nrows sp x =
    (let (c, col) = x; nm = key_at names c; t = ktype col in
     if \<not> utf8_ok nm then Inl ''pq_write: column name utf8''
     else if nm \<in> fst ` set (sp_wf sp) then Inl (''pq_write: duplicate column '' @ nm)
     else if kcount col \<noteq> nrows then
       Inl (''pq_write: column '' @ nm @ '' length '' @ show_nat (kcount col) @ '' != '' @ show_nat nrows)
     else rbind (arrow_type t True) (\<lambda>w. rbind (arrow_type t False) (\<lambda>m.
       Inr (sp\<lparr>sp_wf := sp_wf sp @ [(nm, w)], sp_mf := sp_mf sp @ [(nm, m)],
         sp_encs := set_enc (sp_encs sp) nm (pick_enc col t nrows (sp_opts sp)),
         sp_width := max (sp_width sp) (width t)\<rparr>))))"

record ('w, 'lf, 'ch, 'f, 'c) crate =
  cr_zstd :: "i32 \<Rightarrow> bool"
  cr_gzip :: "u32 \<Rightarrow> bool"
  cr_convert :: "(string \<times> data_type) list \<Rightarrow> unit result"
  cr_ipc :: "(string \<times> data_type) list \<Rightarrow> u8 list"
  cr_new :: "file_spec \<Rightarrow> 'f result"
  cr_lib :: "file_spec \<Rightarrow> ('w, 'lf, 'ch, 'f) pq_lib"
  cr_close :: "'f \<Rightarrow> 'c result"

fun table_dict :: "kval \<Rightarrow> kval" where
  "table_dict (KTable d) = d"
| "table_dict x = x"

record table_req =
  tr_spec :: file_spec
  tr_cols :: "kval list"
  tr_nrows :: nat

definition table_checks :: "('w, 'lf, 'ch, 'f, 'c) crate \<Rightarrow> kval \<Rightarrow> kval option \<Rightarrow> table_req result" where
  "table_checks cr tbl opts =
    rbind (parse_opts (cr_zstd cr) (cr_gzip cr) opts) (\<lambda>ops.
    if ktype tbl \<noteq> XT then Inl ''pq_write: not a table''
    else
      let d = table_dict tbl; names = dict_keys d; nc = kcount names;
          cols = map (elt (dict_vals d)) [0..<nc];
          nrows = (if 0 < nc then kcount (cols ! 0) else 0)
      in rbind (foldR (field_step names nrows) (spec_start ops) (enumerate 0 cols)) (\<lambda>sp.
         rbind (ctx ''pq_write'' (cr_convert cr (sp_wf sp))) (\<lambda>_.
         Inr \<lparr>tr_spec = sp\<lparr>sp_meta := [arrow_schema_meta (cr_ipc cr) (sp_mf sp)]\<rparr>, tr_cols = cols, tr_nrows = nrows\<rparr>)))"

section \<open>Row groups and the window\<close>

definition INFLIGHT_BYTES :: nat where "INFLIGHT_BYTES = 536870912"

definition table_nrg :: "table_req \<Rightarrow> nat" where
  "table_nrg tr = div_ceil (tr_nrows tr) (op_rg (sp_opts (tr_spec tr)))"

definition table_threads :: "nat \<Rightarrow> table_req \<Rightarrow> nat" where
  "table_threads pool tr = max (min pool (table_nrg tr * length (tr_cols tr))) 1"

definition table_window :: "nat \<Rightarrow> table_req \<Rightarrow> nat" where
  "table_window pool tr =
    (let n = table_threads pool tr;
         per = max (min (op_rg (sp_opts (tr_spec tr))) (tr_nrows tr) * sp_width (tr_spec tr)) 1
     in max (min (n + length (tr_cols tr)) (max (INFLIGHT_BYTES div per) n)) 1)"

definition table_job :: "nat \<Rightarrow> table_req \<Rightarrow> write_job" where
  "table_job pool tr = \<lparr>jb_cols = tr_cols tr, jb_nrows = tr_nrows tr, jb_rg = op_rg (sp_opts (tr_spec tr)),
     jb_nrg = table_nrg tr, jb_window = table_window pool tr\<rparr>"

section \<open>Writing the file\<close>

text \<open>What the building of the scratch file answers: every run of the queue is one.\<close>

inductive table_body :: "('w, 'lf, 'ch, 'f, 'c) crate \<Rightarrow> nat \<Rightarrow> table_req \<Rightarrow> 'c result \<Rightarrow> bool"
  for cr :: "('w, 'lf, 'ch, 'f, 'c) crate" and pool :: nat and tr :: table_req where
  new_err: "cr_new cr (tr_spec tr) = Inl e \<Longrightarrow> table_body cr pool tr (Inl (''pq_write: '' @ e))"
| no_tasks: "cr_new cr (tr_spec tr) = Inr f \<Longrightarrow> ntasks (table_job pool tr) = 0 \<Longrightarrow>
    table_body cr pool tr (ctx ''pq_write'' (cr_close cr f))"
| queue: "cr_new cr (tr_spec tr) = Inr f \<Longrightarrow> 0 < ntasks (table_job pool tr) \<Longrightarrow>
    wq_reach (cr_lib cr (tr_spec tr)) (table_job pool tr) (table_threads pool tr) f s \<Longrightarrow> wq_done s \<Longrightarrow>
    wq_ms s = MRet r \<Longrightarrow>
    table_body cr pool tr (rbind r (\<lambda>_. ctx ''pq_write'' (cr_close cr (wq_file s))))"

inductive write_table ::
    "('w, 'lf, 'ch, 'f, 'c) crate \<Rightarrow> 'c os \<Rightarrow> nat \<Rightarrow> nat \<Rightarrow> nat \<Rightarrow> kval \<Rightarrow> string \<Rightarrow> kval option \<Rightarrow> 'c fsys \<Rightarrow>
      'c fsys list \<times> unit result \<Rightarrow> bool"
  for cr :: "('w, 'lf, 'ch, 'f, 'c) crate" and os :: "'c os" and pool :: nat and pid :: nat and n :: nat
    and tbl :: kval and path :: string and opts :: "kval option" and fs :: "'c fsys" where
  refused: "table_checks cr tbl opts = Inl e \<Longrightarrow> write_table cr os pool pid n tbl path opts fs ([fs], Inl e)"
| built: "table_checks cr tbl opts = Inr tr \<Longrightarrow> table_body cr pool tr b \<Longrightarrow>
    write_table cr os pool pid n tbl path opts fs
      (publish os ''pq_write'' path (fst (scratch_new path False pid n)) parts b fs)"

section \<open>The checks\<close>

lemma arrow_type_both: "arrow_type t True = Inr w \<Longrightarrow> \<exists>m. arrow_type t False = Inr m"
  by (auto simp: arrow_type_def split: if_splits)

definition spec_ok :: "kval \<Rightarrow> nat \<Rightarrow> opts \<Rightarrow> kval list \<Rightarrow> file_spec \<Rightarrow> bool" where
  "spec_ok names nrows ops cols sp \<longleftrightarrow>
     map fst (sp_wf sp) = map (key_at names) [0..<length cols] \<and>
     map fst (sp_mf sp) = map fst (sp_wf sp) \<and> distinct (map fst (sp_wf sp)) \<and> sp_opts sp = ops \<and>
     length (sp_wf sp) = length cols \<and> length (sp_mf sp) = length cols \<and>
     (\<forall>c < length cols. utf8_ok (key_at names c) \<and> kcount (cols ! c) = nrows \<and>
        arrow_type (ktype (cols ! c)) True = Inr (snd (sp_wf sp ! c)) \<and>
        arrow_type (ktype (cols ! c)) False = Inr (snd (sp_mf sp ! c)) \<and>
        sp_encs sp (key_at names c) = set_enc Map.empty (key_at names c) (pick_enc (cols ! c) (ktype (cols ! c)) nrows ops) (key_at names c) \<and>
        width (ktype (cols ! c)) \<le> sp_width sp)"

lemma spec_ok_meta: "spec_ok names n ops cols (sp\<lparr>sp_meta := m\<rparr>) = spec_ok names n ops cols sp"
  by (simp add: spec_ok_def)

lemma set_enc_other: "nm' \<noteq> nm \<Longrightarrow> set_enc b nm e nm' = b nm'"
  by (simp add: set_enc_def split: enc.splits)

lemma set_enc_fresh: "b nm = None \<Longrightarrow> set_enc b nm e nm = set_enc Map.empty nm e nm"
  by (simp add: set_enc_def split: enc.splits)

definition encs_known :: "file_spec \<Rightarrow> bool" where
  "encs_known sp \<longleftrightarrow> dom (sp_encs sp) \<subseteq> fst ` set (sp_wf sp)"

lemma fold_fields:
  "foldR (field_step names nrows) (spec_start ops) (enumerate 0 cols) = Inr sp \<Longrightarrow>
     spec_ok names nrows ops cols sp \<and> encs_known sp"
proof (induction cols arbitrary: sp rule: rev_induct)
  case Nil
  then show ?case
    by (auto simp: spec_ok_def encs_known_def spec_start_def)
next
  case (snoc col cols)
  then obtain sp0 where sp0: "foldR (field_step names nrows) (spec_start ops) (enumerate 0 cols) = Inr sp0"
    and step: "field_step names nrows sp0 (length cols, col) = Inr sp"
    by (auto simp: enumerate_append_eq foldR_append rbind_Inr_iff)
  have ok: "spec_ok names nrows ops cols sp0" "encs_known sp0"
    using snoc.IH[OF sp0] by auto
  let ?nm = "key_at names (length cols)" and ?t = "ktype col"
  obtain w m where new: "utf8_ok ?nm" "?nm \<notin> fst ` set (sp_wf sp0)" "kcount col = nrows"
      "arrow_type ?t True = Inr w" "arrow_type ?t False = Inr m"
      "sp = sp0\<lparr>sp_wf := sp_wf sp0 @ [(?nm, w)], sp_mf := sp_mf sp0 @ [(?nm, m)],
         sp_encs := set_enc (sp_encs sp0) ?nm (pick_enc col ?t nrows (sp_opts sp0)),
         sp_width := max (sp_width sp0) (width ?t)\<rparr>"
    using step by (auto simp: field_step_def rbind_Inr_iff Let_def split: if_splits)
  have fresh: "sp_encs sp0 ?nm = None"
    using ok(2) new(2) by (metis domIff encs_known_def subsetD)
  have names: "map fst (sp_wf sp0) = map (key_at names) [0..<length cols]"
    using ok(1) by (simp add: spec_ok_def)
  have old: "key_at names c \<noteq> ?nm" if "c < length cols" for c
  proof
    assume "key_at names c = ?nm"
    then have "?nm \<in> set (map fst (sp_wf sp0))"
      unfolding names using that by (auto intro!: image_eqI[of _ _ c])
    with new(2) show False by simp
  qed
  have known: "encs_known sp"
    using ok(2) unfolding new(6) encs_known_def
    by (auto simp: set_enc_def dom_def split: enc.splits)
  have len: "length (sp_wf sp0) = length cols" "length (sp_mf sp0) = length cols" "sp_opts sp0 = ops"
    using ok(1) by (simp_all add: spec_ok_def)
  have sp: "sp_wf sp = sp_wf sp0 @ [(?nm, w)]" "sp_mf sp = sp_mf sp0 @ [(?nm, m)]"
    "sp_encs sp = set_enc (sp_encs sp0) ?nm (pick_enc col ?t nrows ops)" "sp_width sp = max (sp_width sp0) (width ?t)"
    using new(6) len(3) by simp_all
  have "spec_ok names nrows ops (cols @ [col]) sp"
    unfolding spec_ok_def
  proof (intro conjI allI impI)
    fix c
    assume c: "c < length (cols @ [col])"
    have "utf8_ok (key_at names c) \<and> kcount ((cols @ [col]) ! c) = nrows \<and>
      arrow_type (ktype ((cols @ [col]) ! c)) True = Inr (snd (sp_wf sp ! c)) \<and>
      arrow_type (ktype ((cols @ [col]) ! c)) False = Inr (snd (sp_mf sp ! c)) \<and>
      sp_encs sp (key_at names c) = set_enc Map.empty (key_at names c)
         (pick_enc ((cols @ [col]) ! c) (ktype ((cols @ [col]) ! c)) nrows ops) (key_at names c) \<and>
      width (ktype ((cols @ [col]) ! c)) \<le> sp_width sp"
    proof (cases "c = length cols")
      case True
      then show ?thesis
        unfolding sp using new(1-5) len by (simp add: nth_append set_enc_fresh[of "sp_encs sp0" ?nm, OF fresh])
    next
      case False
      then have c': "c < length cols"
        using c by simp
      then have "utf8_ok (key_at names c) \<and> kcount (cols ! c) = nrows \<and>
        arrow_type (ktype (cols ! c)) True = Inr (snd (sp_wf sp0 ! c)) \<and>
        arrow_type (ktype (cols ! c)) False = Inr (snd (sp_mf sp0 ! c)) \<and>
        sp_encs sp0 (key_at names c) = set_enc Map.empty (key_at names c)
           (pick_enc (cols ! c) (ktype (cols ! c)) nrows ops) (key_at names c) \<and>
        width (ktype (cols ! c)) \<le> sp_width sp0"
        using ok(1) unfolding spec_ok_def by blast
      then show ?thesis
        unfolding sp using c' len set_enc_other[OF old[OF c']] by (simp add: nth_append max.coboundedI1)
    qed
    then show "utf8_ok (key_at names c)" "kcount ((cols @ [col]) ! c) = nrows"
      "arrow_type (ktype ((cols @ [col]) ! c)) True = Inr (snd (sp_wf sp ! c))"
      "arrow_type (ktype ((cols @ [col]) ! c)) False = Inr (snd (sp_mf sp ! c))"
      "sp_encs sp (key_at names c) = set_enc Map.empty (key_at names c)
         (pick_enc ((cols @ [col]) ! c) (ktype ((cols @ [col]) ! c)) nrows ops) (key_at names c)"
      "width (ktype ((cols @ [col]) ! c)) \<le> sp_width sp"
      by blast+
  next
    show "distinct (map fst (sp_wf sp))"
    proof -
      have "distinct (map fst (sp_wf sp0))"
        using ok(1) unfolding spec_ok_def by (elim conjE)
      then show ?thesis
        using new(2) by (simp add: sp(1))
    qed
    show "sp_opts sp = ops"
      using new(6) len by simp
  qed (use ok(1) len in \<open>simp_all add: sp spec_ok_def\<close>)
  with known show ?case by blast
qed

section \<open>Row groups tile the rows\<close>

lemma div_ceil_covers: "0 < k \<Longrightarrow> n \<le> div_ceil n k * k"
  using div_ceil_less_iff[of k "div_ceil n k" n] by simp

lemma slices_take:
  "concat (map (\<lambda>g. slice (g * rg) (min rg (length xs - g * rg)) xs) [0..<k]) = take (k * rg) xs"
proof (induction k)
  case (Suc k)
  have "slice (k * rg) (min rg (length xs - k * rg)) xs = take rg (drop (k * rg) xs)"
    by (simp add: slice_def min_def)
  moreover have "take (Suc k * rg) xs = take (k * rg) xs @ take rg (drop (k * rg) xs)"
    by (simp only: mult_Suc add.commute[of rg] take_add)
  ultimately show ?case
    using Suc by (simp del: mult_Suc)
qed simp

lemma slices_cover:
  "0 < rg \<Longrightarrow> concat (map (\<lambda>g. slice (g * rg) (min rg (length xs - g * rg)) xs) [0..<div_ceil (length xs) rg]) = xs"
  using div_ceil_covers[of rg "length xs"] by (simp add: slices_take)

lemma slice_map: "slice off n (map f xs) = map f (slice off n xs)"
  by (simp add: slice_def take_map drop_map)

lemma negative_type: "t < 0 \<Longrightarrow> arrow_type t b \<noteq> Inr w"
  by (simp add: arrow_type_def)

lemma pay_cells_kept_slice:
  assumes "arrow_type (ktype col) True = Inr w" "typed col"
  shows "pay_cells (kept intern (rows_of col off n)) = slice off n (pay_cells (kept intern col)) \<and>
    length (pay_cells (kept intern col)) = kcount col"
proof (cases col)
  case (KAtom t b)
  then have "ktype col < 0"
    using assms(2) by (simp add: ktype_def)
  with assms(1) negative_type show ?thesis by blast
next
  case (KSym s)
  then have "ktype col < 0"
    by (simp add: ktype_def)
  with assms(1) negative_type show ?thesis by blast
qed (use assms in \<open>simp_all add: kept_def rows_of_def slice_map ktype_def arrow_type_def\<close>)

section \<open>The run of the queue\<close>

lemma table_window_pos: "0 < table_window pool tr" "0 < table_threads pool tr"
  by (simp_all add: table_window_def table_threads_def Let_def)

lemma no_tasks_serial:
  assumes "ntasks (table_job pool tr) = 0" "0 < op_rg (sp_opts (tr_spec tr))" "tr_cols tr = [] \<Longrightarrow> tr_nrows tr = 0"
  shows "serial_write L (table_job pool tr) f = Inr f"
proof -
  have "table_nrg tr = 0"
    using assms by (auto simp: ntasks_def ncols_def table_job_def table_nrg_def)
  then show ?thesis
    by (simp add: serial_write_def serial_upto_def table_job_def)
qed

lemma parse_opts_rg: "parse_opts zl gl x = Inr ops \<Longrightarrow> 0 < op_rg ops"
proof (cases x)
  case None
  moreover assume "parse_opts zl gl x = Inr ops"
  ultimately show ?thesis
    by (auto simp: parse_opts_def opts_default_def ROW_GROUP_def)
next
  case (Some d)
  moreover assume "parse_opts zl gl x = Inr ops"
  ultimately obtain o1 codec level c where
      "foldR (opt_step (dict_keys d) (dict_vals d)) (opts_default, None, None) [0..<kcount (dict_keys d)] = Inr (o1, codec, level)"
      "ops = o1\<lparr>op_comp := c\<rparr>"
    by (auto simp: parse_opts_def Let_def rbind_Inr_iff split: if_splits)
  then show ?thesis
    using fold_opts_read by (fastforce simp: opts_read_def)
qed

definition table_names :: "kval \<Rightarrow> kval" where
  "table_names tbl = dict_keys (table_dict tbl)"

lemma table_checks_Inr:
  assumes "table_checks cr tbl opts = Inr tr"
  obtains ops where "parse_opts (cr_zstd cr) (cr_gzip cr) opts = Inr ops" "ktype tbl = XT"
    "tr_cols tr = map (elt (dict_vals (table_dict tbl))) [0..<kcount (table_names tbl)]"
    "tr_nrows tr = (if tr_cols tr = [] then 0 else kcount (hd (tr_cols tr)))"
    "spec_ok (table_names tbl) (tr_nrows tr) ops (tr_cols tr) (tr_spec tr)"
    "cr_convert cr (sp_wf (tr_spec tr)) = Inr ()"
    "sp_meta (tr_spec tr) = [arrow_schema_meta (cr_ipc cr) (sp_mf (tr_spec tr))]"
proof -
  let ?names = "table_names tbl"
  let ?cols = "map (elt (dict_vals (table_dict tbl))) [0..<kcount ?names]"
  let ?nrows = "if 0 < kcount ?names then kcount (?cols ! 0) else 0"
  obtain ops sp where st: "parse_opts (cr_zstd cr) (cr_gzip cr) opts = Inr ops" "ktype tbl = XT"
      "foldR (field_step ?names ?nrows) (spec_start ops) (enumerate 0 ?cols) = Inr sp"
      "ctx ''pq_write'' (cr_convert cr (sp_wf sp)) = Inr ()"
      "tr = \<lparr>tr_spec = sp\<lparr>sp_meta := [arrow_schema_meta (cr_ipc cr) (sp_mf sp)]\<rparr>, tr_cols = ?cols, tr_nrows = ?nrows\<rparr>"
    using assms by (auto simp: table_checks_def table_names_def Let_def rbind_Inr_iff split: if_splits)
  have "spec_ok ?names ?nrows ops ?cols sp"
    using fold_fields[OF st(3)] by blast
  then have "spec_ok ?names (tr_nrows tr) ops (tr_cols tr) (tr_spec tr)"
    by (simp only: st(5) table_req.simps spec_ok_meta)
  moreover have "tr_nrows tr = (if tr_cols tr = [] then 0 else kcount (hd (tr_cols tr)))"
    unfolding st(5) by (auto simp: hd_conv_nth)
  ultimately show ?thesis
    using that[OF st(1,2)] st(4,5) by (simp add: ctx_Inr_iff)
qed

section \<open>A small table\<close>

definition ex_crate :: "(arr list, arr, arr list, arr list list list, arr list list list) crate" where
  "ex_crate = \<lparr>cr_zstd = (\<lambda>l. True), cr_gzip = (\<lambda>l. True), cr_convert = (\<lambda>fs. Inr ()), cr_ipc = (\<lambda>fs. [1, 2, 3]),
     cr_new = (\<lambda>sp. Inr []), cr_lib = (\<lambda>sp. ex_lib), cr_close = Inr\<rparr>"

definition ex_table :: kval where
  "ex_table = KTable (KDict (KSyms [''a'']) (KList [KVec8 KG [5, 6, 7]]))"

definition ex_opts :: "kval option" where
  "ex_opts = Some (KDict (KSyms [''rg'']) (KList [KAtom KJ 2]))"

definition ex_rg2 :: opts where
  "ex_rg2 = opts_default\<lparr>op_rg := 2, op_comp := UNCOMPRESSED\<rparr>"

definition ex_req :: table_req where
  "ex_req = \<lparr>tr_spec = \<lparr>sp_wf = [(''a'', UInt8)], sp_mf = [(''a'', UInt8)], sp_opts = ex_rg2,
       sp_encs = set_enc Map.empty ''a'' (pick_enc (KVec8 KG [5, 6, 7]) KG 3 ex_rg2), sp_width = 1,
       sp_meta = [arrow_schema_meta (\<lambda>fs. [1, 2, 3]) [(''a'', UInt8)]]\<rparr>,
     tr_cols = [KVec8 KG [5, 6, 7]], tr_nrows = 3\<rparr>"

lemma ex_opts_parsed: "parse_opts (\<lambda>l. True) (\<lambda>l. True) ex_opts = Inr ex_rg2"
  by (simp add: ex_opts_def parse_opts_def ktype_def opt_step_def ascii_keys int_atom_def codec_of_def ex_rg2_def Let_def)

lemma ex_checks: "table_checks ex_crate ex_table ex_opts = Inr ex_req"
proof -
  have "utf8_ok ''a''"
    by (rule utf8_ascii) simp
  then show ?thesis
    by (simp add: table_checks_def ex_crate_def ex_opts_parsed ex_table_def ktype_def field_step_def spec_start_def
      arrow_type_def width_def ex_req_def numeral_3_eq_3 Let_def)
qed

lemma body_answers: "\<exists>b. table_body cr pool tr b"
proof (cases "cr_new cr (tr_spec tr)")
  case (Inl e)
  then show ?thesis by (blast intro: table_body.new_err)
next
  case (Inr f)
  show ?thesis
  proof (cases "ntasks (table_job pool tr) = 0")
    case True
    with Inr show ?thesis by (blast intro: table_body.no_tasks)
  next
    case False
    have "0 < jb_window (table_job pool tr)"
      by (simp add: table_job_def table_window_pos)
    then have "\<exists>s. wq_reach (cr_lib cr (tr_spec tr)) (table_job pool tr) (table_threads pool tr) f s \<and> wq_done s"
      by (rule wq_runs[OF table_window_pos(2)])
    then obtain s where s: "wq_reach (cr_lib cr (tr_spec tr)) (table_job pool tr) (table_threads pool tr) f s" "wq_done s"
      by blast
    then obtain r where "wq_ms s = MRet r"
      by (auto simp: wq_done_def)
    with Inr False s show ?thesis
      by (blast intro: table_body.queue)
  qed
qed

lemma ex_table_job: "table_job 4 ex_req = ex_job\<lparr>jb_window := table_window 4 ex_req\<rparr>"
  by (simp add: table_job_def ex_job_def ex_req_def ex_rg2_def table_nrg_def div_ceil_def)

lemma ex_table_serial:
  "serial_write ex_lib (table_job 4 ex_req) [] = Inr [[[Arr8 UInt8 [5, 6] None]], [[Arr8 UInt8 [7] None]]]"
  by (simp add: ex_table_job serial_write_def serial_upto_def serial_group_def serial_cols_def serial_task_def encode_def
    ex_lib_def ex_job_def ncols_def col_to_arrow_def ktype_def slice_def upt_rec numeral_2_eq_2)

definition ex_file_os :: "arr list list list os" where
  "ex_file_os = \<lparr>os_create = None, os_remove = (\<lambda>c. None), os_rename = None, os_cleanup = True\<rparr>"

lemma ex_crate_writes:
  assumes chk: "table_checks ex_crate tbl opts = Inr tr" and some: "0 < ntasks (table_job 4 tr)"
    and ser: "serial_write ex_lib (table_job 4 tr) [] = Inr c"
  shows "\<exists>d. write_table ex_crate ex_file_os 4 7 0 tbl ''t'' opts Map.empty (d, Inr ())"
proof -
  have pos: "0 < jb_window (table_job 4 tr)"
    by (simp add: table_job_def table_window_pos)
  obtain s r where s: "wq_reach ex_lib (table_job 4 tr) (table_threads 4 tr) [] s" "wq_done s" "wq_ms s = MRet r"
    using wq_runs[OF table_window_pos(2)[of 4 tr] pos, of ex_lib "[]"] by (auto simp: wq_done_def)
  have "r = Inr ()"
    using queue_result[OF s(1,3)] ser by (cases r) auto
  then have "table_body ex_crate 4 tr (rbind (Inr ()) (\<lambda>_. ctx ''pq_write'' (cr_close ex_crate (wq_file s))))"
    using table_body.queue[of ex_crate tr "[]" 4 s r] some s by (simp add: ex_crate_def)
  then have "table_body ex_crate 4 tr (Inr (wq_file s))"
    by (simp add: ex_crate_def)
  from write_table.built[OF chk this, of ex_file_os 7 0 "''t''" Map.empty "[]"] show ?thesis
    by (auto simp: publish_def ex_file_os_def scratch_new_def Let_def)
qed

lemma ex_write: "\<exists>d. write_table ex_crate ex_file_os 4 7 0 ex_table ''t'' ex_opts Map.empty (d, Inr ())"
proof -
  have "0 < ntasks (table_job 4 ex_req)"
    by (simp add: table_job_def ntasks_def table_nrg_def ncols_def ex_req_def ex_rg2_def div_ceil_def)
  then show ?thesis
    using ex_crate_writes[OF ex_checks _ ex_table_serial] by blast
qed

section \<open>The file\<close>

lemma row_groups_whole:
  assumes "table_checks cr tbl opts = Inr tr" "c < length (tr_cols tr)" "typed (tr_cols tr ! c)"
  shows "concat (map (\<lambda>g. pay_cells (kept intern (rows_of (tr_cols tr ! c) (g * op_rg (sp_opts (tr_spec tr)))
        (min (op_rg (sp_opts (tr_spec tr))) (tr_nrows tr - g * op_rg (sp_opts (tr_spec tr)))))))
      [0..<jb_nrg (table_job pool tr)]) = pay_cells (kept intern (tr_cols tr ! c))"
proof -
  let ?col = "tr_cols tr ! c" and ?rg = "op_rg (sp_opts (tr_spec tr))"
  obtain ops where ok: "parse_opts (cr_zstd cr) (cr_gzip cr) opts = Inr ops"
      "spec_ok (table_names tbl) (tr_nrows tr) ops (tr_cols tr) (tr_spec tr)"
    using table_checks_Inr[OF assms(1)] by blast
  have col: "kcount ?col = tr_nrows tr" "\<exists>w. arrow_type (ktype ?col) True = Inr w" "0 < ?rg"
    using ok(2) assms(2) parse_opts_rg[OF ok(1)] by (auto simp: spec_ok_def)
  then obtain w where w: "arrow_type (ktype ?col) True = Inr w" by blast
  note kept = pay_cells_kept_slice[OF w assms(3), of intern]
  have len: "length (pay_cells (kept intern ?col)) = tr_nrows tr"
    using kept col(1) by simp
  show ?thesis
    using slices_cover[OF col(3), of "pay_cells (kept intern ?col)"] kept
    by (simp add: len col(1) table_job_def table_nrg_def)
qed

lemma write_table_file:
  assumes "write_table cr os pool pid n tbl path opts fs (d, Inr ())"
  shows "\<exists>tr f f' c. table_checks cr tbl opts = Inr tr \<and> cr_new cr (tr_spec tr) = Inr f \<and>
    serial_write (cr_lib cr (tr_spec tr)) (table_job pool tr) f = Inr f' \<and> cr_close cr f' = Inr c \<and>
    last d path = Some c \<and> last d (scratch_name path pid n) = None"
  using assms
proof (cases rule: write_table.cases)
  case (built tr b parts)
  then have pub: "publish os ''pq_write'' path (fst (scratch_new path False pid n)) parts b fs = (d, Inr ())"
    by simp
  obtain c where c: "b = Inr c" "last d path = Some c" "last d (scratch_name path pid n) = None"
    using publish_facts[OF pub] by auto
  obtain ops where ok: "parse_opts (cr_zstd cr) (cr_gzip cr) opts = Inr ops"
      "tr_nrows tr = (if tr_cols tr = [] then 0 else kcount (hd (tr_cols tr)))"
      "spec_ok (table_names tbl) (tr_nrows tr) ops (tr_cols tr) (tr_spec tr)"
    using table_checks_Inr[OF built(2)] by blast
  have rg: "0 < op_rg (sp_opts (tr_spec tr))"
    using ok(3) parse_opts_rg[OF ok(1)] by (simp add: spec_ok_def)
  from built(3) show ?thesis
  proof (cases rule: table_body.cases)
    case (no_tasks f)
    have "serial_write (cr_lib cr (tr_spec tr)) (table_job pool tr) f = Inr f"
      by (rule no_tasks_serial[OF no_tasks(3) rg]) (simp add: ok(2))
    moreover have "cr_close cr f = Inr c"
      using no_tasks(1) c(1) by (metis ctx_Inr_iff)
    ultimately show ?thesis
      using no_tasks(2) built(2) c(2,3) by blast
  next
    case (queue f s r)
    have "rbind r (\<lambda>_. ctx ''pq_write'' (cr_close cr (wq_file s))) = Inr c"
      using queue(1) c(1) by simp
    then have "r = Inr ()" "cr_close cr (wq_file s) = Inr c"
      by (auto simp: rbind_Inr_iff ctx_Inr_iff)
    moreover from this queue have "serial_write (cr_lib cr (tr_spec tr)) (table_job pool tr) f = Inr (wq_file s)"
      using queue_result[OF queue(4,6)] by simp
    ultimately show ?thesis
      using queue built(2) c by auto
  qed (use c in simp)
qed

section \<open>Properties\<close>

text \<open>C22
  A table that passes the checks is written under a schema that fits it: the fields are the
  table's columns in order, under distinct UTF-8 names, each of the row count of the first,
  with the Arrow type and the encoding of its own column, whatever the other columns are; the
  file advertises the same names and carries exactly the schema entry of the advertised
  fields; and row groups are not empty.
\<close>

theorem table_schema_fits:
  assumes "table_checks cr tbl opts = Inr tr"
  shows "length (sp_wf (tr_spec tr)) = length (tr_cols tr) \<and> distinct (map fst (sp_wf (tr_spec tr))) \<and>
    map fst (sp_mf (tr_spec tr)) = map fst (sp_wf (tr_spec tr)) \<and> 0 < op_rg (sp_opts (tr_spec tr)) \<and>
    sp_meta (tr_spec tr) = [arrow_schema_meta (cr_ipc cr) (sp_mf (tr_spec tr))] \<and>
    (\<forall>c < length (tr_cols tr). let col = tr_cols tr ! c; t = ktype col; nm = fst (sp_wf (tr_spec tr) ! c) in
       nm = key_at (table_names tbl) c \<and> utf8_ok nm \<and> kcount col = tr_nrows tr \<and>
       arrow_type t True = Inr (snd (sp_wf (tr_spec tr) ! c)) \<and> arrow_type t False = Inr (snd (sp_mf (tr_spec tr) ! c)) \<and>
       sp_encs (tr_spec tr) nm = set_enc Map.empty nm (pick_enc col t (tr_nrows tr) (sp_opts (tr_spec tr))) nm)"
proof -
  obtain ops where ok: "parse_opts (cr_zstd cr) (cr_gzip cr) opts = Inr ops"
      "spec_ok (table_names tbl) (tr_nrows tr) ops (tr_cols tr) (tr_spec tr)"
      "sp_meta (tr_spec tr) = [arrow_schema_meta (cr_ipc cr) (sp_mf (tr_spec tr))]"
    using table_checks_Inr[OF assms] by blast
  have names: "fst (sp_wf (tr_spec tr) ! c) = key_at (table_names tbl) c" if "c < length (tr_cols tr)" for c
  proof -
    have "fst (sp_wf (tr_spec tr) ! c) = map fst (sp_wf (tr_spec tr)) ! c"
    proof -
      have "length (sp_wf (tr_spec tr)) = length (tr_cols tr)"
        using ok(2) by (simp only: spec_ok_def)
      with that show ?thesis by simp
    qed
    also have "map fst (sp_wf (tr_spec tr)) = map (key_at (table_names tbl)) [0..<length (tr_cols tr)]"
      using ok(2) by (simp only: spec_ok_def)
    finally show ?thesis
      using that by simp
  qed
  have fields: "distinct (map fst (sp_wf (tr_spec tr))) \<and> map fst (sp_mf (tr_spec tr)) = map fst (sp_wf (tr_spec tr)) \<and>
      length (sp_wf (tr_spec tr)) = length (tr_cols tr) \<and> sp_opts (tr_spec tr) = ops"
    and cols: "\<forall>c < length (tr_cols tr). utf8_ok (key_at (table_names tbl) c) \<and> kcount (tr_cols tr ! c) = tr_nrows tr \<and>
        arrow_type (ktype (tr_cols tr ! c)) True = Inr (snd (sp_wf (tr_spec tr) ! c)) \<and>
        arrow_type (ktype (tr_cols tr ! c)) False = Inr (snd (sp_mf (tr_spec tr) ! c)) \<and>
        sp_encs (tr_spec tr) (key_at (table_names tbl) c) = set_enc Map.empty (key_at (table_names tbl) c)
          (pick_enc (tr_cols tr ! c) (ktype (tr_cols tr ! c)) (tr_nrows tr) ops) (key_at (table_names tbl) c)"
    using ok(2) unfolding spec_ok_def by blast+
  then show ?thesis
    using ok(3) parse_opts_rg[OF ok(1)] names by (simp add: Let_def)
qed

theorem table_schema_fits_witness: "utf8_ok (key_at (table_names ex_table) 0) \<and> length (sp_wf (tr_spec ex_req)) = 1"
  using table_schema_fits[OF ex_checks] by (simp add: ex_req_def Let_def table_names_def ex_table_def)






end
