(* ===== verification/Stream.thy ===== *)
theory Stream
  imports Delivery Publish
begin

text \<open>
  \<^verbatim>\<open>pq_stream\<close> (\<^verbatim>\<open>src/src/stream.rs\<close>): a Parquet file to a splayed table
  directory, one batch in memory at a time. Files are byte strings written through handles with
  a position of their own; what opening and writing answer is a parameter.
\<close>

section \<open>Files and handles\<close>

type_synonym files = "string \<Rightarrow> u8 list option"

record fh =
  fh_path :: string
  fh_pos :: nat

record file_io =
  io_create :: "string \<Rightarrow> string option"
  io_write :: "string \<Rightarrow> nat \<Rightarrow> string option"

definition overwrite :: "nat \<Rightarrow> u8 list \<Rightarrow> u8 list \<Rightarrow> u8 list" where
  "overwrite pos b c = take pos (c @ replicate (pos - length c) 0) @ b @ drop (pos + length b) c"

definition f_create :: "file_io \<Rightarrow> string \<Rightarrow> files \<Rightarrow> (files \<times> fh) result" where
  "f_create io p fls = (case io_create io p of
     Some e \<Rightarrow> Inl e
   | None \<Rightarrow> Inr (fls(p \<mapsto> []), \<lparr>fh_path = p, fh_pos = 0\<rparr>))"

definition f_write :: "file_io \<Rightarrow> files \<times> fh \<Rightarrow> u8 list \<Rightarrow> (files \<times> fh) result" where
  "f_write io st b =
    (let (fls, f) = st in
     case io_write io (fh_path f) (fh_pos f) of
       Some e \<Rightarrow> Inl e
     | None \<Rightarrow> Inr (fls(fh_path f \<mapsto> overwrite (fh_pos f) b (case fls (fh_path f) of None \<Rightarrow> [] | Some c \<Rightarrow> c)),
         f\<lparr>fh_pos := fh_pos f + length b\<rparr>))"

definition f_seek :: "nat \<Rightarrow> files \<times> fh \<Rightarrow> files \<times> fh" where
  "f_seek n st = (fst st, (snd st)\<lparr>fh_pos := n\<rparr>)"

section \<open>Headers, counts and chunks\<close>

definition le_i16 :: "int \<Rightarrow> u8 list" where
  "le_i16 t = to_le 2 (nat (t mod 65536))"

definition hdr_fixed :: "file_io \<Rightarrow> int \<Rightarrow> files \<times> fh \<Rightarrow> (files \<times> fh) result" where
  "hdr_fixed io lt st =
    (let h = replicate 32 0 in ctx ''pq_stream'' (f_write io st (take 4 h @ le_i16 lt @ drop 6 h)))"

definition hdr_syms :: "file_io \<Rightarrow> i32 \<Rightarrow> files \<times> fh \<Rightarrow> (files \<times> fh) result" where
  "hdr_syms io n st = ctx ''pq_stream'' (f_write io st ([0xFF, 0x01] @ le_i16 KS @ to_le 4 (unat n)))"

definition patch_count :: "file_io \<Rightarrow> bool \<Rightarrow> i64 \<Rightarrow> files \<times> fh \<Rightarrow> (files \<times> fh) result" where
  "patch_count io is_sym n st =
    (if is_sym then ctx ''pq_stream'' (f_write io (f_seek 4 st) (to_le 4 (unat (ucast n :: i32))))
     else ctx ''pq_stream'' (f_write io (f_seek 8 st) (to_le 8 (unat n))))"

text \<open>The bytes of one element: its little-endian memory, or the symbol's string with its NUL.\<close>

primrec cell_bytes :: "(ptr \<Rightarrow> u8 list) \<Rightarrow> cell \<Rightarrow> u8 list" where
  "cell_bytes cs (C8 x) = [x]"
| "cell_bytes cs (C16 x) = to_le 2 (unat x)"
| "cell_bytes cs (C32 x) = to_le 4 (unat x)"
| "cell_bytes cs (C64 x) = to_le 8 (unat x)"
| "cell_bytes cs (CSym p) = cs p @ [0]"

definition append_chunk :: "file_io \<Rightarrow> (ptr \<Rightarrow> u8 list) \<Rightarrow> int \<Rightarrow> payload \<Rightarrow> nat \<Rightarrow> files \<times> fh \<Rightarrow> (files \<times> fh) result" where
  "append_chunk io cs lt col nr st =
    (if lt = KS then foldR (\<lambda>st i. ctx ''pq_stream'' (f_write io st (cell_bytes cs (pay_cells col ! i)))) st [0..<nr]
     else ctx ''pq_stream'' (f_write io st (take (nr * width lt) (concat (map (cell_bytes cs) (pay_cells col))))))"

section \<open>Building the directory\<close>

definition write_manifest :: "file_io \<Rightarrow> string list \<Rightarrow> files \<Rightarrow> files result" where
  "write_manifest io names fls =
    rbind (ctx ''pq_stream: .d'' (f_create io ''.d'' fls)) (\<lambda>st.
    rbind (hdr_syms io (of_nat (length names)) st) (\<lambda>st.
    rbind (foldR (\<lambda>st n. ctx ''pq_stream: .d'' (rbind (f_write io st (bytes_of n)) (\<lambda>st. f_write io st [0]))) st names) (\<lambda>st.
    Inr (fst st))))"

definition create_col :: "file_io \<Rightarrow> int list \<Rightarrow> files \<times> fh list \<Rightarrow> nat \<times> string \<Rightarrow> (files \<times> fh list) result" where
  "create_col io lts st x =
    (let (fls, cfs) = st; (c, n) = x in
     rbind (ctx ''pq_stream: col'' (f_create io n fls)) (\<lambda>s.
     rbind (if lts ! c = KS then hdr_syms io 0 s else hdr_fixed io (lts ! c) s) (\<lambda>(fls, f).
     Inr (fls, cfs @ [f]))))"

type_synonym stream_state = "files \<times> fh list \<times> sym_cache \<times> i64"

definition stream_col :: "file_io \<Rightarrow> host \<Rightarrow> (int \<Rightarrow> nat \<Rightarrow> payload) \<Rightarrow> (ptr \<Rightarrow> u8 list) \<Rightarrow> int list \<Rightarrow> arr list \<Rightarrow> nat \<Rightarrow>
    files \<times> fh list \<times> sym_cache \<Rightarrow> nat \<Rightarrow> (files \<times> fh list \<times> sym_cache) result" where
  "stream_col io h ktn cs lts b nr st c =
    (let (fls, cfs, sy) = st in
     rbind (fill_col (h_intern h) (h_rd h) (h_deref h) (h_cast h) (lts ! c) (ktn (lts ! c) nr) 0 (b ! c) sy) (\<lambda>(col, sy).
     rbind (append_chunk io cs (lts ! c) col nr (fls, cfs ! c)) (\<lambda>(fls, f).
     Inr (fls, cfs[c := f], sy))))"

definition stream_batch :: "file_io \<Rightarrow> host \<Rightarrow> (int \<Rightarrow> nat \<Rightarrow> payload) \<Rightarrow> (ptr \<Rightarrow> u8 list) \<Rightarrow> int list \<Rightarrow>
    stream_state \<Rightarrow> (arr list \<times> nat) result \<Rightarrow> stream_state result" where
  "stream_batch io h ktn cs lts st x =
    (let (fls, cfs, sy, tot) = st in
     rbind (ctx ''pq_stream'' x) (\<lambda>(b, nr).
     rbind (foldR (stream_col io h ktn cs lts b nr) (fls, cfs, sy) [0..<length lts]) (\<lambda>(fls, cfs, sy).
     Inr (fls, cfs, sy, tot + of_nat nr))))"

definition stream_rg :: "'st store \<Rightarrow> file_io \<Rightarrow> host \<Rightarrow> (int \<Rightarrow> nat \<Rightarrow> payload) \<Rightarrow> (ptr \<Rightarrow> u8 list) \<Rightarrow> src \<Rightarrow> int list \<Rightarrow>
    stream_state \<Rightarrow> nat \<Rightarrow> stream_state result" where
  "stream_rg so io h ktn cs s lts st g =
    rbind (ctx (''pq_stream: '' @ src_path s) (so_open so s)) (\<lambda>_.
    rbind (ctx ''pq_stream'' (so_batches so s g [0..<length lts])) (\<lambda>bs.
    foldR (stream_batch io h ktn cs lts) st bs))"

definition patch_col :: "file_io \<Rightarrow> int list \<Rightarrow> fh list \<Rightarrow> i64 \<Rightarrow> files \<Rightarrow> nat \<Rightarrow> files result" where
  "patch_col io lts cfs tot fls c =
    rbind (patch_count io (lts ! c = KS) tot (fls, cfs ! c)) (\<lambda>st. Inr (fst st))"

definition stream_dir :: "'st store \<Rightarrow> file_io \<Rightarrow> host \<Rightarrow> (int \<Rightarrow> nat \<Rightarrow> payload) \<Rightarrow> (ptr \<Rightarrow> u8 list) \<Rightarrow> src \<Rightarrow>
    string list \<Rightarrow> int list \<Rightarrow> (files \<times> i64) result" where
  "stream_dir so io h ktn cs s names lts =
    rbind (write_manifest io names Map.empty) (\<lambda>fls.
    rbind (foldR (create_col io lts) (fls, []) (enumerate 0 names)) (\<lambda>(fls, cfs).
    rbind (foldR (stream_rg so io h ktn cs s lts) (fls, cfs, sc_new, 0) [0..<length (src_rg_rows s)]) (\<lambda>(fls, cfs, sy, tot).
    rbind (foldR (patch_col io lts cfs tot) fls [0..<length lts]) (\<lambda>fls.
    Inr (fls, tot)))))"

section \<open>The whole of \<^verbatim>\<open>stream_table\<close>\<close>

datatype node = NFile "u8 list" | NDir files

definition stream_checks :: "file_set \<Rightarrow> string \<Rightarrow> node fsys \<Rightarrow> (int list \<times> string) result" where
  "stream_checks fs dst0 fsys =
    (if 2 ^ 31 - 1 < sint (sum_i64 (src_rg_rows (hd (fs_srcs fs)))) then Inl ''pq_stream: >2^31 rows''
     else rbind (mapR (\<lambda>t. t) (fs_lts fs)) (\<lambda>lts.
       let dst = trim_end CHR ''/'' dst0 in
       if dst = [] then Inl ''pq_stream: empty destination''
       else case fsys dst of
           Some (NFile _) \<Rightarrow> Inl (''pq_stream: '' @ dst @ '': not a directory'')
         | _ \<Rightarrow> Inr (lts, dst)))"

definition stream_table :: "'st store \<Rightarrow> file_io \<Rightarrow> host \<Rightarrow> (int \<Rightarrow> nat \<Rightarrow> payload) \<Rightarrow> (ptr \<Rightarrow> u8 list) \<Rightarrow> node os \<Rightarrow>
    nat \<Rightarrow> nat \<Rightarrow> node list \<Rightarrow> file_set \<Rightarrow> string \<Rightarrow> node fsys \<Rightarrow> node fsys list \<times> i64 result" where
  "stream_table so io h ktn cs os pid n parts fs dst0 fsys =
    (case stream_checks fs dst0 fsys of
       Inl e \<Rightarrow> ([fsys], Inl e)
     | Inr (lts, dst) \<Rightarrow>
         let built = stream_dir so io h ktn cs (hd (fs_srcs fs)) (fs_names fs) lts;
             (d, r) = publish os ''pq_stream'' dst (fst (scratch_new dst True pid n)) parts
               (rbind built (\<lambda>(fls, tot). Inr (NDir fls))) fsys
         in (d, rbind r (\<lambda>_. rbind built (\<lambda>(fls, tot). Inr tot))))"

section \<open>The format\<close>

text \<open>A finished column file and what a loader takes from it: the type, the count, the payload.\<close>

definition splay_file :: "int \<Rightarrow> i64 \<Rightarrow> u8 list \<Rightarrow> u8 list" where
  "splay_file lt n body =
    (if lt = KS then [0xFF, 0x01] @ le_i16 KS @ to_le 4 (unat (ucast n :: i32)) @ body
     else [0, 0, 0, 0] @ le_i16 lt @ [0, 0] @ to_le 8 (unat n) @ replicate 16 0 @ body)"

definition load_splay :: "u8 list \<Rightarrow> nat \<times> nat \<times> u8 list" where
  "load_splay b =
    (if take 2 b = [0xFF, 0x01] then (of_le (take 2 (drop 2 b)), of_le (take 4 (drop 4 b)), drop 8 b)
     else (of_le (take 2 (drop 4 b)), of_le (take 8 (drop 8 b)), drop 32 b))"

lemma length_le_i16 [simp]: "length (le_i16 t) = 2"
  by (simp add: le_i16_def)

lemma le_i16_value: "0 \<le> t \<Longrightarrow> t < 65536 \<Longrightarrow> of_le (le_i16 t) = nat t"
proof -
  assume "0 \<le> t" "t < 65536"
  then have "nat (t mod 65536) = nat t" "nat t < 65536"
    by simp_all
  then show ?thesis
    by (simp only: le_i16_def of_le_to_le) simp
qed

lemma syms_parts:
  assumes "length t = 2" "length n = 4"
  shows "load_splay ([0xFF, 0x01] @ t @ n @ body) = (of_le t, of_le n, body)"
  using assms by (simp add: load_splay_def)

lemma fixed_parts:
  assumes "length t = 2" "length n = 8" "length z = 16"
  shows "load_splay ([0, 0, 0, 0] @ t @ [0, 0] @ n @ z @ body) = (of_le t, of_le n, body)"
  using assms by (simp add: load_splay_def)

lemma load_splay_file:
  assumes "0 \<le> lt" "lt < 65536" "unat n < 2 ^ 31"
  shows "load_splay (splay_file lt n body) = (nat lt, unat n, body)"
proof (cases "lt = KS")
  case True
  have "unat (ucast n :: i32) = unat n"
    using assms(3) by (simp add: unsigned_ucast_eq take_bit_nat_eq_self)
  then have "of_le (to_le 4 (unat (ucast n :: i32))) = unat n"
    using assms(3) by (simp only: of_le_to_le) simp
  moreover have "of_le (le_i16 KS) = nat KS"
    by (rule le_i16_value) simp_all
  ultimately show ?thesis
    using True syms_parts[of "le_i16 KS" "to_le 4 (unat (ucast n :: i32))" body] by (simp only: splay_file_def if_True length_le_i16 length_to_le refl simp_thms)
next
  case False
  have "of_le (to_le 8 (unat n)) = unat n"
    using assms(3) by (simp only: of_le_to_le) simp
  with False le_i16_value[OF assms(1,2)] show ?thesis
    using fixed_parts[of "le_i16 lt" "to_le 8 (unat n)" "replicate 16 0" body]
    by (simp only: splay_file_def if_False length_le_i16 length_to_le length_replicate refl simp_thms)
qed

lemma overwrite_end: "overwrite (length c) b c = c @ b"
  by (simp add: overwrite_def)

lemma to_le_0: "to_le k 0 = replicate k 0"
  by (induction k) simp_all

lemma zeros: "[0, 0] @ replicate 8 0 @ replicate 16 (0 :: u8) = drop 6 (replicate 32 0)"
  "[0, 0, 0, 0] = take 4 (replicate 32 (0 :: u8))"
proof -
  have "[0, 0 :: u8] = replicate 2 0"
    by (simp add: numeral_2_eq_2)
  then show "[0, 0] @ replicate 8 0 @ replicate 16 (0 :: u8) = drop 6 (replicate 32 0)"
    by (simp only: replicate_add[symmetric] drop_replicate) simp
  show "[0, 0, 0, 0] = take 4 (replicate 32 (0 :: u8))"
    by (simp add: take_replicate numeral_eq_Suc)
qed

lemma splay_file_0: "splay_file lt 0 [] = (if lt = KS then [0xFF, 0x01] @ le_i16 KS @ to_le 4 (unat (0 :: i32)) else
    take 4 (replicate 32 0) @ le_i16 lt @ drop 6 (replicate 32 0))"
  unfolding splay_file_def zeros[symmetric] by (simp add: to_le_0)

lemma patched_syms:
  assumes "length t = 2" "length n = 4" "length m = 4"
  shows "overwrite 4 n ([0xFF, 0x01] @ t @ m @ body) = [0xFF, 0x01] @ t @ n @ body"
  using assms by (simp add: overwrite_def)

lemma patched_fixed:
  assumes "length t = 2" "length n = 8" "length m = 8"
  shows "overwrite 8 n ([0, 0, 0, 0] @ t @ [0, 0] @ m @ body) = [0, 0, 0, 0] @ t @ [0, 0] @ n @ body"
  using assms by (simp add: overwrite_def)

lemma patched:
  "overwrite (if lt = KS then 4 else 8) (if lt = KS then to_le 4 (unat (ucast n :: i32)) else to_le 8 (unat n))
     (splay_file lt m body) = splay_file lt n body"
  by (simp only: splay_file_def patched_syms patched_fixed length_le_i16 length_to_le split: if_split) simp

section \<open>Handles at the end of their files\<close>

definition at_end :: "files \<Rightarrow> fh \<Rightarrow> string \<Rightarrow> u8 list \<Rightarrow> bool" where
  "at_end fls f p c \<longleftrightarrow> fh_path f = p \<and> fls p = Some c \<and> fh_pos f = length c"

text \<open>Writing through one handle leaves the other files alone.\<close>

definition appended :: "files \<Rightarrow> fh \<Rightarrow> string \<Rightarrow> u8 list \<Rightarrow> files \<times> fh \<Rightarrow> bool" where
  "appended fls f p c st \<longleftrightarrow> at_end (fst st) (snd st) p c \<and> (\<forall>q. q \<noteq> p \<longrightarrow> fst st q = fls q)"

lemma f_write_end:
  assumes "f_write io st b = Inr st'" "appended fls f p c st"
  shows "appended fls f p (c @ b) st'"
  using assms by (cases st) (auto simp: f_write_def appended_def at_end_def overwrite_end Let_def split: option.splits)

lemma fold_appended:
  assumes "foldR step st xs = Inr st'" "appended fls f p c st"
    and "\<And>st x st' c. step st x = Inr st' \<Longrightarrow> appended fls f p c st \<Longrightarrow> appended fls f p (c @ g x) st'"
  shows "appended fls f p (c @ concat (map g xs)) st'"
  using assms(1,2)
proof (induction xs arbitrary: st c)
  case (Cons x xs)
  then obtain st1 where st1: "step st x = Inr st1" "foldR step st1 xs = Inr st'"
    by (auto simp: rbind_Inr_iff)
  from Cons.IH[OF st1(2) assms(3)[OF st1(1) Cons.prems(2)]] show ?case
    by simp
qed simp

lemma appended_start: "at_end fls f p c \<Longrightarrow> appended fls f p c (fls, f)"
  by (simp add: appended_def)

lemma cells_width:
  assumes "payload_for lt col" "lt \<noteq> KS"
  shows "length (concat (map (cell_bytes cs) (pay_cells col))) = payload_len col * width lt"
proof -
  have "length (cell_bytes cs c) = width lt" if "c \<in> set (pay_cells col)" for c
    using assms that by (cases col) (auto simp: payload_for_def width_def Let_def)
  then have "map (length \<circ> cell_bytes cs) (pay_cells col) = map (\<lambda>c. width lt) (pay_cells col)"
    by simp
  then show ?thesis
    by (simp only: length_concat map_map sum_list_triv length_pay_cells mult.commute) simp
qed

lemma append_chunk_end:
  assumes "append_chunk io cs lt col nr st = Inr st'" "appended fls f p c st"
    and "payload_for lt col" "payload_len col = nr"
  shows "appended fls f p (c @ concat (map (cell_bytes cs) (pay_cells col))) st'"
proof (cases "lt = KS")
  case True
  then have run: "foldR (\<lambda>st i. ctx ''pq_stream'' (f_write io st (cell_bytes cs (pay_cells col ! i)))) st [0..<nr] = Inr st'"
    using assms(1) by (simp add: append_chunk_def)
  have "map (\<lambda>i. cell_bytes cs (pay_cells col ! i)) [0..<nr] = map (cell_bytes cs) (pay_cells col)"
    using assms(4) by (intro nth_equalityI) simp_all
  with fold_appended[OF run assms(2), of "\<lambda>i. cell_bytes cs (pay_cells col ! i)"] show ?thesis
    by (auto simp: ctx_Inr_iff intro: f_write_end)
next
  case False
  then show ?thesis
    using assms f_write_end[of io st _ st' fls f p c] cells_width[OF assms(3) False, of cs]
    by (simp add: append_chunk_def ctx_Inr_iff)
qed

section \<open>The directory while it is built\<close>

text \<open>Every column file holds its header with the count zero and the bytes so far.\<close>

definition dir_inv :: "string list \<Rightarrow> int list \<Rightarrow> u8 list \<Rightarrow> (nat \<Rightarrow> u8 list) \<Rightarrow> files \<times> fh list \<Rightarrow> bool" where
  "dir_inv names lts man bodies st \<longleftrightarrow> length (snd st) = length names \<and> fst st ''.d'' = Some man \<and>
     (\<forall>c < length names. at_end (fst st) (snd st ! c) (names ! c) (splay_file (lts ! c) 0 (bodies c)))"

lemma dir_inv_write:
  assumes inv: "dir_inv names lts man bodies (fls, cfs)" and names: "distinct (''.d'' # names)" and c: "c < length names"
    and new: "appended fls (cfs ! c) (names ! c) (splay_file (lts ! c) 0 body) (fls', f)"
  shows "dir_inv names lts man (bodies(c := body)) (fls', cfs[c := f])"
proof -
  have same: "fls' p = fls p" if "p \<noteq> names ! c" for p
    using new that by (simp add: appended_def)
  have "''.d'' \<noteq> names ! c"
    using names c by auto
  moreover have "names ! d \<noteq> names ! c" if "d < length names" "d \<noteq> c" for d
    using names c that by (simp add: nth_eq_iff_index_eq)
  ultimately show ?thesis
    using inv new same c by (auto simp: dir_inv_def at_end_def appended_def nth_list_update)
qed

definition manifest :: "string list \<Rightarrow> u8 list" where
  "manifest names = splay_file KS (of_nat (length names)) (concat (map (\<lambda>n. bytes_of n @ [0]) names))"

lemma f_create_end:
  assumes "f_create io p fls = Inr st"
  shows "at_end (fst st) (snd st) p []" "q \<noteq> p \<Longrightarrow> fst st q = fls q"
  using assms by (auto simp: f_create_def at_end_def split: option.splits)

lemma write_manifest_ok:
  assumes "write_manifest io names fls0 = Inr fls" "length names < 2 ^ 31"
  shows "fls ''.d'' = Some (manifest names)"
proof -
  obtain st0 st1 st2 where st: "f_create io ''.d'' fls0 = Inr st0" "hdr_syms io (of_nat (length names)) st0 = Inr st1"
      "foldR (\<lambda>st n. ctx ''pq_stream: .d'' (rbind (f_write io st (bytes_of n)) (\<lambda>st. f_write io st [0]))) st1 names = Inr st2"
      "fls = fst st2"
    using assms(1) by (auto simp: write_manifest_def rbind_Inr_iff ctx_Inr_iff)
  have "appended (fst st0) (snd st0) ''.d'' [] (fst st0, snd st0)"
    by (rule appended_start) (rule f_create_end(1)[OF st(1)])
  then have "appended (fst st0) (snd st0) ''.d'' [] st0"
    by simp
  moreover have "f_write io st0 ([0xFF, 0x01] @ le_i16 KS @ to_le 4 (unat (of_nat (length names) :: i32))) = Inr st1"
    using st(2) by (simp add: hdr_syms_def ctx_Inr_iff)
  ultimately have "appended (fst st0) (snd st0) ''.d'' ([0xFF, 0x01] @ le_i16 KS @ to_le 4 (unat (of_nat (length names) :: i32))) st1"
    using f_write_end by fastforce
  note head = this
  have step: "appended (fst st0) (snd st0) ''.d'' (c @ bytes_of n @ [0]) st'"
    if run: "ctx ''pq_stream: .d'' (rbind (f_write io st (bytes_of n)) (\<lambda>st. f_write io st [0])) = Inr st'"
      and at: "appended (fst st0) (snd st0) ''.d'' c st" for st n st' c
  proof -
    obtain s1 where s1: "f_write io st (bytes_of n) = Inr s1" "f_write io s1 [0] = Inr st'"
      using run by (auto simp: ctx_Inr_iff rbind_Inr_iff)
    show ?thesis
      using f_write_end[OF s1(2) f_write_end[OF s1(1) at]] by simp
  qed
  have "appended (fst st0) (snd st0) ''.d'' (([0xFF, 0x01] @ le_i16 KS @ to_le 4 (unat (of_nat (length names) :: i32))) @
      concat (map (\<lambda>n. bytes_of n @ [0]) names)) st2"
    by (rule fold_appended[OF st(3) head]) (rule step)
  moreover have "unat (of_nat (length names) :: i32) = unat (ucast (of_nat (length names) :: i64) :: i32)"
    using assms(2) by (simp add: unsigned_ucast_eq unat_of_nat_small take_bit_nat_eq_self)
  ultimately show ?thesis
    using st(4) by (simp add: appended_def at_end_def manifest_def splay_file_def)
qed

lemma create_cols_ok:
  assumes "foldR (create_col io lts) (fls0, []) (enumerate 0 names) = Inr st" "distinct (''.d'' # names)"
    and "fls0 ''.d'' = Some man"
  shows "dir_inv names lts man (\<lambda>c. []) st"
  using assms(1,2)
proof (induction names arbitrary: st rule: rev_induct)
  case Nil
  then show ?case
    using assms(3) by (auto simp: dir_inv_def)
next
  case (snoc n names)
  then obtain fls cfs where one: "foldR (create_col io lts) (fls0, []) (enumerate 0 names) = Inr (fls, cfs)"
      "create_col io lts (fls, cfs) (length names, n) = Inr st"
    by (auto simp: enumerate_append_eq foldR_append rbind_Inr_iff)
  have inv: "dir_inv names lts man (\<lambda>c. []) (fls, cfs)"
    using snoc.IH[OF one(1)] snoc.prems(2) by simp
  let ?lt = "lts ! length names"
  obtain s1 s2 where s: "f_create io n fls = Inr s1"
      "(if ?lt = KS then hdr_syms io 0 s1 else hdr_fixed io ?lt s1) = Inr s2" "st = (fst s2, cfs @ [snd s2])"
    using one(2) by (auto simp: create_col_def rbind_Inr_iff ctx_Inr_iff Let_def)
  have start: "appended (fst s1) (snd s1) n [] s1"
    using appended_start[OF f_create_end(1)[OF s(1)]] by simp
  have "appended (fst s1) (snd s1) n ([] @ splay_file ?lt 0 []) s2"
    using s(2) f_write_end[OF _ start]
    by (simp only: splay_file_0) (auto simp: hdr_syms_def hdr_fixed_def ctx_Inr_iff Let_def split: if_splits)
  then have new: "at_end (fst s2) (snd s2) n (splay_file ?lt 0 [])" and same: "q \<noteq> n \<Longrightarrow> fst s2 q = fls q" for q
    using f_create_end(2)[OF s(1)] by (auto simp: appended_def)
  have "names ! c \<noteq> n" if "c < length names" for c
    using snoc.prems(2) that by auto
  moreover have "''.d'' \<noteq> n"
    using snoc.prems(2) by auto
  ultimately show ?case
    using inv new same by (auto simp: dir_inv_def at_end_def s(3) nth_append less_Suc_eq)
qed

section \<open>The rows\<close>

definition img_bytes :: "(ptr \<Rightarrow> u8 list) \<Rightarrow> host \<Rightarrow> int \<Rightarrow> arr \<Rightarrow> u8 list" where
  "img_bytes cs h lt a = (case image (h_intern h) (h_deref h) (h_cast h) lt a of
     Inr v \<Rightarrow> concat (map (cell_bytes cs) (pay_cells v)) | Inl e \<Rightarrow> [])"

lemma splay_file_append: "splay_file lt n body @ b = splay_file lt n (body @ b)"
  by (simp add: splay_file_def)

lemma fill_col_types: "fill_col intern rd deref cast lt col off a sy = Inr r \<Longrightarrow> lt \<in> L_TYPES"
  by (auto simp: fill_col_def L_TYPES_def Let_def split: if_splits)

text \<open>The array converts, to as many rows.\<close>

definition imaged :: "host \<Rightarrow> int \<Rightarrow> arr \<Rightarrow> nat \<Rightarrow> bool" where
  "imaged h lt a n \<longleftrightarrow> (\<exists>v. image (h_intern h) (h_deref h) (h_cast h) lt a = Inr v \<and> payload_len v = n)"

definition batch_ok :: "host \<Rightarrow> nat \<Rightarrow> arr list \<times> nat \<Rightarrow> bool" where
  "batch_ok h nc x \<longleftrightarrow> (\<forall>c < nc. arr_ok (fst x ! c) \<and> arr_len (h_deref h) (fst x ! c) = snd x)"

definition host_world :: "host \<Rightarrow> (int \<Rightarrow> nat \<Rightarrow> payload) \<Rightarrow> bool" where
  "host_world h ktn \<longleftrightarrow> host_ok (h_intern h) (h_rd h) \<and> cast_ok (h_deref h) (h_cast h) \<and> kt_ok ktn"

lemma stream_col_ok:
  assumes run: "stream_col io h ktn cs lts b nr (fls, cfs, sy) c = Inr (fls', cfs', sy')"
    and inv: "dir_inv names lts man bodies (fls, cfs)" and names: "distinct (''.d'' # names)" and c: "c < length names"
    and sy: "sc_inv (h_intern h) (h_deref h) sy" and world: "host_world h ktn" and b: "batch_ok h (length names) (b, nr)"
  shows "dir_inv names lts man (bodies(c := bodies c @ img_bytes cs h (lts ! c) (b ! c))) (fls', cfs') \<and>
    sc_inv (h_intern h) (h_deref h) sy' \<and> imaged h (lts ! c) (b ! c) nr"
proof -
  let ?lt = "lts ! c" and ?new = "ktn (lts ! c) nr"
  obtain col f where fill: "fill_col (h_intern h) (h_rd h) (h_deref h) (h_cast h) ?lt ?new 0 (b ! c) sy = Inr (col, sy')"
    and app: "append_chunk io cs ?lt col nr (fls, cfs ! c) = Inr (fls', f)" and cfs': "cfs' = cfs[c := f]"
    using run by (auto simp: stream_col_def rbind_Inr_iff)
  have kt: "payload_len ?new = nr" "payload_for ?lt ?new"
    using world fill_col_types[OF fill] by (auto simp: host_world_def kt_ok_def)
  have a: "arr_ok (b ! c)" "arr_len (h_deref h) (b ! c) = nr"
    using b c by (auto simp: batch_ok_def)
  have "col_written (h_intern h) (h_deref h) 0 (b ! c) (image (h_intern h) (h_deref h) (h_cast h) ?lt (b ! c)) ?new col"
    and sy': "sc_inv (h_intern h) (h_deref h) sy'"
    using fill_col_image[OF fill a(1) _ sy] world a(2) kt(1) by (auto simp: host_world_def)
  then obtain v where v: "image (h_intern h) (h_deref h) (h_cast h) ?lt (b ! c) = Inr v" "payload_len v = nr"
      "pay_kind v = pay_kind ?new" "col = pay_write 0 v ?new"
    using a(2) by (auto simp: col_written_def)
  have cells: "pay_cells col = pay_cells v"
    using pay_cells_write[OF v(3)] v(2,4) kt(1) by (simp add: write_at_def)
  then have col: "payload_len col = nr"
    using v(2) by (metis length_pay_cells)
  have "payload_for ?lt col"
    using kt(2) payload_for_kind[of col ?new ?lt] v(4) by simp
  moreover have "appended fls (cfs ! c) (names ! c) (splay_file ?lt 0 (bodies c)) (fls, cfs ! c)"
    using inv c by (intro appended_start) (simp add: dir_inv_def)
  ultimately have "appended fls (cfs ! c) (names ! c) (splay_file ?lt 0 (bodies c @ img_bytes cs h ?lt (b ! c))) (fls', f)"
    using append_chunk_end[OF app, of fls "cfs ! c" "names ! c" "splay_file ?lt 0 (bodies c)"] col v(1) cells
    by (simp add: img_bytes_def splay_file_append)
  from dir_inv_write[OF inv names c this] show ?thesis
    using sy' v(1,2) cfs' by (simp add: imaged_def)
qed

text \<open>One batch, column by column.\<close>

definition add_batch :: "(ptr \<Rightarrow> u8 list) \<Rightarrow> host \<Rightarrow> int list \<Rightarrow> nat \<Rightarrow> arr list \<Rightarrow> (nat \<Rightarrow> u8 list) \<Rightarrow> nat \<Rightarrow> u8 list" where
  "add_batch cs h lts n b bodies = (\<lambda>c. if c < n then bodies c @ img_bytes cs h (lts ! c) (b ! c) else bodies c)"

lemma stream_cols_ok:
  assumes run: "foldR (stream_col io h ktn cs lts b nr) (fls, cfs, sy) [0..<n] = Inr (fls', cfs', sy')"
    and inv: "dir_inv names lts man bodies (fls, cfs)" and names: "distinct (''.d'' # names)" and n: "n \<le> length names"
    and sy: "sc_inv (h_intern h) (h_deref h) sy" and world: "host_world h ktn" and b: "batch_ok h (length names) (b, nr)"
  shows "dir_inv names lts man (add_batch cs h lts n b bodies) (fls', cfs') \<and> sc_inv (h_intern h) (h_deref h) sy' \<and>
    (\<forall>c < n. imaged h (lts ! c) (b ! c) nr)"
  using run n
proof (induction n arbitrary: fls' cfs' sy')
  case 0
  then show ?case
    using inv sy by (simp add: add_batch_def)
next
  case (Suc n)
  then obtain f1 c1 s1 where one: "foldR (stream_col io h ktn cs lts b nr) (fls, cfs, sy) [0..<n] = Inr (f1, c1, s1)"
      "stream_col io h ktn cs lts b nr (f1, c1, s1) n = Inr (fls', cfs', sy')"
    by (auto simp: foldR_append rbind_Inr_iff)
  have ih: "dir_inv names lts man (add_batch cs h lts n b bodies) (f1, c1)" "sc_inv (h_intern h) (h_deref h) s1"
      "\<forall>c < n. imaged h (lts ! c) (b ! c) nr"
    using Suc.IH[OF one(1)] Suc.prems(2) by auto
  have "(add_batch cs h lts n b bodies)(n := add_batch cs h lts n b bodies n @ img_bytes cs h (lts ! n) (b ! n)) =
      add_batch cs h lts (Suc n) b bodies"
    by (auto simp: add_batch_def less_Suc_eq)
  then show ?case
    using stream_col_ok[OF one(2) ih(1) names _ ih(2) world b] ih(3) Suc.prems(2) by (auto simp: less_Suc_eq)
qed

text \<open>A run of batches: the bytes of each column in order, and the rows counted.\<close>

definition add_batches :: "(ptr \<Rightarrow> u8 list) \<Rightarrow> host \<Rightarrow> int list \<Rightarrow> (arr list \<times> nat) list \<Rightarrow> (nat \<Rightarrow> u8 list) \<Rightarrow> nat \<Rightarrow> u8 list" where
  "add_batches cs h lts xs bodies = (\<lambda>c. if c < length lts
     then bodies c @ concat (map (\<lambda>(b, n). img_bytes cs h (lts ! c) (b ! c)) xs) else bodies c)"

lemma stream_batches_ok:
  assumes run: "foldR (stream_batch io h ktn cs lts) (fls, cfs, sy, tot) (map Inr xs) = Inr (fls', cfs', sy', tot')"
    and inv: "dir_inv names lts man bodies (fls, cfs)" and names: "distinct (''.d'' # names)" "length lts = length names"
    and sy: "sc_inv (h_intern h) (h_deref h) sy" and world: "host_world h ktn"
    and xs: "list_all (batch_ok h (length names)) xs"
  shows "dir_inv names lts man (add_batches cs h lts xs bodies) (fls', cfs') \<and> sc_inv (h_intern h) (h_deref h) sy' \<and>
    tot' = tot + of_nat (sum_list (map snd xs)) \<and>
    (\<forall>x \<in> set xs. \<forall>c < length lts. imaged h (lts ! c) (fst x ! c) (snd x))"
  using run inv sy xs
proof (induction xs arbitrary: fls cfs sy tot bodies)
  case Nil
  have "add_batches cs h lts [] bodies = bodies"
    by (rule ext) (simp add: add_batches_def)
  with Nil show ?case
    by simp
next
  case (Cons x xs)
  obtain b nr where x: "x = (b, nr)" by (cases x)
  obtain st1 where st1: "stream_batch io h ktn cs lts (fls, cfs, sy, tot) (Inr (b, nr)) = Inr st1"
      "foldR (stream_batch io h ktn cs lts) st1 (map Inr xs) = Inr (fls', cfs', sy', tot')"
    using Cons.prems(1) by (auto simp: x rbind_Inr_iff)
  then obtain f1 c1 s1 where one: "foldR (stream_col io h ktn cs lts b nr) (fls, cfs, sy) [0..<length lts] = Inr (f1, c1, s1)"
      "foldR (stream_batch io h ktn cs lts) (f1, c1, s1, tot + of_nat nr) (map Inr xs) = Inr (fls', cfs', sy', tot')"
    by (auto simp: stream_batch_def[of _ _ _ _ _ "(fls, cfs, sy, tot)"] rbind_Inr_iff)
  have b: "batch_ok h (length names) (b, nr)" and rest: "list_all (batch_ok h (length names)) xs"
    using Cons.prems(4) by (simp_all add: x)
  have n: "length lts \<le> length names"
    using names(2) by simp
  note step = stream_cols_ok[OF one(1) Cons.prems(2) names(1) n Cons.prems(3) world b]
  have eq: "add_batches cs h lts ((b, nr) # xs) bodies = add_batches cs h lts xs (add_batch cs h lts (length lts) b bodies)"
    by (auto simp: add_batches_def add_batch_def)
  show ?case
    unfolding x eq using Cons.IH[OF one(2) conjunct1[OF step] conjunct1[OF conjunct2[OF step]] rest] step by simp
qed

section \<open>Row groups, counts and the whole directory\<close>

text \<open>The rows of column \<open>c\<close> over the row groups, as the store delivers them to Arrow.\<close>

definition stream_cells :: "'st world \<Rightarrow> src \<Rightarrow> int list \<Rightarrow> nat \<Rightarrow> nat \<Rightarrow> cell list" where
  "stream_cells wd s lts c n = concat (map (\<lambda>g. wd_acol wd s g c (lts ! c)) [0..<n])"

definition cells_bytes :: "(ptr \<Rightarrow> u8 list) \<Rightarrow> cell list \<Rightarrow> u8 list" where
  "cells_bytes cs cells = concat (map (cell_bytes cs) cells)"

lemma cells_bytes_append [simp]: "cells_bytes cs (a @ b) = cells_bytes cs a @ cells_bytes cs b"
  by (simp add: cells_bytes_def)

lemma cells_bytes_concat: "cells_bytes cs (concat xs) = concat (map (cells_bytes cs) xs)"
  by (induction xs) (simp_all add: cells_bytes_def)

lemma foldR_batches_Inr:
  "foldR (stream_batch io h ktn cs lts) st bs = Inr st' \<Longrightarrow> \<exists>xs. bs = map Inr xs"
proof (induction bs arbitrary: st)
  case (Cons b bs)
  then obtain st1 where "stream_batch io h ktn cs lts st b = Inr st1" "foldR (stream_batch io h ktn cs lts) st1 bs = Inr st'"
    by (auto simp: rbind_Inr_iff)
  moreover from this(1) obtain x where "b = Inr x"
    by (cases st) (auto simp: stream_batch_def rbind_Inr_iff ctx_Inr_iff)
  ultimately show ?case
    using Cons.IH by (metis list.simps(9))
qed simp

lemma batches_cells:
  assumes "world_batches h wd s g [0..<length lts] xs" "c < length lts"
    and "\<forall>x \<in> set xs. imaged h (lts ! c) (fst x ! c) (snd x)"
  shows "concat (map (\<lambda>(b, n). img_bytes cs h (lts ! c) (b ! c)) xs) = cells_bytes cs (wd_acol wd s g c (lts ! c)) \<and>
    length (wd_acol wd s g c (lts ! c)) = sum_list (map snd xs)"
proof -
  let ?img = "\<lambda>x. image (h_intern h) (h_deref h) (h_cast h) (lts ! c) (fst x ! c)"
  let ?v = "\<lambda>x. case ?img x of Inr v \<Rightarrow> v | Inl e \<Rightarrow> Pay8 []"
  have img: "?img x = Inr (?v x)" "payload_len (?v x) = snd x" if "x \<in> set xs" for x
    using assms(3) that by (auto simp: imaged_def)
  have "mapR ?img xs = Inr (map ?v xs)"
    using img(1) by (intro mapR_total) simp
  moreover have "(\<lambda>(b, n :: nat). image (h_intern h) (h_deref h) (h_cast h) (lts ! c) (b ! c)) = ?img"
    by (rule ext) (simp add: case_prod_beta)
  ultimately have run: "mapR (\<lambda>(b, n). image (h_intern h) (h_deref h) (h_cast h) (lts ! c) (b ! c)) xs = Inr (map ?v xs)"
    by (simp only:)
  have "\<forall>imgs. mapR (\<lambda>(b, n). image (h_intern h) (h_deref h) (h_cast h) (lts ! c) (b ! c)) xs = Inr imgs \<longrightarrow>
      concat (map pay_cells imgs) = wd_acol wd s g ([0..<length lts] ! c) (lts ! c)"
    using assms(1,2) unfolding world_batches_def by (simp only: length_upt) simp
  then have all: "concat (map pay_cells (map ?v xs)) = wd_acol wd s g c (lts ! c)"
    using run assms(2) by (simp del: map_map)
  have bytes: "cells_bytes cs (wd_acol wd s g c (lts ! c)) = concat (map (\<lambda>x. cells_bytes cs (pay_cells (?v x))) xs)"
    unfolding all[symmetric] by (simp add: cells_bytes_concat o_def)
  have img_bytes: "map (\<lambda>(b, n). img_bytes cs h (lts ! c) (b ! c)) xs = map (\<lambda>x. cells_bytes cs (pay_cells (?v x))) xs"
    by (intro map_cong refl) (simp add: img_bytes_def cells_bytes_def split_beta split: sum.split)
  have "map (payload_len \<circ> ?v) xs = map snd xs"
    using img(2) by (intro map_cong refl) simp
  then have "length (wd_acol wd s g c (lts ! c)) = sum_list (map snd xs)"
    unfolding all[symmetric] by (simp only: length_concat map_map) (simp only: o_def length_pay_cells)
  with bytes show ?thesis
    by (simp only: img_bytes)
qed

definition rg_bodies :: "(ptr \<Rightarrow> u8 list) \<Rightarrow> 'st world \<Rightarrow> src \<Rightarrow> int list \<Rightarrow> nat \<Rightarrow> nat \<Rightarrow> u8 list" where
  "rg_bodies cs wd s lts n = (\<lambda>c. if c < length lts then cells_bytes cs (stream_cells wd s lts c n) else [])"

lemma stream_rgs_ok:
  assumes run: "foldR (stream_rg so io h ktn cs s lts) (fls, cfs, sc_new, 0) [0..<n] = Inr (fls', cfs', sy', tot)"
    and inv: "dir_inv names lts man (\<lambda>c. []) (fls, cfs)" and names: "distinct (''.d'' # names)" "length lts = length names"
    and world: "host_world h ktn" "world_ok so h wd"
  shows "dir_inv names lts man (rg_bodies cs wd s lts n) (fls', cfs') \<and> sc_inv (h_intern h) (h_deref h) sy' \<and>
    (\<forall>c < length lts. of_nat (length (stream_cells wd s lts c n)) = tot) \<and>
    (\<forall>g < n. \<exists>xs. so_batches so s g [0..<length lts] = Inr (map Inr xs) \<and>
       (\<forall>x \<in> set xs. \<forall>c < length lts. imaged h (lts ! c) (fst x ! c) (snd x)))"
  using run
proof (induction n arbitrary: fls' cfs' sy' tot)
  case 0
  have "rg_bodies cs wd s lts 0 = (\<lambda>c. [])"
    by (rule ext) (simp add: rg_bodies_def stream_cells_def cells_bytes_def)
  with 0 show ?case
    using inv by (simp add: sc_new_inv stream_cells_def)
next
  case (Suc n)
  then obtain f1 c1 s1 t1 where one: "foldR (stream_rg so io h ktn cs s lts) (fls, cfs, sc_new, 0) [0..<n] = Inr (f1, c1, s1, t1)"
      "stream_rg so io h ktn cs s lts (f1, c1, s1, t1) n = Inr (fls', cfs', sy', tot)"
    by (auto simp: foldR_append rbind_Inr_iff)
  note ih = Suc.IH[OF one(1)]
  obtain bs where bs: "so_batches so s n [0..<length lts] = Inr bs"
      "foldR (stream_batch io h ktn cs lts) (f1, c1, s1, t1) bs = Inr (fls', cfs', sy', tot)"
    using one(2) by (auto simp: stream_rg_def rbind_Inr_iff ctx_Inr_iff)
  obtain xs where xs: "bs = map Inr xs"
    using foldR_batches_Inr[OF bs(2)] by blast
  have wb: "world_batches h wd s n [0..<length lts] xs"
    using world(2) bs(1) unfolding xs world_ok_def by blast
  have ok: "list_all (batch_ok h (length names)) xs"
    using wb names(2) unfolding world_batches_def list_all_iff batch_ok_def by fastforce
  note step = stream_batches_ok[OF bs(2)[unfolded xs] conjunct1[OF ih] names conjunct1[OF conjunct2[OF ih]] world(1) ok]
  have imgs: "\<forall>x \<in> set xs. imaged h (lts ! c) (fst x ! c) (snd x)" if "c < length lts" for c
    using step that by blast
  have "add_batches cs h lts xs (rg_bodies cs wd s lts n) = rg_bodies cs wd s lts (Suc n)"
    using batches_cells[OF wb _ imgs, of _ cs] by (intro ext) (simp add: add_batches_def rg_bodies_def stream_cells_def)
  moreover have "of_nat (length (stream_cells wd s lts c (Suc n))) = tot" if c: "c < length lts" for c
  proof -
    have "length (wd_acol wd s n c (lts ! c)) = sum_list (map snd xs)"
      using batches_cells[OF wb c imgs[OF c]] by blast
    then show ?thesis
      using ih step c by (simp add: stream_cells_def)
  qed
  moreover have "\<exists>xs. so_batches so s g [0..<length lts] = Inr (map Inr xs) \<and>
      (\<forall>x \<in> set xs. \<forall>c < length lts. imaged h (lts ! c) (fst x ! c) (snd x))" if g: "g < Suc n" for g
  proof (cases "g = n")
    case True
    then show ?thesis
      using bs(1) step unfolding xs by blast
  next
    case False
    then show ?thesis
      using ih g by (simp add: less_Suc_eq)
  qed
  ultimately show ?case
    using step by simp
qed

lemma patch_col_file:
  assumes "patch_col io lts cfs tot fls c = Inr fls'" "at_end fls (cfs ! c) p (splay_file (lts ! c) 0 body)"
  shows "fls' = fls(p \<mapsto> splay_file (lts ! c) tot body)"
  using assms patched[of "lts ! c" tot 0 body]
  by (cases "lts ! c = KS")
    (auto simp: patch_col_def patch_count_def f_write_def f_seek_def at_end_def ctx_Inr_iff rbind_Inr_iff split: option.splits)

text \<open>The counts, one column after the other.\<close>

lemma patch_cols_ok:
  assumes run: "foldR (patch_col io lts cfs tot) fls [0..<n] = Inr fls'" and n: "n \<le> length names"
    and inv: "dir_inv names lts man bodies (fls, cfs)" and names: "distinct (''.d'' # names)"
  shows "fls' ''.d'' = Some man \<and>
    (\<forall>c < length names. fls' (names ! c) = Some (splay_file (lts ! c) (if c < n then tot else 0) (bodies c)))"
  using run n
proof (induction n arbitrary: fls')
  case 0
  then show ?case
    using inv by (simp add: dir_inv_def at_end_def)
next
  case (Suc n)
  then obtain f1 where one: "foldR (patch_col io lts cfs tot) fls [0..<n] = Inr f1" "patch_col io lts cfs tot f1 n = Inr fls'"
    by (auto simp: foldR_append rbind_Inr_iff)
  have ih: "f1 ''.d'' = Some man"
      "\<forall>c < length names. f1 (names ! c) = Some (splay_file (lts ! c) (if c < n then tot else 0) (bodies c))"
    using Suc.IH[OF one(1)] Suc.prems(2) by auto
  have "at_end f1 (cfs ! n) (names ! n) (splay_file (lts ! n) 0 (bodies n))"
    using inv ih(2) Suc.prems(2) by (simp add: dir_inv_def at_end_def)
  from patch_col_file[OF one(2) this] have fls': "fls' = f1(names ! n \<mapsto> splay_file (lts ! n) tot (bodies n))" .
  have "names ! n \<noteq> ''.d''"
    using names Suc.prems(2) by (metis Suc_le_eq distinct.simps(2) nth_mem)
  moreover have "(names ! c = names ! n) = (c = n)" if "c < length names" for c
    using names Suc.prems(2) that by (simp add: nth_eq_iff_index_eq)
  ultimately show ?case
    using ih by (auto simp: fls' less_Suc_eq)
qed

lemma manifest_loads:
  "length names < 2 ^ 31 \<Longrightarrow> load_splay (manifest names) =
     (nat KS, length names, concat (map (\<lambda>n. bytes_of n @ [0]) names))"
  using load_splay_file[of KS "of_nat (length names)" "concat (map (\<lambda>n. bytes_of n @ [0]) names)"]
  by (simp add: manifest_def unat_of_nat_small)

lemma splay_files:
  assumes run: "stream_dir so io h ktn cs s names lts = Inr (fls, tot)"
    and names: "distinct (''.d'' # names)" "length lts = length names" "length names < 2 ^ 31"
    and world: "host_world h ktn" "world_ok so h wd"
  defines "n \<equiv> length (src_rg_rows s)"
  shows "fls ''.d'' = Some (manifest names) \<and>
    (\<forall>c < length names. fls (names ! c) = Some (splay_file (lts ! c) tot (rg_bodies cs wd s lts n c))) \<and>
    (\<forall>c < length names. of_nat (length (stream_cells wd s lts c n)) = tot) \<and>
    (\<forall>g < n. \<exists>xs. so_batches so s g [0..<length lts] = Inr (map Inr xs) \<and>
       (\<forall>x \<in> set xs. \<forall>c < length lts. imaged h (lts ! c) (fst x ! c) (snd x)))"
proof -
  obtain f0 f1 c1 f2 c2 sy where st: "write_manifest io names Map.empty = Inr f0"
      "foldR (create_col io lts) (f0, []) (enumerate 0 names) = Inr (f1, c1)"
      "foldR (stream_rg so io h ktn cs s lts) (f1, c1, sc_new, 0) [0..<n] = Inr (f2, c2, sy, tot)"
      "foldR (patch_col io lts c2 tot) f2 [0..<length lts] = Inr fls"
    using run by (auto simp: stream_dir_def rbind_Inr_iff n_def)
  have inv1: "dir_inv names lts (manifest names) (\<lambda>c. []) (f1, c1)"
    by (rule create_cols_ok[OF st(2) names(1) write_manifest_ok[OF st(1) names(3)]])
  note inv2 = stream_rgs_ok[OF st(3) inv1 names(1,2) world]
  have "fls ''.d'' = Some (manifest names)"
      "\<forall>c < length names. fls (names ! c) = Some (splay_file (lts ! c) tot (rg_bodies cs wd s lts n c))"
    using patch_cols_ok[OF st(4) _ conjunct1[OF inv2] names(1)] names(2) by auto
  then show ?thesis
    using conjunct2[OF conjunct2[OF inv2]] unfolding names(2) by blast
qed

lemma splay_loads:
  assumes run: "stream_dir so io h ktn cs s names lts = Inr (fls, tot)"
    and names: "distinct (''.d'' # names)" "length lts = length names" "length names < 2 ^ 31"
    and types: "set lts \<subseteq> L_TYPES" and world: "host_world h ktn" "world_ok so h wd"
    and rows: "\<forall>c < length names. length (stream_cells wd s lts c (length (src_rg_rows s))) < 2 ^ 31"
  shows "(\<exists>b. fls ''.d'' = Some b \<and> load_splay b = (nat KS, length names, concat (map (\<lambda>n. bytes_of n @ [0]) names))) \<and>
    (\<forall>c < length names. unat tot = length (stream_cells wd s lts c (length (src_rg_rows s))) \<and>
       (\<exists>b. fls (names ! c) = Some b \<and> load_splay b =
         (nat (lts ! c), unat tot, cells_bytes cs (stream_cells wd s lts c (length (src_rg_rows s))))))"
proof -
  let ?n = "length (src_rg_rows s)"
  note files = splay_files[OF run names world]
  have "unat tot = length (stream_cells wd s lts c ?n) \<and> (\<exists>b. fls (names ! c) = Some b \<and> load_splay b =
      (nat (lts ! c), unat tot, cells_bytes cs (stream_cells wd s lts c ?n)))" if c: "c < length names" for c
  proof -
    have few: "length (stream_cells wd s lts c ?n) < 2 ^ 31"
      using rows c by blast
    then have "length (stream_cells wd s lts c ?n) < 2 ^ LENGTH(64)"
      by (rule less_trans) simp
    moreover have "of_nat (length (stream_cells wd s lts c ?n)) = tot"
      using files c by blast
    ultimately have tot: "unat tot = length (stream_cells wd s lts c ?n)"
      using unat_of_nat_small by blast
    have "lts ! c \<in> L_TYPES"
      using types names(2) c by auto
    then have "0 \<le> lts ! c" "lts ! c < 65536"
      by (auto simp: L_TYPES_def)
    then show ?thesis
      using load_splay_file[of "lts ! c" tot] tot few files c names(2) by (simp add: rg_bodies_def)
  qed
  then show ?thesis
    using conjunct1[OF files] manifest_loads[OF names(3)] by blast
qed

lemma stream_replaced:
  assumes run: "stream_table so io h ktn cs os pid n parts fs dst0 fsys = (d, r)"
  defines "dst \<equiv> trim_end CHR ''/'' dst0"
  shows "(\<forall>fs' \<in> set d. fs' dst = fsys dst \<or> fs' dst = Option.bind (fsys dst) (os_remove os) \<or>
      (\<exists>lts fls tot. stream_dir so io h ktn cs (hd (fs_srcs fs)) (fs_names fs) lts = Inr (fls, tot) \<and>
         fs' dst = Some (NDir fls))) \<and>
    (case r of
       Inr tot \<Rightarrow> \<exists>lts fls. stream_checks fs dst0 fsys = Inr (lts, dst) \<and>
         stream_dir so io h ktn cs (hd (fs_srcs fs)) (fs_names fs) lts = Inr (fls, tot) \<and> last d dst = Some (NDir fls)
     | Inl e \<Rightarrow> os_rename os = None \<longrightarrow> last d dst = fsys dst)"
proof (cases "stream_checks fs dst0 fsys")
  case (Inl e)
  then show ?thesis
    using run by (auto simp: stream_table_def)
next
  case (Inr x)
  then obtain lts where x: "stream_checks fs dst0 fsys = Inr (lts, dst)"
    by (auto simp: stream_checks_def dst_def rbind_Inr_iff Let_def split: if_splits option.splits node.splits)
  let ?built = "stream_dir so io h ktn cs (hd (fs_srcs fs)) (fs_names fs) lts"
  let ?body = "rbind ?built (\<lambda>(fls, tot). Inr (NDir fls))"
  obtain u where pub: "publish os ''pq_stream'' dst (fst (scratch_new dst True pid n)) parts ?body fsys = (d, u)"
      and r: "r = rbind u (\<lambda>_. rbind ?built (\<lambda>(fls, tot). Inr tot))"
    using run by (auto simp: stream_table_def x Let_def split: prod.splits)
  have body: "\<exists>fls tot. ?built = Inr (fls, tot) \<and> c = NDir fls" if "?body = Inr c" for c
    using that by (auto simp: rbind_Inr_iff)
  have seen: "\<forall>fs' \<in> set d. fs' dst = fsys dst \<or> fs' dst = Option.bind (fsys dst) (os_remove os) \<or>
      (\<exists>lts fls tot. stream_dir so io h ktn cs (hd (fs_srcs fs)) (fs_names fs) lts = Inr (fls, tot) \<and> fs' dst = Some (NDir fls))"
    using publish_facts[OF pub] body by blast
  show ?thesis
  proof (cases u)
    case (Inr y)
    then obtain c where "?body = Inr c" "last d dst = Some c"
      using publish_facts[OF pub] by auto
    then show ?thesis
      using seen body[of c] x r Inr by auto
  next
    case (Inl e)
    have "last d dst = fsys dst" if "os_rename os = None"
      using publish_fails[OF pub[unfolded Inl]] publish_facts[OF pub] that Inl by auto
    then show ?thesis
      using seen r Inl by simp
  qed
qed

section \<open>Properties\<close>

text \<open>C6
  What \<^verbatim>\<open>pq_stream\<close> leaves is a splayed table a loader reads back: the manifest lists the
  columns in the file's order, and every column file has its type, the number of rows, and
  the rows of all row groups, in order, as the bytes of its elements. The count the header
  was written with is never what is loaded.
\<close>

theorem stream_splay_loads:
  assumes run: "stream_dir so io h ktn cs s names lts = Inr (fls, tot)"
    and names: "distinct (''.d'' # names)" "length lts = length names" "length names < 2 ^ 31"
    and types: "set lts \<subseteq> L_TYPES" and world: "host_world h ktn" "world_ok so h wd"
    and rows: "\<forall>c < length names. length (stream_cells wd s lts c (length (src_rg_rows s))) < 2 ^ 31"
  shows "(\<exists>b. fls ''.d'' = Some b \<and> load_splay b = (nat KS, length names, concat (map (\<lambda>n. bytes_of n @ [0]) names))) \<and>
    (\<forall>c < length names. unat tot = length (stream_cells wd s lts c (length (src_rg_rows s))) \<and>
       (\<exists>b. fls (names ! c) = Some b \<and> load_splay b =
         (nat (lts ! c), unat tot, cells_bytes cs (stream_cells wd s lts c (length (src_rg_rows s))))))"
  by (rule splay_loads[OF assms])

text \<open>One row group of two rows in one column of integers.\<close>

definition ex_io :: file_io where
  "ex_io = \<lparr>io_create = (\<lambda>p. None), io_write = (\<lambda>p n. None)\<rparr>"

definition ex_arr :: arr where
  "ex_arr = Arr64 Int64 [5, 6] None"

definition ex_batches :: "(chunk_rows \<times> i16) store" where
  "ex_batches = sample_store\<lparr>so_batches := (\<lambda>s g msk.
     if msk = [0] \<and> src_rg_rows s ! g = 2 then Inr [Inr ([ex_arr], 2)] else Inl ''no pages'')\<rparr>"

definition ex_rows :: "(chunk_rows \<times> i16) world" where
  "ex_rows = sample_world\<lparr>wd_acol := (\<lambda>s g c lt.
     case image (h_intern sample_host) (h_deref sample_host) (h_cast sample_host) lt ex_arr of
       Inr v \<Rightarrow> pay_cells v | Inl e \<Rightarrow> [])\<rparr>"

lemma ex_image: "prim_image signed_native [5, 6] None NJ 0 = [5, 6]"
  by (simp add: prim_image_def prim_row_def signed_native_def)

lemma ex_fill:
  "fill_col intern rd deref cast KJ (new_vec KJ 2) 0 ex_arr sc_new = Inr (Pay64 [5, 6], sc_new)"
  by (simp add: fill_col_def prim64_def ex_arr_def new_vec_def fill_prim_def signed_native_def write_at_def numeral_2_eq_2)

lemma ex_world: "world_ok ex_batches sample_host ex_rows" "host_world sample_host new_vec"
proof -
  have "world_batches sample_host ex_rows s g msk xs" if "so_batches ex_batches s g msk = Inr (map Inr xs)" for s g msk xs
  proof -
    have x: "msk = [0]" "src_rg_rows s ! g = 2" "xs = [([ex_arr], 2)]"
      using that by (auto simp: ex_batches_def map_eq_Cons_conv split: if_splits)
    show ?thesis
      unfolding world_batches_def x
      by (auto simp: ex_rows_def ex_arr_def rbind_Inr_iff nulls_ok_def)
  qed
  then show "world_ok ex_batches sample_host ex_rows"
    using sample_ok(1) by (simp add: world_ok_def ex_batches_def ex_rows_def)
  show "host_world sample_host new_vec"
    using sample_ok(1) new_vec_ok by (simp add: host_world_def world_ok_def)
qed

lemma ex_stream:
  "\<exists>fls. stream_dir ex_batches ex_io sample_host new_vec (\<lambda>p. []) sample_src [''p''] [KJ] = Inr (fls, 2)"
  by (simp add: stream_dir_def write_manifest_def create_col_def hdr_syms_def hdr_fixed_def f_create_def f_write_def
      ex_io_def stream_rg_def stream_batch_def stream_col_def ex_batches_def sample_store_def sample_src_def
      ex_fill[simplified] append_chunk_def patch_col_def patch_count_def f_seek_def)

theorem stream_splay_loads_witness:
  "\<exists>fls b. stream_dir ex_batches ex_io sample_host new_vec (\<lambda>p. []) sample_src [''p''] [KJ] = Inr (fls, 2) \<and>
     fls ''p'' = Some b \<and> load_splay b = (7, 2, to_le 8 5 @ to_le 8 6)"
proof -
  obtain fls where run: "stream_dir ex_batches ex_io sample_host new_vec (\<lambda>p. []) sample_src [''p''] [KJ] = Inr (fls, 2)"
    using ex_stream by blast
  have "stream_cells ex_rows sample_src [KJ] 0 1 = [C64 5, C64 6]"
    by (simp add: stream_cells_def ex_rows_def ex_arr_def image_def image64_def ex_image)
  then show ?thesis
    using stream_splay_loads[OF run _ _ _ _ ex_world(2,1)] run
    by (simp add: sample_src_def L_TYPES_def cells_bytes_def)
qed

text \<open>C25
  The target of \<^verbatim>\<open>pq_stream\<close> is replaced as a whole: nobody sees a table there that is not
  either the old one, what removing the old one leaves of it, or a directory whose every
  count is patched. The rows a success reports are the rows of the directory it leaves, and
  a destination that is refused or a file that does not stream leaves the target as it was.
\<close>

theorem stream_replaces:
  assumes run: "stream_table so io h ktn cs os pid n parts fs dst0 fsys = (d, r)"
  defines "dst \<equiv> trim_end CHR ''/'' dst0"
  shows "(\<forall>fs' \<in> set d. fs' dst = fsys dst \<or> fs' dst = Option.bind (fsys dst) (os_remove os) \<or>
      (\<exists>lts fls tot. stream_dir so io h ktn cs (hd (fs_srcs fs)) (fs_names fs) lts = Inr (fls, tot) \<and>
         fs' dst = Some (NDir fls))) \<and>
    (case r of
       Inr tot \<Rightarrow> \<exists>lts fls. stream_checks fs dst0 fsys = Inr (lts, dst) \<and>
         stream_dir so io h ktn cs (hd (fs_srcs fs)) (fs_names fs) lts = Inr (fls, tot) \<and> last d dst = Some (NDir fls)
     | Inl e \<Rightarrow> os_rename os = None \<longrightarrow> last d dst = fsys dst)"
  using stream_replaced[OF run] unfolding dst_def by blast

definition ex_set :: file_set where
  "ex_set = \<lparr>fs_srcs = [sample_src], fs_names = [''p''], fs_lts = [Inr KJ]\<rparr>"

definition ex_node_os :: "node os" where
  "ex_node_os = \<lparr>os_create = None, os_remove = (\<lambda>c. None), os_rename = None, os_cleanup = True\<rparr>"

lemma ex_set: "fs_srcs ex_set = [sample_src]" "fs_names ex_set = [''p'']"
  by (simp_all add: ex_set_def)

lemma stream_ex_checks: "stream_checks ex_set ''t/'' Map.empty = Inr ([KJ], ''t'')"
  by (simp add: stream_checks_def ex_set_def sample_src_def trim_end_def sum_i64_def)

theorem stream_replaces_witness:
  "\<exists>d fls. stream_table ex_batches ex_io sample_host new_vec (\<lambda>p. []) ex_node_os 7 0 [] ex_set ''t/'' Map.empty = (d, Inr 2) \<and>
     last d ''t'' = Some (NDir fls)"
proof -
  obtain fls where dir: "stream_dir ex_batches ex_io sample_host new_vec (\<lambda>p. []) sample_src [''p''] [KJ] = Inr (fls, 2)"
    using ex_stream by blast
  obtain d r where run:
    "stream_table ex_batches ex_io sample_host new_vec (\<lambda>p. []) ex_node_os 7 0 [] ex_set ''t/'' Map.empty = (d, r)"
    by fastforce
  moreover have "r = Inr 2"
    using run dir by (auto simp: stream_table_def stream_ex_checks ex_set publish_def scratch_new_def ex_node_os_def Let_def)
  ultimately show ?thesis
    using stream_replaces[OF run] by (auto simp: trim_end_def)
qed

text \<open>
  A column may be called like the manifest, or like another column: its file is then created
  over the other one, and the directory does not load.
\<close>

theorem dot_d_column_replaces_manifest:
  "\<exists>fls tot. stream_dir so ex_io h ktn cs (sample_src\<lparr>src_rg_rows := []\<rparr>) [''.d''] [KJ] = Inr (fls, tot) \<and>
     fls ''.d'' = Some (splay_file KJ 0 [])"
  using patched[of KJ 0 0 "[]"] overwrite_end[of "[]" "splay_file KJ 0 []"]
  by (simp add: stream_dir_def write_manifest_def create_col_def hdr_syms_def hdr_fixed_def f_create_def f_write_def
      ex_io_def patch_col_def patch_count_def f_seek_def splay_file_0)

end
