(* ===== verification/Entry.thy ===== *)
theory Entry
  imports Delivery Pool Table Stream
begin

text \<open>
  The five functions the host calls (\<^verbatim>\<open>pq_meta\<close>, \<^verbatim>\<open>pq_read\<close>, \<^verbatim>\<open>pq_rg\<close>, \<^verbatim>\<open>pq_write\<close>
  and \<^verbatim>\<open>pq_stream\<close> in \<^verbatim>\<open>src/src/lib.rs\<close>): the argument taken apart, the file set opened,
  and the reader, the writer or the stream run on it. What the components take from outside
  (the page decoder, the Parquet crate, the host's allocator and symbol table, the operating
  system) is gathered in one record per side.
\<close>

section \<open>The guard\<close>

datatype 'a host_ret = HVal 'a | HErr string

text \<open>None is a panic.\<close>

definition guard :: "'a outcome \<Rightarrow> 'a host_ret" where
  "guard r = (case r of
     None \<Rightarrow> HErr (err_text ''pq: internal panic'')
   | Some (Inl m) \<Rightarrow> HErr (err_text m)
   | Some (Inr k) \<Rightarrow> HVal k)"

section \<open>Reading\<close>

record 'st site =
  st_store :: "'st store"
  st_host :: host
  st_pages :: page_src
  st_new :: "int \<Rightarrow> nat \<Rightarrow> payload"
  st_vec :: "int \<Rightarrow> nat \<Rightarrow> kval"
  st_threads :: nat
  st_show :: "data_type \<Rightarrow> string"
  st_load :: "(string \<times> string) list \<Rightarrow> src result list option"

text \<open>The early return of an operation whose outcome is a relation.\<close>

definition and_then :: "'a result \<Rightarrow> ('a \<Rightarrow> 'b result \<Rightarrow> bool) \<Rightarrow> 'b result \<Rightarrow> bool" where
  "and_then x f r = (case x of Inl e \<Rightarrow> r = Inl e | Inr v \<Rightarrow> f v r)"

definition pq_meta :: "'st site \<Rightarrow> kval \<Rightarrow> kval result" where
  "pq_meta w x =
    (let who = ''pq_meta'' in
     rbind (files_of x who) (\<lambda>files. rbind (open_set (st_show w) (st_load w) files who) (dict (st_vec w))))"

definition pq_read :: "'st site \<Rightarrow> kval \<Rightarrow> rd_answer result \<Rightarrow> bool" where
  "pq_read w x =
    (let who = ''pq_read'' in
     and_then (read_args x who) (\<lambda>rq.
     and_then (open_set (st_show w) (st_load w) (rq_files rq) who) (\<lambda>fs.
     and_then (select fs (rq_want rq) who) (\<lambda>sl.
     read_set (st_store w) (st_host w) (st_pages w) (st_new w) (st_threads w) fs sl 0 (n_rg fs) (rq_codes rq) who))))"

definition rg_range :: "kval \<Rightarrow> kval \<Rightarrow> nat \<Rightarrow> string \<Rightarrow> (nat \<times> nat) result" where
  "rg_range x y n who =
    rbind (long_of x who) (\<lambda>lo. rbind (long_of y who) (\<lambda>hi.
      let ng = of_nat n :: i64 in
      if sint lo < 0 \<or> sint hi < sint lo \<or> sint ng < sint hi
      then Inl (who @ '': ['' @ show_int (sint lo) @ '','' @ show_int (sint hi) @ '') of '' @ show_int (sint ng) @ '' row groups'')
      else Inr (unat lo, unat hi)))"

definition pq_rg :: "'st site \<Rightarrow> kval \<Rightarrow> rd_answer result \<Rightarrow> bool" where
  "pq_rg w x =
    (let who = ''pq_rg''; n = kcount x in
     if ktype x \<noteq> 0 \<or> (n \<noteq> 4 \<and> n \<noteq> 5)
     then (\<lambda>r. r = Inl (who @ '': (files;cols;lo;hi) or (files;cols;lo;hi;opts) expected''))
     else
       and_then (rd_opts (if n = 5 then Some (elt x 4) else None) who) (\<lambda>opt.
       and_then (files_of (elt x 0) who) (\<lambda>files.
       and_then (open_set (st_show w) (st_load w) files who) (\<lambda>fs.
       and_then (cols_of (elt x 1) who) (\<lambda>want.
       and_then (select fs want who) (\<lambda>sl.
       and_then (rg_range (elt x 2) (elt x 3) (n_rg fs) who) (\<lambda>(lo, hi).
       read_set (st_store w) (st_host w) (st_pages w) (st_new w) (st_threads w) fs sl lo hi (opt_codes opt) who)))))))"

section \<open>Writing and streaming\<close>

text \<open>The file systems seen meanwhile, and the answer: the caller's path, or the number of rows.\<close>

definition pq_write ::
    "('w, 'lf, 'ch, 'f, 'c) crate \<Rightarrow> 'c os \<Rightarrow> nat \<Rightarrow> nat \<Rightarrow> nat \<Rightarrow> kval \<Rightarrow> 'c fsys \<Rightarrow> 'c fsys list \<times> kval result \<Rightarrow> bool" where
  "pq_write cr os pool pid n x fs out =
    (case write_args x of
       Inl e \<Rightarrow> out = ([fs], Inl e)
     | Inr (tbl, path, opts) \<Rightarrow> \<exists>d r. write_table cr os pool pid n tbl path opts fs (d, r) \<and>
         out = (d, rbind r (\<lambda>_. Inr (elt x 1))))"

definition pq_stream ::
    "'st site \<Rightarrow> file_io \<Rightarrow> (ptr \<Rightarrow> u8 list) \<Rightarrow> node os \<Rightarrow> nat \<Rightarrow> nat \<Rightarrow> node list \<Rightarrow> kval \<Rightarrow> node fsys \<Rightarrow>
      node fsys list \<times> kval result" where
  "pq_stream w io cs os pid n parts x fsys =
    (case rbind (stream_args x) (\<lambda>(path, dst).
        rbind (open_set (st_show w) (st_load w) [(path, path)] ''pq_stream'') (\<lambda>fs. Inr (fs, dst))) of
       Inl e \<Rightarrow> ([fsys], Inl e)
     | Inr (fs, dst) \<Rightarrow>
         let (d, r) = stream_table (st_store w) io (st_host w) (st_new w) cs os pid n parts fs dst fsys
         in (d, rbind r (\<lambda>tot. Inr (KAtom KJ tot))))"

section \<open>The caller's name in an error message does not matter to a success\<close>

lemma and_then_Inr: "and_then x f (Inr r) \<longleftrightarrow> (\<exists>v. x = Inr v \<and> f v (Inr r))"
  by (cases x) (simp_all add: and_then_def)

lemma mapR_who: "mapR f xs = Inr ys \<Longrightarrow> (\<And>x y. f x = Inr y \<Longrightarrow> g x = Inr y) \<Longrightarrow> mapR g xs = Inr ys"
  by (auto simp: mapR_Inr_iff list_all2_conv_all_nth)

lemma ptr_str_who: "ptr_str s who = Inr t \<Longrightarrow> ptr_str s who' = Inr t"
  by (simp add: ptr_str_def split: if_splits)

lemma syms_of_who: "syms_of x who what = Inr t \<Longrightarrow> syms_of x who' what = Inr t"
  by (cases x) (auto simp: syms_of_def rbind_Inr_iff mapR_Inr_iff ptr_str_Inr_iff Let_def
      split: if_splits elim!: list_all2_mono)

lemma files_of_who: "files_of x who = Inr t \<Longrightarrow> files_of x who' = Inr t"
  by (auto simp: files_of_def rbind_Inr_iff dest: syms_of_who)

lemma cols_of_who: "cols_of x who = Inr t \<Longrightarrow> cols_of x who' = Inr t"
  by (auto simp: cols_of_def rbind_Inr_iff dest: syms_of_who)

lemma open_set_who: "open_set shw load_all files who = Inr fs \<Longrightarrow> open_set shw load_all files who' = Inr fs"
  by (auto simp: open_set_def result_simps Let_def split: if_splits list.splits)

lemma select_who:
  assumes "select fs want who = Inr sl"
  shows "select fs want who' = Inr sl"
proof -
  have "resolve fs want who' = Inr out" if "resolve fs want who = Inr out" for out
    using that by (auto simp: resolve_def ok_or_Inr_iff split: option.splits elim!: mapR_who)
  with assms show ?thesis
    by (simp add: select_Inr_iff)
qed

section \<open>Consecutive windows\<close>

lemma in_window_past: "b \<le> k \<Longrightarrow> in_window a b k xs = []"
proof (induction xs arbitrary: k)
  case (Cons x xs)
  then show ?case by (cases x) simp
qed simp

lemma in_window_split:
  assumes "a \<le> b" "b \<le> c"
  shows "in_window a c k xs = in_window a b k xs @ in_window b c k xs"
proof (induction xs arbitrary: k)
  case (Cons x xs)
  obtain f i rows where x: "x = (f, i, rows)"
    by (cases x)
  show ?case
  proof (cases "b \<le> k")
    case True
    then show ?thesis
      using assms in_window_past[of b k a "x # xs"] in_window_past[of b "Suc k" a xs] Cons.IH[of "Suc k"] by (simp add: x)
  next
    case False
    then show ?thesis
      using assms Cons.IH[of "Suc k"] by (simp add: x)
  qed
qed simp

lemma true_total_window: "true_total (in_window a b k xs) \<le> true_total xs"
proof (induction xs arbitrary: k)
  case (Cons x xs)
  obtain f i rows where x: "x = (f, i, rows)"
    by (cases x)
  show ?case
    using Cons.IH[of "Suc k"] by (simp add: x true_total_def)
qed (simp add: true_total_def)

text \<open>The rows of a window in a result column, row group after row group.\<close>

definition window_cells :: "'st world \<Rightarrow> file_set \<Rightarrow> sel \<Rightarrow> nat \<Rightarrow> nat \<Rightarrow> nat \<Rightarrow> cell list" where
  "window_cells wd fs sl g0 g1 q =
     concat (map (\<lambda>(f, g, rows). file_rows wd fs sl q f g (unat rows)) (in_window g0 g1 0 (flat_rgs fs)))"

lemma window_cells_split:
  "a \<le> b \<Longrightarrow> b \<le> c \<Longrightarrow> window_cells wd fs sl a c q = window_cells wd fs sl a b q @ window_cells wd fs sl b c q"
  by (simp add: window_cells_def in_window_split[of a b c])

lemma map_lay: "map (\<lambda>(f, i, o1, n). F f i n) (lay off xs) = map (\<lambda>(f, i, rows). F f i (unat rows)) xs"
  by (induction off xs rule: lay.induct) auto

lemma tiles_concat:
  assumes "tiles off rgs tot" "length xs = tot"
    and "\<forall>(f, g, o1, n) \<in> set rgs. take n (drop o1 xs) = F f g n"
  shows "drop off xs = concat (map (\<lambda>(f, g, o1, n). F f g n) rgs)"
  using assms
proof (induction off rgs tot rule: tiles.induct)
  case (1 off tot)
  then show ?case by simp
next
  case (2 off f i o1 n rgs tot)
  have "drop off xs = take n (drop off xs) @ drop (off + n) xs"
    by (metis add.commute append_take_drop_id drop_drop)
  then show ?case
    using 2 by simp
qed

lemma ans_cells_plain: "ans_cells h (answer h fs sl False st) q = pay_cells (fst st ! q)"
  by (cases st) (simp add: ans_cells_def answer_def Let_def)

lemma read_window_cells:
  assumes "world_ok so h wd" "kt_ok ktn" "set_agrees shw fs" "select fs want who = Inr sl"
    and small: "true_total (flat_rgs fs) < 2 ^ 64"
    and run: "read_set so h ps ktn nthreads fs sl g0 g1 False who (Inr ans)"
  shows "ans_names ans = map (\<lambda>c. h_intern h (bytes_of (fs_names fs ! c))) (sel_out sl) \<and>
    (\<forall>q < length (sel_out sl). ans_cells h ans q = window_cells wd fs sl g0 g1 q)"
proof -
  obtain rgs tw where w: "window fs g0 g1 = (rgs, tw)"
    by fastforce
  have few: "true_total (in_window g0 g1 0 (flat_rgs fs)) < 2 ^ 64"
    using small true_total_window by (rule le_less_trans[rotated])
  have plans: "small_plan cd" if "plans h ps fs rgs sl False who = Inr cds" "q < length cds" "cds ! q = Some cd" for cds q cd
    using that by (auto simp: plans_def)
  obtain st where st: "tiles 0 rgs (unat tw)" "ans = answer h fs sl False st"
      "\<forall>q < length (sel_out sl). payload_len (fst st ! q) = unat tw \<and> snd st ! q = None \<and> col_right h wd fs sl rgs st q"
    using read_rows[OF assms(1-4) w few _ run] plans by blast
  have "ans_cells h ans q = window_cells wd fs sl g0 g1 q" if q: "q < length (sel_out sl)" for q
  proof -
    have "\<forall>(f, g, o1, n) \<in> set rgs. take n (drop o1 (ans_cells h ans q)) = file_rows wd fs sl q f g n"
      using st(3) q ans_cells_answer[of q sl False st] unfolding st(2) col_right_def by fastforce
    moreover have "length (ans_cells h ans q) = unat tw"
      using st(3) q by (simp add: st(2) ans_cells_plain)
    ultimately have "drop 0 (ans_cells h ans q) = concat (map (\<lambda>(f, g, o1, n). file_rows wd fs sl q f g n) rgs)"
      by (rule tiles_concat[OF st(1), rotated])
    moreover have "rgs = lay 0 (in_window g0 g1 0 (flat_rgs fs))"
      using w by (simp add: window_lay)
    ultimately show ?thesis
      using map_lay[of "file_rows wd fs sl q" 0 "in_window g0 g1 0 (flat_rgs fs)"] by (simp add: window_cells_def)
  qed
  then show ?thesis
    by (simp add: st(2) ans_names_answer)
qed

text \<open>A site whose parts keep their promises.\<close>

definition site_ok :: "'st site \<Rightarrow> 'st world \<Rightarrow> bool" where
  "site_ok w wd \<longleftrightarrow> world_ok (st_store w) (st_host w) wd \<and> kt_ok (st_new w) \<and>
     (\<forall>files out. st_load w files = Some out \<longrightarrow> length out = length files)"

definition rows_fit :: "'st site \<Rightarrow> kval \<Rightarrow> bool" where
  "rows_fit w f \<longleftrightarrow> (\<forall>files fs. files_of f ''pq_rg'' = Inr files \<longrightarrow>
     open_set (st_show w) (st_load w) files ''pq_rg'' = Inr fs \<longrightarrow> true_total (flat_rgs fs) < 2 ^ 64 \<and> n_rg fs < 2 ^ 63)"

lemma opened_agrees: "site_ok w wd \<Longrightarrow> open_set (st_show w) (st_load w) files who = Inr fs \<Longrightarrow> set_agrees (st_show w) fs"
  using open_set_Inr[of "st_show w" "st_load w" files who fs] by (auto simp: site_ok_def set_agrees_def)

definition rg_arg :: "kval \<Rightarrow> kval \<Rightarrow> i64 \<Rightarrow> i64 \<Rightarrow> kval" where
  "rg_arg f c lo hi = KList [f, c, KAtom KJ lo, KAtom KJ hi]"

lemma nonneg_sint: "0 \<le> sint (x :: i64) \<Longrightarrow> int (unat x) = sint x"
proof -
  assume "0 \<le> sint x"
  moreover have "sint x < 2 ^ 63"
    using sint_lt[of x] by simp
  moreover have "uint x = take_bit 64 (sint x)"
    using uint_word_of_int[of "sint x", where 'a = 64] by (simp add: take_bit_eq_mod)
  ultimately show ?thesis
    by (simp add: take_bit_eq_mod)
qed

lemma rg_range_Inr:
  assumes "rg_range (KAtom KJ lo) (KAtom KJ hi) n who = Inr (a, b)" "n < 2 ^ 63"
  shows "a = unat lo \<and> b = unat hi \<and> a \<le> b \<and> b \<le> n"
proof -
  have r: "0 \<le> sint lo" "sint lo \<le> sint hi" "sint hi \<le> sint (of_nat n :: i64)" "a = unat lo" "b = unat hi"
    using assms(1) by (auto simp: rg_range_def long_of_def katom_i64_def int_atom_def rbind_Inr_iff ok_or_Inr_iff Let_def
        split: if_splits)
  have "sint (of_nat n :: i64) = int n"
    using assms(2) sint_of_int_fits[of "int n", where 'a = 64] by (simp add: fits_signed_def)
  moreover have "int (unat x) = sint x" if "0 \<le> sint x" for x :: i64
    using that by (rule nonneg_sint)
  ultimately show ?thesis
    using r by (metis nat_le_iff of_nat_le_iff order_trans)
qed

lemma pq_rg_run:
  assumes run: "pq_rg w (rg_arg f c lo hi) (Inr ans)" and fit: "rows_fit w f"
  shows "\<exists>files fs want sl. files_of f ''pq_rg'' = Inr files \<and>
    open_set (st_show w) (st_load w) files ''pq_rg'' = Inr fs \<and> cols_of c ''pq_rg'' = Inr want \<and> select fs want ''pq_rg'' = Inr sl \<and>
    unat lo \<le> unat hi \<and> unat hi \<le> n_rg fs \<and> true_total (flat_rgs fs) < 2 ^ 64 \<and>
    read_set (st_store w) (st_host w) (st_pages w) (st_new w) (st_threads w) fs sl (unat lo) (unat hi) False ''pq_rg'' (Inr ans)"
proof -
  obtain files fs want sl a b where r: "files_of f ''pq_rg'' = Inr files"
      "open_set (st_show w) (st_load w) files ''pq_rg'' = Inr fs" "cols_of c ''pq_rg'' = Inr want" "select fs want ''pq_rg'' = Inr sl"
      "rg_range (KAtom KJ lo) (KAtom KJ hi) (n_rg fs) ''pq_rg'' = Inr (a, b)"
      "read_set (st_store w) (st_host w) (st_pages w) (st_new w) (st_threads w) fs sl a b False ''pq_rg'' (Inr ans)"
    using run by (auto simp: pq_rg_def rg_arg_def ktype_def rd_opts_def and_then_Inr Let_def)
  have "true_total (flat_rgs fs) < 2 ^ 64" "n_rg fs < 2 ^ 63"
    using fit r(1,2) by (auto simp: rows_fit_def)
  then show ?thesis
    using r rg_range_Inr[OF r(5)] by blast
qed

lemma pq_rg_cells:
  assumes run: "pq_rg w (rg_arg f c lo hi) (Inr ans)" and ok: "site_ok w wd" and fit: "rows_fit w f"
  shows "\<exists>files fs want sl. files_of f ''pq_rg'' = Inr files \<and>
    open_set (st_show w) (st_load w) files ''pq_rg'' = Inr fs \<and> cols_of c ''pq_rg'' = Inr want \<and> select fs want ''pq_rg'' = Inr sl \<and>
    unat lo \<le> unat hi \<and> unat hi \<le> n_rg fs \<and>
    ans_names ans = map (\<lambda>c. h_intern (st_host w) (bytes_of (fs_names fs ! c))) (sel_out sl) \<and>
    (\<forall>q < length (sel_out sl). ans_cells (st_host w) ans q = window_cells wd fs sl (unat lo) (unat hi) q)"
proof -
  obtain files fs want sl where r: "files_of f ''pq_rg'' = Inr files"
      "open_set (st_show w) (st_load w) files ''pq_rg'' = Inr fs" "cols_of c ''pq_rg'' = Inr want" "select fs want ''pq_rg'' = Inr sl"
      "unat lo \<le> unat hi" "unat hi \<le> n_rg fs" "true_total (flat_rgs fs) < 2 ^ 64"
      "read_set (st_store w) (st_host w) (st_pages w) (st_new w) (st_threads w) fs sl (unat lo) (unat hi) False ''pq_rg'' (Inr ans)"
    using pq_rg_run[OF run fit] by blast
  then show ?thesis
    using read_window_cells[OF _ _ opened_agrees[OF ok r(2)] r(4,7,8)] ok unfolding site_ok_def by blast
qed

section \<open>A sample site\<close>

definition ex_site :: "(chunk_rows \<times> i16) site" where
  "ex_site = \<lparr>st_store = sample_store, st_host = sample_host, st_pages = sample_pages, st_new = new_vec, st_vec = ex_ktn,
     st_threads = 1, st_show = (\<lambda>t. []), st_load = (\<lambda>fs. Some (map (\<lambda>f. Inr sample_src) fs))\<rparr>"

lemma ex_site_ok: "site_ok ex_site sample_world"
  using sample_ok(1) new_vec_ok by (simp add: site_ok_def ex_site_def)

lemma ex_open: "open_set (st_show ex_site) (st_load ex_site) [(s, p)] who = Inr sample_set"
  by (simp add: open_set_def sample_set_def sample_src_def lts_of_def ex_site_def Let_def)

lemma ex_files: "files_of (KSym ''t'') who = Inr [(''t'', ''t'')]"
  by (simp add: files_of_def syms_of_def ptr_str_def utf8_ok_def path_of_def)

lemma ex_cols: "cols_of (KSym []) who = Inr None"
  by (simp add: cols_of_def syms_of_def ptr_str_def utf8_ok_def)

lemma ex_fit: "rows_fit ex_site (KSym ''t'')"
  by (simp add: rows_fit_def ex_files ex_open true_total_def flat_rgs_def n_rg_def)
    (simp add: sample_set_def sample_src_def)

lemma ex_rg: "pq_rg ex_site (rg_arg (KSym ''t'') (KSym []) 0 1) (Inr (RdTable [number_intern [116]] [Pay64 [1000, NJ]]))"
proof -
  have "rg_range (KAtom KJ 0) (KAtom KJ 1) (n_rg sample_set) who = Inr (0, 1)" for who
    by (simp add: rg_range_def long_of_def katom_i64_def int_atom_def n_rg_def sample_set_def sample_src_def)
  then show ?thesis
    using sample_read[of sample_pages "''pq_rg''"]
    by (simp add: pq_rg_def rg_arg_def ktype_def rd_opts_def and_then_Inr ex_files ex_open ex_cols sample_ok(3) Let_def)
      (simp add: ex_site_def)
qed

lemma ex_read: "pq_read ex_site (KList [KSym ''t'', KSym []]) (Inr (RdTable [number_intern [116]] [Pay64 [1000, NJ]]))"
proof -
  have "n_rg sample_set = 1"
    by (simp add: n_rg_def sample_set_def sample_src_def)
  then show ?thesis
    using sample_read[of sample_pages "''pq_read''"]
    by (simp add: pq_read_def read_args_def ktype_def rd_opts_def and_then_Inr ex_files ex_open ex_cols sample_ok(3) Let_def)
      (simp add: ex_site_def)
qed

text \<open>A window of no row groups.\<close>

lemma ex_rg_none: "pq_rg ex_site (rg_arg (KSym ''t'') (KSym []) 0 0) (Inr (RdTable [number_intern [116]] [Pay64 []]))"
proof -
  have "rg_range (KAtom KJ 0) (KAtom KJ 0) (n_rg sample_set) who = Inr (0, 0)" for who
    by (simp add: rg_range_def long_of_def katom_i64_def int_atom_def n_rg_def sample_set_def sample_src_def)
  moreover have w: "window sample_set 0 0 = ([], 0)"
    by (simp add: window_def window_step_def flat_rgs_def sample_set_def sample_src_def)
  have "reread so h new_vec sample_set 1 sample_sel [] 0 who [False] [0..<length (sel_out sample_sel)]
      ([Pay64 []], [None]) (Inr ([Pay64 []], [None]))" for so :: "(chunk_rows \<times> i16) store" and h who
    by (auto simp: sample_sel_def gave_up_def intro!: reread.intros)
  then have "read_set sample_store sample_host sample_pages new_vec 1 sample_set sample_sel 0 0 False who
      (Inr (RdTable [number_intern [116]] [Pay64 []]))" for who
    unfolding read_set_def w
    by (auto simp: plans_def sample_sel_def tasks_of_def fresh_cols_def col_lt_def new_vec_def answer_def sample_host_def
        sample_set_def bytes_of_def intro!: exI[of _ "Inr ([Pay64 []], [False])"] exI[of _ "Inr ([Pay64 []], [None])"] decode.none)
  ultimately show ?thesis
    by (simp add: pq_rg_def rg_arg_def ktype_def rd_opts_def and_then_Inr ex_files ex_open ex_cols sample_ok(3) Let_def)
      (simp add: ex_site_def)
qed

section \<open>Properties\<close>

text \<open>C4
  Reading a file in pieces is reading it: the row groups \<open>[lo, mid)\<close> and then \<open>[mid, hi)\<close> of
  \<^verbatim>\<open>pq_rg\<close> are, column by column and row by row, the row groups \<open>[lo, hi)\<close>, under the same
  names. The threads of each call and their interleaving, and the files a window spans, make
  no difference.
\<close>

theorem row_group_reads_add_up:
  assumes ok: "site_ok w wd" "rows_fit w f"
    and a: "pq_rg w (rg_arg f c lo mid) (Inr a)" and b: "pq_rg w (rg_arg f c mid hi) (Inr b)"
    and ab: "pq_rg w (rg_arg f c lo hi) (Inr ab)"
  shows "ans_names a = ans_names ab \<and> ans_names b = ans_names ab \<and>
    (\<forall>q < length (ans_names ab). ans_cells (st_host w) ab q = ans_cells (st_host w) a q @ ans_cells (st_host w) b q)"
proof -
  obtain files fs want sl where o: "files_of f ''pq_rg'' = Inr files"
      "open_set (st_show w) (st_load w) files ''pq_rg'' = Inr fs" "cols_of c ''pq_rg'' = Inr want" "select fs want ''pq_rg'' = Inr sl"
      and na: "ans_names a = map (\<lambda>c. h_intern (st_host w) (bytes_of (fs_names fs ! c))) (sel_out sl)"
      and ca: "unat lo \<le> unat mid" "\<forall>q < length (sel_out sl). ans_cells (st_host w) a q = window_cells wd fs sl (unat lo) (unat mid) q"
    using pq_rg_cells[OF a ok] by blast
  have cb: "ans_names b = ans_names a" "unat mid \<le> unat hi"
      "\<forall>q < length (sel_out sl). ans_cells (st_host w) b q = window_cells wd fs sl (unat mid) (unat hi) q"
    using pq_rg_cells[OF b ok] by (auto simp: o na)
  have cab: "ans_names ab = ans_names a"
      "\<forall>q < length (sel_out sl). ans_cells (st_host w) ab q = window_cells wd fs sl (unat lo) (unat hi) q"
    using pq_rg_cells[OF ab ok] by (auto simp: o na)
  have "length (ans_names ab) = length (sel_out sl)"
    by (simp add: cab(1) na)
  then show ?thesis
    using ca cb cab window_cells_split[OF ca(1) cb(2), of wd fs sl] by simp
qed

theorem row_group_reads_add_up_witness:
  "ans_cells (st_host ex_site) (RdTable [number_intern [116]] [Pay64 [1000, NJ]]) 0 =
   ans_cells (st_host ex_site) (RdTable [number_intern [116]] [Pay64 []]) 0 @
   ans_cells (st_host ex_site) (RdTable [number_intern [116]] [Pay64 [1000, NJ]]) 0"
  using row_group_reads_add_up[OF ex_site_ok ex_fit ex_rg_none ex_rg ex_rg] by (simp add: ans_names_def)

text \<open>C27
  \<^verbatim>\<open>pq_read\<close> of files and columns is \<^verbatim>\<open>pq_rg\<close> over all their row groups, and a range
  of row groups that \<^verbatim>\<open>pq_rg\<close> answers at all is in order and inside the set.
\<close>

theorem read_is_every_row_group:
  assumes ok: "site_ok w wd" "rows_fit w f"
    and whole: "pq_read w (KList [f, c]) (Inr ans)" and part: "pq_rg w (rg_arg f c lo hi) (Inr ans')"
  shows "\<exists>files fs. files_of f ''pq_rg'' = Inr files \<and> open_set (st_show w) (st_load w) files ''pq_rg'' = Inr fs \<and>
    unat lo \<le> unat hi \<and> unat hi \<le> n_rg fs \<and> ans_names ans' = ans_names ans \<and>
    (unat lo = 0 \<and> unat hi = n_rg fs \<longrightarrow>
      (\<forall>q < length (ans_names ans). ans_cells (st_host w) ans' q = ans_cells (st_host w) ans q))"
proof -
  obtain files fs want sl where o: "files_of f ''pq_rg'' = Inr files"
      "open_set (st_show w) (st_load w) files ''pq_rg'' = Inr fs" "cols_of c ''pq_rg'' = Inr want" "select fs want ''pq_rg'' = Inr sl"
      and na: "ans_names ans' = map (\<lambda>c. h_intern (st_host w) (bytes_of (fs_names fs ! c))) (sel_out sl)"
      and ca: "unat lo \<le> unat hi" "unat hi \<le> n_rg fs"
        "\<forall>q < length (sel_out sl). ans_cells (st_host w) ans' q = window_cells wd fs sl (unat lo) (unat hi) q"
    using pq_rg_cells[OF part ok] by blast
  have args: "read_args (KList [f, c]) ''pq_read'' = Inr \<lparr>rq_files = files, rq_want = want, rq_codes = False\<rparr>"
    using files_of_who[OF o(1), of "''pq_read''"] cols_of_who[OF o(3), of "''pq_read''"]
    by (simp add: read_args_def ktype_def rd_opts_def)
  have run: "read_set (st_store w) (st_host w) (st_pages w) (st_new w) (st_threads w) fs sl 0 (n_rg fs) False ''pq_read'' (Inr ans)"
    using whole open_set_who[OF o(2), of "''pq_read''"] select_who[OF o(4), of "''pq_read''"]
    by (simp add: pq_read_def args and_then_Inr Let_def)
  have fit: "true_total (flat_rgs fs) < 2 ^ 64"
    using ok(2) o(1,2) by (auto simp: rows_fit_def)
  have cw: "ans_names ans = ans_names ans'"
      "\<forall>q < length (sel_out sl). ans_cells (st_host w) ans q = window_cells wd fs sl 0 (n_rg fs) q"
    using read_window_cells[OF _ _ opened_agrees[OF ok(1) o(2)] select_who[OF o(4)] fit run] ok(1) na
    by (auto simp: site_ok_def)
  have "length (ans_names ans) = length (sel_out sl)"
    by (simp add: cw(1) na)
  then show ?thesis
    using o(1,2) ca cw by auto
qed

theorem read_is_every_row_group_witness:
  "unat (1 :: i64) \<le> n_rg sample_set \<and>
   pq_read ex_site (KList [KSym ''t'', KSym []]) (Inr (RdTable [number_intern [116]] [Pay64 [1000, NJ]])) \<and>
   pq_rg ex_site (rg_arg (KSym ''t'') (KSym []) 0 1) (Inr (RdTable [number_intern [116]] [Pay64 [1000, NJ]]))"
  using read_is_every_row_group[OF ex_site_ok ex_fit ex_read ex_rg] ex_read ex_rg by (auto simp: ex_files ex_open)

end
