(* ===== verification/RoundTrip.thy ===== *)
theory RoundTrip
  imports Entry
begin

text \<open>
  \<^verbatim>\<open>pq_write\<close> followed by \<^verbatim>\<open>pq_read\<close>, through both halves of the library: the
  checks, the row groups, the queue and the replacement on one side, the file set, the
  projection, the window and the decode pool on the other. What lies between them, the Parquet
  crate, is asked for one thing: that its readers deliver what its writers were given.
\<close>

section \<open>What the file holds\<close>

definition rg_len :: "table_req \<Rightarrow> nat \<Rightarrow> nat" where
  "rg_len tr g = (let rg = op_rg (sp_opts (tr_spec tr)) in min rg (tr_nrows tr - g * rg))"

definition rg_at :: "table_req \<Rightarrow> nat \<Rightarrow> nat" where
  "rg_at tr g = g * op_rg (sp_opts (tr_spec tr))"

text \<open>
  The file's schema has the advertised fields, a string field possibly under the dictionary
  type the footer loader asks for. Its row groups have the rows of the tasks; a column chunk
  decodes, on the Arrow path, to an array that converts like the one the writer was given, and
  on the zero-copy path to its rows.
\<close>

definition field_held :: "kval \<Rightarrow> string \<times> data_type \<Rightarrow> fld \<Rightarrow> bool" where
  "field_held col mf f \<longleftrightarrow> f_name f = fst mf \<and>
     (f_type f = snd mf \<or> ktype col = KS \<and> f_type f = Dictionary Int32 Utf8)"

definition chunk_held :: "host \<Rightarrow> 'st world \<Rightarrow> src \<Rightarrow> nat \<Rightarrow> nat \<Rightarrow> arr \<times> string list \<Rightarrow> bool" where
  "chunk_held h wd s g c x \<longleftrightarrow>
     (\<forall>lt p. image (h_intern h) (\<lambda>_. Inr (map (Some \<circ> bytes_of) (snd x))) (h_cast h) lt (fst x) = Inr p \<longrightarrow>
       wd_acol wd s g c lt = pay_cells p) \<and>
     (\<forall>l. leaf_at s c = Some l \<longrightarrow> wd_chunk wd s g l = stored (fst x))"

definition file_holds :: "host \<Rightarrow> 'st world \<Rightarrow> table_req \<Rightarrow> src \<Rightarrow> bool" where
  "file_holds h wd tr s \<longleftrightarrow>
     length (fst (ft_schema (src_md s))) = length (tr_cols tr) \<and>
     (\<forall>c < length (tr_cols tr). field_held (tr_cols tr ! c) (sp_mf (tr_spec tr) ! c) (fst (ft_schema (src_md s)) ! c)) \<and>
     src_rg_rows s = map (\<lambda>g. of_nat (rg_len tr g)) [0..<table_nrg tr] \<and>
     (\<forall>g < table_nrg tr. \<forall>c < length (tr_cols tr). \<forall>x.
        col_to_arrow (g * length (tr_cols tr) + c) (tr_cols tr ! c) (rg_at tr g) (rg_len tr g) = Inr x \<longrightarrow>
        chunk_held h wd s g c x)"

text \<open>
  The crate keeps a table when the file it closes after writing the table's chunks one by one
  opens as such a source.
\<close>

definition keeps_table ::
    "('w, 'lf, 'ch, 'f, 'c) crate \<Rightarrow> nat \<Rightarrow> kval \<Rightarrow> kval option \<Rightarrow> host \<Rightarrow> 'st world \<Rightarrow> ('c \<Rightarrow> src) \<Rightarrow> bool" where
  "keeps_table cr pool tbl opts h wd src_of \<longleftrightarrow>
     (\<forall>tr f f' c. table_checks cr tbl opts = Inr tr \<longrightarrow> cr_new cr (tr_spec tr) = Inr f \<longrightarrow>
        serial_write (cr_lib cr (tr_spec tr)) (table_job pool tr) f = Inr f' \<longrightarrow> cr_close cr f' = Inr c \<longrightarrow>
        file_holds h wd tr (src_of c))"

text \<open>The table is a host value: its vectors have the elements of their type, below the host's limit.\<close>

definition table_ok :: "kval \<Rightarrow> bool" where
  "table_ok tbl \<longleftrightarrow> (\<forall>c < kcount (table_names tbl). let col = elt (dict_vals (table_dict tbl)) c in
     typed col \<and> kcount col < 2 ^ 31)"

section \<open>The row groups of one file\<close>

lemma in_window_all:
  assumes "\<forall>(f, g, rows) \<in> set xs. 0 < sint rows" "k + length xs \<le> b"
  shows "in_window 0 b k xs = xs"
  using assms
proof (induction xs arbitrary: k)
  case (Cons x xs)
  then show ?case
    by (cases x) simp
qed simp

lemma flat_one: "flat_rgs \<lparr>fs_srcs = [s], fs_names = ns, fs_lts = lts\<rparr> = map (\<lambda>(i, rows). (0, i, rows)) (enumerate 0 (src_rg_rows s))"
  by (simp add: flat_rgs_def)

lemma enumerate_rows: "enumerate 0 (map r [0..<n]) = map (\<lambda>g. (g, r g)) [0..<n]"
  by (rule nth_equalityI) (simp_all add: nth_enumerate_eq)

lemma rg_len_bounds: "g < table_nrg tr \<Longrightarrow> 0 < op_rg (sp_opts (tr_spec tr)) \<Longrightarrow> 0 < rg_len tr g \<and> rg_len tr g \<le> tr_nrows tr"
proof -
  let ?rg = "op_rg (sp_opts (tr_spec tr))" and ?n = "tr_nrows tr"
  assume g: "g < table_nrg tr" and rg: "0 < ?rg"
  have "g * ?rg < ?n"
  proof (rule ccontr)
    assume "\<not> g * ?rg < ?n"
    then have "?n \<le> g * ?rg"
      by simp
    then have "(?n + ?rg - 1) div ?rg \<le> (g * ?rg + ?rg - 1) div ?rg"
      by (intro div_le_mono) simp
    also have "(g * ?rg + ?rg - 1) div ?rg = g"
      using rg by (intro div_nat_eqI) (simp_all add: mult.commute)
    finally show False
      using g by (simp add: table_nrg_def div_ceil_def)
  qed
  with rg show ?thesis
    by (simp add: rg_len_def Let_def)
qed

lemma small_rows: "n < 2 ^ 31 \<Longrightarrow> unat (of_nat n :: i64) = n \<and> sint (of_nat n :: i64) = int n"
  by (simp add: unat_of_nat_small signed_of_nat signed_take_bit_int_eq_self)

text \<open>The window over everything, row group by row group.\<close>

lemma one_file_cells:
  assumes fs: "fs = \<lparr>fs_srcs = [s], fs_names = ns, fs_lts = lts\<rparr>"
    and rows: "src_rg_rows s = map (\<lambda>g. of_nat (r g)) [0..<n]" and r: "\<forall>g < n. 0 < r g \<and> r g < 2 ^ 31"
  shows "window_cells wd fs sl 0 (n_rg fs) q = concat (map (\<lambda>g. file_rows wd fs sl q 0 g (r g)) [0..<n])"
proof -
  let ?xs = "map (\<lambda>g. (0 :: nat, g, of_nat (r g) :: i64)) [0..<n]"
  have flat: "flat_rgs fs = ?xs"
    by (simp add: fs flat_one rows enumerate_rows)
  have "n_rg fs = n"
    by (simp add: fs n_rg_def rows)
  moreover have "in_window 0 n 0 ?xs = ?xs"
    using r small_rows by (intro in_window_all) auto
  moreover have "map (\<lambda>(f, g, rows). file_rows wd fs sl q f g (unat rows)) ?xs = map (\<lambda>g. file_rows wd fs sl q 0 g (r g)) [0..<n]"
    using r small_rows by simp
  ultimately show ?thesis
    unfolding window_cells_def flat by (simp only:)
qed

section \<open>A chunk read back\<close>

lemma arrow_type_flag: "t \<noteq> KS \<Longrightarrow> arrow_type t False = arrow_type t True"
  by (simp add: arrow_type_def)

lemma field_type:
  assumes "field_held col (nm, m) f" "arrow_type (ktype col) True = Inr w" "arrow_type (ktype col) False = Inr m"
  shows "f_type f = w \<or> ktype col = KS \<and> f_type f \<in> {Utf8, Dictionary Int32 Utf8}"
proof (cases "ktype col = KS")
  case True
  then show ?thesis
    using assms(1,3) by (auto simp: field_held_def arrow_type_def)
next
  case False
  then show ?thesis
    using assms(1) assms(2,3)[folded arrow_type_flag[OF False]] by (auto simp: field_held_def)
qed

lemma col_to_arrow_symbols: "col_to_arrow a col off n = Inr (arr, vals) \<Longrightarrow> ktype col = KS \<Longrightarrow> arr_type arr = Dictionary Int32 Utf8"
  by (cases col) (auto simp: col_to_arrow_def ktype_def Let_def split: if_splits prod.splits)

lemma raw_not_string: "raw_of Utf8 pt = None" "raw_of (Dictionary k v) pt = None"
  by (simp_all add: raw_of_def)

text \<open>Whichever way the column is read, its rows are the rows the writer kept.\<close>

lemma chunk_rows_kept:
  assumes held: "chunk_held h wd s g c (arr, vals)" and col: "col_to_arrow a col off n = Inr (arr, vals)"
    and ty: "typed col" "n < 2 ^ 31"
    and f: "field_held col mf (fst (ft_schema (src_md s)) ! c)" "arrow_type (ktype col) False = Inr (snd mf)"
    and sl: "fs_srcs fs = [s]" "q < length (sel_out sl)" "sel_out sl ! q = c" "sel_lts sl ! q = back_type (ktype col)"
      "sel_raw sl ! q = raw_scan c 0 None [s]"
    and full: "length (pay_cells (kept (h_intern h) (rows_of col off n))) = n"
  shows "file_rows wd fs sl q 0 g n = pay_cells (kept (h_intern h) (rows_of col off n))"
proof -
  let ?img = "image (h_intern h) (\<lambda>_. Inr (map (Some \<circ> bytes_of) vals)) (h_cast h) (back_type (ktype col)) arr"
  have rt: "?img = Inr (kept (h_intern h) (rows_of col off n))" "arrow_type (ktype col) True = Inr (arr_type arr)"
    using col_to_arrow_image[OF col ty(2,1), of "\<lambda>_. Inr (map (Some \<circ> bytes_of) vals)" "h_intern h" "h_cast h"] by simp_all
  show ?thesis
  proof (cases "raw_scan c 0 None [s]")
    case None
    have "wd_acol wd s g c (back_type (ktype col)) = pay_cells (kept (h_intern h) (rows_of col off n))"
      using held rt(1) unfolding chunk_held_def by fastforce
    with None sl show ?thesis
      by (simp add: file_rows_def Let_def)
  next
    case (Some r)
    then obtain l where l: "leaf_at s c = Some l" "raw_of (col_type s c) (ld_phys (leaf_of s l)) = Some r"
      using raw_scan_agree[of c "[s]" r s] by auto
    have "col_type s c = arr_type arr"
      using field_type[of col "fst mf" "snd mf" "fst (ft_schema (src_md s)) ! c" "arr_type arr"] f rt(2) l(2) raw_not_string
      by (auto simp: col_type_def)
    then have "raw_image r (back_type (ktype col)) (stored arr) = kept (h_intern h) (rows_of col off n)"
      using raw_image_stored[OF _ rt(2,1)] l(2) by simp
    moreover have "wd_chunk wd s g l = stored arr"
      using held l(1) by (simp add: chunk_held_def)
    ultimately show ?thesis
      using Some l(1) sl full by (simp add: file_rows_def Let_def)
  qed
qed

text \<open>A chunk of a finished file was encoded.\<close>

lemma chunk_encoded:
  assumes "serial_write L jb f = Inr f'" "g < jb_nrg jb" "c < ncols jb"
  shows "\<exists>x. col_to_arrow (g * ncols jb + c) (jb_cols jb ! c) (g * jb_rg jb) (min (jb_rg jb) (jb_nrows jb - g * jb_rg jb)) = Inr x"
proof -
  obtain ch where "serial_task L jb (g * ncols jb + c) = Inr ch"
    using col_ok[OF assms] by blast
  moreover have "(g * ncols jb + c) div ncols jb = g" "(g * ncols jb + c) mod ncols jb = c"
    using assms(3) by simp_all
  ultimately show ?thesis
    by (auto simp: serial_task_def encode_def rbind_Inr_iff Let_def split: option.splits if_splits)
qed

section \<open>The file opened\<close>

lemma table_rows_small:
  assumes chk: "table_checks cr tbl opts = Inr tr" and ok: "table_ok tbl"
  shows "tr_nrows tr < 2 ^ 31" "0 < op_rg (sp_opts (tr_spec tr))"
    "length (tr_cols tr) = kcount (table_names tbl)"
    "q < length (tr_cols tr) \<Longrightarrow> tr_cols tr ! q = elt (dict_vals (table_dict tbl)) q \<and> typed (tr_cols tr ! q) \<and>
       kcount (tr_cols tr ! q) = tr_nrows tr \<and> fst (sp_mf (tr_spec tr) ! q) = key_at (table_names tbl) q \<and>
       (\<exists>w. arrow_type (ktype (tr_cols tr ! q)) True = Inr w) \<and>
       arrow_type (ktype (tr_cols tr ! q)) False = Inr (snd (sp_mf (tr_spec tr) ! q))"
proof -
  obtain ops where t: "parse_opts (cr_zstd cr) (cr_gzip cr) opts = Inr ops"
      "tr_cols tr = map (elt (dict_vals (table_dict tbl))) [0..<kcount (table_names tbl)]"
      "tr_nrows tr = (if tr_cols tr = [] then 0 else kcount (hd (tr_cols tr)))"
      "spec_ok (table_names tbl) (tr_nrows tr) ops (tr_cols tr) (tr_spec tr)"
    using table_checks_Inr[OF chk] by blast
  show len: "length (tr_cols tr) = kcount (table_names tbl)"
    by (simp add: t(2))
  have col: "tr_cols tr ! c = elt (dict_vals (table_dict tbl)) c" "typed (tr_cols tr ! c)" "kcount (tr_cols tr ! c) < 2 ^ 31"
    if "c < length (tr_cols tr)" for c
    using ok that len by (simp_all add: table_ok_def t(2) Let_def)
  show "tr_nrows tr < 2 ^ 31"
    using t(3) col(3)[of 0] by (cases "tr_cols tr") auto
  show "0 < op_rg (sp_opts (tr_spec tr))"
    using t(4) parse_opts_rg[OF t(1)] by (simp add: spec_ok_def)
  assume q: "q < length (tr_cols tr)"
  have "map fst (sp_mf (tr_spec tr)) = map (key_at (table_names tbl)) [0..<length (tr_cols tr)]" "length (sp_mf (tr_spec tr)) = length (tr_cols tr)"
    using t(4) by (simp_all add: spec_ok_def)
  then have "fst (sp_mf (tr_spec tr) ! q) = key_at (table_names tbl) q"
    using q by (metis nth_map nth_map_upt add_0 diff_zero)
  then show "tr_cols tr ! q = elt (dict_vals (table_dict tbl)) q \<and> typed (tr_cols tr ! q) \<and>
       kcount (tr_cols tr ! q) = tr_nrows tr \<and> fst (sp_mf (tr_spec tr) ! q) = key_at (table_names tbl) q \<and>
       (\<exists>w. arrow_type (ktype (tr_cols tr ! q)) True = Inr w) \<and>
       arrow_type (ktype (tr_cols tr ! q)) False = Inr (snd (sp_mf (tr_spec tr) ! q))"
    using t(4) q col[OF q] by (auto simp: spec_ok_def)
qed

lemma one_file_set:
  assumes "open_set shw load_all files who = Inr fs" "load_all files = Some [Inr s]"
  shows "fs = \<lparr>fs_srcs = [s], fs_names = map f_name (fst (ft_schema (src_md s))), fs_lts = lts_of shw (fst (ft_schema (src_md s)))\<rparr>"
  using assms by (auto simp: open_set_def Let_def rbind_Inr_iff split: if_splits)

lemma lts_of_Inr: "c < length fs \<Longrightarrow> lts_of shw fs ! c = Inr t \<Longrightarrow> l_type_of shw (f_type (fs ! c)) = Inr t"
  by (simp add: lts_of_def split: sum.splits)

lemma held_l_type:
  assumes "field_held col mf f" "arrow_type (ktype col) False = Inr (snd mf)" "l_type_of shw (f_type f) = Inr t"
  shows "t = back_type (ktype col)"
proof -
  have "l_type_of shw (snd mf) = Inr (back_type (ktype col))"
    using arrow_type_round[OF assms(2), of shw] by (simp add: back_type_def)
  moreover have "back_type (ktype col) = KS" if "ktype col = KS"
    using that by (simp add: back_type_def)
  ultimately show ?thesis
    using assms(1,3) by (auto simp: field_held_def)
qed

lemma few_rows:
  assumes n: "tr_nrows tr < 2 ^ 31" and rg: "0 < op_rg (sp_opts (tr_spec tr))"
    and fs: "flat_rgs fs = map (\<lambda>g. (0, g, of_nat (rg_len tr g))) [0..<table_nrg tr]"
  shows "true_total (flat_rgs fs) < 2 ^ 64"
proof -
  have len: "rg_len tr g \<le> tr_nrows tr" if "g < table_nrg tr" for g
    using rg_len_bounds[OF that rg] ..
  have "unat (of_nat (rg_len tr g) :: i64) \<le> tr_nrows tr" if "g < table_nrg tr" for g
    using len[OF that] small_rows[of "rg_len tr g"] n by simp
  then have "true_total (flat_rgs fs) \<le> (\<Sum>g \<leftarrow> [0..<table_nrg tr]. tr_nrows tr)"
    unfolding fs true_total_def by (auto simp: comp_def intro!: sum_list_mono)
  also have "\<dots> = table_nrg tr * tr_nrows tr"
    by (simp add: sum_list_triv)
  also have "\<dots> \<le> tr_nrows tr * tr_nrows tr"
  proof -
    let ?n = "tr_nrows tr" and ?rg = "op_rg (sp_opts (tr_spec tr))"
    have "?n * 1 \<le> ?n * ?rg"
      using rg by (intro mult_le_mono2) simp
    then have "?n + ?rg - 1 < (?n + 1) * ?rg"
      using rg unfolding add_mult_distrib by linarith
    then have "(?n + ?rg - 1) div ?rg < ?n + 1"
      by (rule less_mult_imp_div_less)
    then show ?thesis
      by (simp add: table_nrg_def div_ceil_def)
  qed
  also have "\<dots> \<le> 2 ^ 31 * 2 ^ 31"
    using n by (intro mult_le_mono) simp_all
  finally show ?thesis
    by simp
qed

section \<open>The read of a written file\<close>

text \<open>A column of the opened file, all its row groups together.\<close>

lemma column_back:
  assumes chk: "table_checks cr tbl opts = Inr tr" and tbl: "table_ok tbl"
    and ser: "serial_write L (table_job pool tr) f0 = Inr f1" and held: "file_holds h wd tr s"
    and fs: "fs = \<lparr>fs_srcs = [s], fs_names = map f_name (fst (ft_schema (src_md s))), fs_lts = lts_of shw (fst (ft_schema (src_md s)))\<rparr>"
    and sl: "select fs None who = Inr sl" and q: "q < length (tr_cols tr)"
  shows "window_cells wd fs sl 0 (n_rg fs) q = pay_cells (kept (h_intern h) (tr_cols tr ! q))"
proof -
  let ?col = "tr_cols tr ! q" and ?n = "length (tr_cols tr)"
  note small = table_rows_small(1,2)[OF chk tbl]
  have col: "typed ?col" "kcount ?col = tr_nrows tr" "arrow_type (ktype ?col) False = Inr (snd (sp_mf (tr_spec tr) ! q))"
      "\<exists>w. arrow_type (ktype ?col) True = Inr w"
    using table_rows_small(4)[OF chk tbl q] by blast+
  have schema: "length (fst (ft_schema (src_md s))) = ?n" and f: "field_held ?col (sp_mf (tr_spec tr) ! q) (fst (ft_schema (src_md s)) ! q)"
    and rows: "src_rg_rows s = map (\<lambda>g. of_nat (rg_len tr g)) [0..<table_nrg tr]"
    using held q by (simp_all add: file_holds_def)
  have out: "sel_out sl = [0..<?n]" and ok: "sel_ok fs sl"
    using sl schema by (auto simp: select_Inr_iff resolve_def fs)
  have sel: "sel_out sl ! q = q" "q < length (sel_out sl)" "sel_raw sl ! q = raw_scan q 0 None [s]"
    using out ok q by (simp_all add: sel_ok_def fs del: raw_scan.simps)
  have "lts_of shw (fst (ft_schema (src_md s))) ! q = Inr (sel_lts sl ! q)"
    using ok sel by (auto simp: sel_ok_def fs)
  then have "l_type_of shw (f_type (fst (ft_schema (src_md s)) ! q)) = Inr (sel_lts sl ! q)"
    using q schema by (intro lts_of_Inr) simp_all
  then have lt: "sel_lts sl ! q = back_type (ktype ?col)"
    by (rule held_l_type[OF f col(3)])
  have len: "0 < rg_len tr g \<and> rg_len tr g < 2 ^ 31" if "g < table_nrg tr" for g
    using rg_len_bounds[OF that small(2)] small(1) by linarith
  obtain w where w: "arrow_type (ktype ?col) True = Inr w"
    using col by blast
  have "file_rows wd fs sl q 0 g (rg_len tr g) = pay_cells (kept (h_intern h) (rows_of ?col (rg_at tr g) (rg_len tr g)))"
    if g: "g < table_nrg tr" for g
  proof -
    obtain arr vals where x: "col_to_arrow (g * ?n + q) ?col (rg_at tr g) (rg_len tr g) = Inr (arr, vals)"
      using chunk_encoded[OF ser, of g q] g q by (auto simp: table_job_def ncols_def rg_at_def rg_len_def Let_def)
    have src: "fs_srcs fs = [s]"
      by (simp add: fs)
    have c: "chunk_held h wd s g q (arr, vals)"
      using held g q x by (simp add: file_holds_def)
    have "length (pay_cells (kept (h_intern h) (rows_of ?col (rg_at tr g) (rg_len tr g)))) = rg_len tr g"
    proof -
      have "g * op_rg (sp_opts (tr_spec tr)) + rg_len tr g \<le> tr_nrows tr"
        using len[OF g] unfolding rg_len_def Let_def by linarith
      then show ?thesis
        using pay_cells_kept_slice[OF w, of "h_intern h" "rg_at tr g" "rg_len tr g"] col by (simp add: slice_def rg_at_def)
    qed
    then show ?thesis
      by (rule chunk_rows_kept[OF c x col(1) conjunct2[OF len[OF g]] f col(3) src sel(2,1) lt sel(3)])
  qed
  then have "map (\<lambda>g. file_rows wd fs sl q 0 g (rg_len tr g)) [0..<table_nrg tr] =
      map (\<lambda>g. pay_cells (kept (h_intern h) (rows_of ?col (rg_at tr g) (rg_len tr g)))) [0..<table_nrg tr]"
    by (intro map_cong) simp_all
  moreover have "window_cells wd fs sl 0 (n_rg fs) q = concat (map (\<lambda>g. file_rows wd fs sl q 0 g (rg_len tr g)) [0..<table_nrg tr])"
    using len by (intro one_file_cells[OF fs rows]) simp
  ultimately have "window_cells wd fs sl 0 (n_rg fs) q =
      concat (map (\<lambda>g. pay_cells (kept (h_intern h) (rows_of ?col (rg_at tr g) (rg_len tr g)))) [0..<table_nrg tr])"
    by (simp only:)
  also have "\<dots> = pay_cells (kept (h_intern h) ?col)"
    using row_groups_whole[OF chk q, of "h_intern h" pool] col by (simp add: rg_at_def rg_len_def table_job_def Let_def)
  finally show ?thesis .
qed

lemma written_file_read:
  assumes run: "write_table cr os pool pid n tbl path opts fsys (d, Inr ())"
    and tbl: "table_ok tbl" and keeps: "keeps_table cr pool tbl opts (st_host w) wd src_of" and site: "site_ok w wd"
    and files: "files_of f ''pq_read'' = Inr files" and there: "\<forall>c. last d path = Some c \<longrightarrow> st_load w files = Some [Inr (src_of c)]"
    and read: "pq_read w (KList [f, KSym []]) (Inr ans)"
  shows "ans_names ans = map (\<lambda>c. h_intern (st_host w) (bytes_of (key_at (table_names tbl) c))) [0..<kcount (table_names tbl)] \<and>
    (\<forall>q < kcount (table_names tbl). ans_cells (st_host w) ans q = pay_cells (kept (h_intern (st_host w)) (elt (dict_vals (table_dict tbl)) q)))"
proof -
  obtain tr f0 f1 c where chk: "table_checks cr tbl opts = Inr tr" and new: "cr_new cr (tr_spec tr) = Inr f0"
      and ser: "serial_write (cr_lib cr (tr_spec tr)) (table_job pool tr) f0 = Inr f1"
      and close: "cr_close cr f1 = Inr c" "last d path = Some c"
    using write_table_file[OF run] by blast
  let ?s = "src_of c" and ?h = "st_host w"
  have held: "file_holds ?h wd tr ?s"
    using keeps chk new ser close(1) unfolding keeps_table_def by blast
  have load: "st_load w files = Some [Inr ?s]"
    using there close(2) by blast
  obtain fs sl where fs: "open_set (st_show w) (st_load w) files ''pq_read'' = Inr fs" and sl: "select fs None ''pq_read'' = Inr sl"
      and rd: "read_set (st_store w) ?h (st_pages w) (st_new w) (st_threads w) fs sl 0 (n_rg fs) False ''pq_read'' (Inr ans)"
    using read files by (auto simp: pq_read_def read_args_def ktype_def rd_opts_def and_then_Inr ex_cols Let_def)
  note one = one_file_set[OF fs load] and small = table_rows_small[OF chk tbl]
  have schema: "length (fst (ft_schema (src_md ?s))) = length (tr_cols tr)"
    and rows: "src_rg_rows ?s = map (\<lambda>g. of_nat (rg_len tr g)) [0..<table_nrg tr]"
    and fields: "\<forall>c < length (tr_cols tr). field_held (tr_cols tr ! c) (sp_mf (tr_spec tr) ! c) (fst (ft_schema (src_md ?s)) ! c)"
    using held by (simp_all add: file_holds_def)
  have out: "sel_out sl = [0..<length (tr_cols tr)]"
    using sl schema by (auto simp: select_Inr_iff resolve_def one)
  have "flat_rgs fs = map (\<lambda>g. (0, g, of_nat (rg_len tr g))) [0..<table_nrg tr]"
    by (simp add: one flat_one rows enumerate_rows)
  then have few: "true_total (flat_rgs fs) < 2 ^ 64"
    by (rule few_rows[OF small(1,2)])
  have cells: "ans_names ans = map (\<lambda>c. h_intern ?h (bytes_of (fs_names fs ! c))) (sel_out sl)"
      "\<forall>q < length (sel_out sl). ans_cells ?h ans q = window_cells wd fs sl 0 (n_rg fs) q"
    using read_window_cells[OF _ _ opened_agrees[OF site fs] sl few rd] site by (auto simp: site_ok_def)
  have "fs_names fs ! c = key_at (table_names tbl) c" if "c < length (tr_cols tr)" for c
    using fields that small(4)[OF that] schema by (simp add: one field_held_def)
  then have "ans_names ans = map (\<lambda>c. h_intern ?h (bytes_of (key_at (table_names tbl) c))) [0..<length (tr_cols tr)]"
    using cells(1) out by simp
  moreover have "ans_cells ?h ans q = pay_cells (kept (h_intern ?h) (elt (dict_vals (table_dict tbl)) q))" if "q < length (tr_cols tr)" for q
    using cells(2) column_back[OF chk tbl ser held one sl that] small(4)[OF that] out that by simp
  ultimately show ?thesis
    using small(3) by simp
qed

section \<open>A table and its file\<close>

definition rt_table :: kval where
  "rt_table = KTable (KDict (KSyms [''t'']) (KList [KVec64 KP [1000, NJ]]))"

definition rt_arr :: arr where
  "rt_arr = fst (case col_to_arrow 0 (KVec64 KP [1000, NJ]) 0 2 of Inr x \<Rightarrow> x | Inl e \<Rightarrow> (ArrBool [] None, []))"

definition rt_world :: "(chunk_rows \<times> i16) world" where
  "rt_world = sample_world\<lparr>wd_acol := (\<lambda>s g c lt. case image number_intern (\<lambda>_. Inr []) (\<lambda>a dt. Inl []) lt rt_arr of
     Inr p \<Rightarrow> pay_cells p | Inl e \<Rightarrow> [])\<rparr>"

lemma rt_world_ok: "site_ok ex_site rt_world"
  using ex_site_ok by (simp add: site_ok_def rt_world_def world_ok_def ex_site_def sample_store_def sample_world_def)

lemma stored_prim:
  assumes "col_prim s sh valid = (v, nb)"
  shows "stored_rows v nb = map (\<lambda>x. if valid x then Some (x + sh) else None) s"
proof -
  have v: "v = map (\<lambda>x. x + sh) s" "nb = map_option (\<lambda>b. bit_chunks b (length s)) (null_bits s valid)"
    using assms by (simp_all add: col_prim_eq)
  have "(if case nb of None \<Rightarrow> True | Some nb \<Rightarrow> nb_valid nb i then Some (v ! i) else None) = (if valid (s ! i) then Some (s ! i + sh) else None)"
    if "i < length s" for i
    using that unfolding v written_valid[OF that, of valid] by simp
  then have "stored_rows v nb = map (\<lambda>i. if valid (s ! i) then Some (s ! i + sh) else None) [0..<length s]"
    unfolding stored_rows_def by (intro map_cong) (simp_all add: v(1))
  then show ?thesis
    by (simp only:) (intro nth_equalityI; simp)
qed

lemma rt_arr: "col_to_arrow a (KVec64 KP [1000, NJ]) 0 2 = Inr (rt_arr, [])" "stored rt_arr = sample_rows s g l"
proof -
  show "col_to_arrow a (KVec64 KP [1000, NJ]) 0 2 = Inr (rt_arr, [])"
    by (simp add: rt_arr_def col_to_arrow_def ktype_def split_beta)
  obtain v nb where p: "col_prim (slice 0 2 [1000, NJ]) NS2000
      (\<lambda>x. x \<noteq> NJ \<and> sint x \<le> sint (0x7FFFFFFFFFFFFFFF - NS2000)) = (v, nb)"
    by fastforce
  have arr: "rt_arr = Arr64 (Timestamp Nanosecond None) v nb"
    using p by (simp add: rt_arr_def col_to_arrow_def ktype_def)
  have "stored_rows v nb = [Some 946684800000001000, None]"
  proof -
    have "slice 0 2 [1000, NJ] = [1000, NJ]"
      by (simp add: slice_def)
    then show ?thesis
      unfolding stored_prim[OF p] by (simp add: NJ_def NS2000_def)
  qed
  then show "stored rt_arr = sample_rows s g l"
    unfolding stored_def arr by (simp add: sample_rows_def)
qed

definition rt_req :: table_req where
  "rt_req = (case table_checks ex_crate rt_table None of Inr tr \<Rightarrow> tr | Inl e \<Rightarrow> ex_req)"

lemma rt_checks: "table_checks ex_crate rt_table None = Inr rt_req"
  "tr_cols rt_req = [KVec64 KP [1000, NJ]]" "tr_nrows rt_req = 2" "op_rg (sp_opts (tr_spec rt_req)) = ROW_GROUP"
  "sp_mf (tr_spec rt_req) = [(''t'', Timestamp Nanosecond None)]"
proof -
  have "utf8_ok ''t''"
    by (rule utf8_ascii) simp
  then have "\<exists>tr. table_checks ex_crate rt_table None = Inr tr \<and> tr_cols tr = [KVec64 KP [1000, NJ]] \<and> tr_nrows tr = 2 \<and>
      op_rg (sp_opts (tr_spec tr)) = ROW_GROUP \<and> sp_mf (tr_spec tr) = [(''t'', Timestamp Nanosecond None)]"
    by (simp add: table_checks_def ex_crate_def parse_opts_def opts_default_def rt_table_def ktype_def field_step_def spec_start_def
      arrow_type_def width_def numeral_2_eq_2 Let_def)
  then show "table_checks ex_crate rt_table None = Inr rt_req"
    "tr_cols rt_req = [KVec64 KP [1000, NJ]]" "tr_nrows rt_req = 2" "op_rg (sp_opts (tr_spec rt_req)) = ROW_GROUP"
    "sp_mf (tr_spec rt_req) = [(''t'', Timestamp Nanosecond None)]"
    by (auto simp: rt_req_def)
qed

lemma rt_groups: "table_nrg rt_req = 1" "rg_len rt_req 0 = 2" "rg_at rt_req 0 = 0" "0 < ntasks (table_job 4 rt_req)"
  by (simp_all add: table_nrg_def rg_len_def rg_at_def rt_checks ROW_GROUP_def div_ceil_def table_job_def ntasks_def ncols_def)

lemma rt_serial: "serial_write ex_lib (table_job 4 rt_req) [] = Inr [[[rt_arr]]]"
proof -
  have "table_job 4 rt_req = \<lparr>jb_cols = [KVec64 KP [1000, NJ]], jb_nrows = 2, jb_rg = ROW_GROUP, jb_nrg = 1,
      jb_window = table_window 4 rt_req\<rparr>"
    by (simp add: table_job_def rt_checks rt_groups)
  then show ?thesis
    using rt_arr(1)[of 0]
    by (simp add: serial_write_def serial_upto_def serial_group_def serial_cols_def serial_task_def encode_def
      ex_lib_def ncols_def ROW_GROUP_def)
qed

lemma rt_keeps: "keeps_table ex_crate 4 rt_table None sample_host rt_world (\<lambda>c. sample_src)"
proof -
  have "file_holds sample_host rt_world rt_req sample_src"
    unfolding file_holds_def rt_groups rt_checks
    using rt_arr by (auto simp: rt_groups chunk_held_def field_held_def sample_src_def rt_world_def sample_host_def sample_world_def)
  then show ?thesis
    by (auto simp: keeps_table_def rt_checks(1))
qed

lemma rt_args: "write_args (KList [rt_table, KSym ''t'']) = Inr (rt_table, ''t'', None)"
  by (simp add: write_args_def sym_path_def ptr_path_def ktype_def ptr_str_def utf8_ok_def path_of_def)

lemma rt_write: "\<exists>d. pq_write ex_crate ex_file_os 4 7 0 (KList [rt_table, KSym ''t'']) Map.empty (d, Inr (KSym ''t''))"
proof -
  obtain d where "write_table ex_crate ex_file_os 4 7 0 rt_table ''t'' None Map.empty (d, Inr ())"
    using ex_crate_writes[OF rt_checks(1) rt_groups(4) rt_serial] by blast
  then show ?thesis
    unfolding pq_write_def rt_args by fastforce
qed

section \<open>Properties\<close>

text \<open>C1
  A table written by \<^verbatim>\<open>pq_write\<close> is the table \<^verbatim>\<open>pq_read\<close> answers for the file left at its
  path: the same column names in the same order, and in every column the rows that were given
  to the writer, whole and in order, whatever the row-group size, the number of writing and
  reading threads, their interleaving and the path a column is decoded on. What a column cannot
  carry is stated by \<open>kept\<close>: a boolean is normalised, a NaN is the one null, a datetime comes
  back as a timestamp, an epoch shift that overflows and a symbol that is not UTF-8 as the
  null. The crate is asked only that its readers deliver what its writers were given.
\<close>

theorem written_table_reads_back:
  assumes "pq_write cr os pool pid n x fsys (d, Inr ret)" "write_args x = Inr (tbl, path, opts)" "table_ok tbl"
    and "keeps_table cr pool tbl opts (st_host w) wd src_of" "site_ok w wd"
    and "files_of f ''pq_read'' = Inr files" "\<forall>c. last d path = Some c \<longrightarrow> st_load w files = Some [Inr (src_of c)]"
    and "pq_read w (KList [f, KSym []]) (Inr ans)"
  shows "ans_names ans = map (\<lambda>c. h_intern (st_host w) (bytes_of (key_at (table_names tbl) c))) [0..<kcount (table_names tbl)] \<and>
    (\<forall>q < kcount (table_names tbl).
       ans_cells (st_host w) ans q = pay_cells (kept (h_intern (st_host w)) (elt (dict_vals (table_dict tbl)) q)))"
proof (rule written_file_read[OF _ assms(3-8)])
  show "write_table cr os pool pid n tbl path opts fsys (d, Inr ())"
    using assms(1,2) by (auto simp: pq_write_def rbind_Inr_iff eq_commute[of "Inr ret"])
qed

theorem written_table_reads_back_witness:
  "ans_names (RdTable [number_intern [116]] [Pay64 [1000, NJ]]) = [number_intern (bytes_of ''t'')] \<and>
   pay_cells (Pay64 [1000, NJ]) = pay_cells (kept number_intern (KVec64 KP [1000, NJ]))"
proof -
  obtain d where run: "pq_write ex_crate ex_file_os 4 7 0 (KList [rt_table, KSym ''t'']) Map.empty (d, Inr (KSym ''t''))"
    using rt_write by blast
  have tbl: "table_ok rt_table"
    by (simp add: table_ok_def table_names_def rt_table_def)
  have keeps: "keeps_table ex_crate 4 rt_table None (st_host ex_site) rt_world (\<lambda>c. sample_src)"
    using rt_keeps by (simp add: ex_site_def)
  have there: "\<forall>c. last d ''t'' = Some c \<longrightarrow> st_load ex_site [(''t'', ''t'')] = Some [Inr ((\<lambda>c. sample_src) c)]"
    by (simp add: ex_site_def)
  have host: "h_intern (st_host ex_site) = number_intern"
    by (simp add: ex_site_def sample_host_def)
  show ?thesis
    using written_table_reads_back[OF run rt_args tbl keeps rt_world_ok ex_files there ex_read] unfolding host
    by (simp add: rt_table_def table_names_def ans_cells_def)
qed

end
