(* ===== verification/HostMem.thy ===== *)
theory HostMem
  imports Values
begin

text \<open>
  The host's memory as \<^verbatim>\<open>src/src/ffi.rs\<close> sees it: which values it holds and what
  keeps them, and the host's own functions (\<^verbatim>\<open>ktn\<close>, \<^verbatim>\<open>kpn\<close>, \<^verbatim>\<open>sn\<close>, \<^verbatim>\<open>kj\<close>,
  \<^verbatim>\<open>xD\<close>) as the parameter \<open>host_api\<close> with the promises the crate relies on. None is
  a call that does not come back, a host out of memory.
\<close>

section \<open>Memory\<close>

record heap =
  hp_mem :: mem
  hp_used :: "64 word set"
  hp_syms :: "64 word set"    \<comment> \<open>of it, the symbol table's\<close>

definition region :: "64 word \<Rightarrow> nat \<Rightarrow> 64 word set" where
  "region a n = {b. unat (b - a) < n}"

definition wr_bytes :: "mem \<Rightarrow> 64 word \<Rightarrow> u8 list \<Rightarrow> mem" where
  "wr_bytes m a bs = (\<lambda>b. if unat (b - a) < length bs then bs ! unat (b - a) else m b)"

definition slot :: "K \<Rightarrow> nat \<Rightarrow> 64 word" where
  "slot x i = va x + 8 * of_nat i"

definition store :: "K \<Rightarrow> nat \<Rightarrow> 64 word \<Rightarrow> heap \<Rightarrow> heap" where
  "store x i w H = H\<lparr>hp_mem := wr_bytes (hp_mem H) (slot x i) (to_le 8 (unat w))\<rparr>"

text \<open>
  A value is held when what it denotes rests on memory in use: whatever else changes, it
  stays. A symbol rests on the symbol table alone. A heap grows when it keeps what was in use,
  and takes new symbols from memory that was not.
\<close>

definition held :: "heap \<Rightarrow> K \<Rightarrow> kval \<Rightarrow> bool" where
  "held H x v \<longleftrightarrow> (\<forall>m. (\<forall>a \<in> hp_used H. m a = hp_mem H a) \<longrightarrow> repr m x v)"

definition held_sym :: "heap \<Rightarrow> 64 word \<Rightarrow> string \<Rightarrow> bool" where
  "held_sym H p s \<longleftrightarrow> hp_syms H \<subseteq> hp_used H \<and> (\<forall>m. (\<forall>a \<in> hp_syms H. m a = hp_mem H a) \<longrightarrow> cstr m p s)"

definition grows :: "heap \<Rightarrow> heap \<Rightarrow> bool" where
  "grows H H' \<longleftrightarrow> hp_used H \<subseteq> hp_used H' \<and> (\<forall>a \<in> hp_used H. hp_mem H' a = hp_mem H a) \<and>
     hp_syms H \<subseteq> hp_syms H' \<and> hp_syms H' \<inter> hp_used H \<subseteq> hp_syms H \<and> hp_syms H' \<subseteq> hp_used H'"

section \<open>The host's functions\<close>

record host_api =
  ha_ktn :: "int \<Rightarrow> nat \<Rightarrow> heap \<Rightarrow> (K \<times> heap) option"
  ha_kpn :: "u8 list \<Rightarrow> heap \<Rightarrow> (K \<times> heap) option"
  ha_sn :: "u8 list \<Rightarrow> i32 \<Rightarrow> heap \<Rightarrow> (64 word \<times> heap) option"
  ha_kj :: "i64 \<Rightarrow> heap \<Rightarrow> (K \<times> heap) option"
  ha_xD :: "K \<Rightarrow> K \<Rightarrow> heap \<Rightarrow> (K \<times> heap) option"

text \<open>
  What the host promises: a new vector has a header and a payload of its own that nothing
  in use overlaps; a char vector holds its bytes; an interned symbol stays where it is; a long
  atom is inline or in a cell of its own; a dict has the two values it was made of.
\<close>

definition header :: "K \<Rightarrow> 64 word set" where
  "header x = region (va x - 28) 2 \<union> region (va x - 24) 8"

definition fresh_vec :: "heap \<Rightarrow> heap \<Rightarrow> K \<Rightarrow> int \<Rightarrow> nat \<Rightarrow> bool" where
  "fresh_vec H H' x t n \<longleftrightarrow> grows H H' \<and> heap_hdr (hp_mem H') x t n \<and>
     header x \<union> region (va x) (width t * n) \<subseteq> hp_used H' \<and>
     region (va x) (width t * n) \<inter> (hp_used H \<union> header x \<union> hp_syms H') = {} \<and> header x \<inter> hp_used H = {}"

definition api_ok :: "host_api \<Rightarrow> bool" where
  "api_ok A \<longleftrightarrow>
     (\<forall>t n H x H'. ha_ktn A t n H = Some (x, H') \<longrightarrow> fresh_vec H H' x t n) \<and>
     (\<forall>b H x H'. ha_kpn A b H = Some (x, H') \<longrightarrow> grows H H' \<and> held H' x (KVec8 KC b)) \<and>
     (\<forall>s n H p H'. ha_sn A (bytes_of s) n H = Some (p, H') \<longrightarrow>
       grows H H' \<and> (CHR 0x00 \<notin> set s \<and> sint n = int (length s) \<longrightarrow> held_sym H' p s)) \<and>
     (\<forall>v H x H'. ha_kj A v H = Some (x, H') \<longrightarrow>
       grows H H' \<and> (held H' x (KAtom KJ v) \<or> held H' x (KAtom KJL v))) \<and>
     (\<forall>k v y z H x H'. ha_xD A k v H = Some (x, H') \<longrightarrow> held H k y \<longrightarrow> held H v z \<longrightarrow>
       grows H H' \<and> held H' x (KDict y z))"

lemma api_laws:
  assumes "api_ok A"
  shows "ha_ktn A t n H = Some (x, H') \<Longrightarrow> fresh_vec H H' x t n"
    "ha_kpn A b H = Some (x, H') \<Longrightarrow> grows H H' \<and> held H' x (KVec8 KC b)"
    "ha_kj A j H = Some (x, H') \<Longrightarrow> grows H H' \<and> (held H' x (KAtom KJ j) \<or> held H' x (KAtom KJL j))"
    "ha_xD A k v H = Some (x, H') \<Longrightarrow> held H k y \<Longrightarrow> held H v z \<Longrightarrow> grows H H' \<and> held H' x (KDict y z)"
  using assms by (auto simp: api_ok_def)

text \<open>A string \<open>intern\<close> passes whole: no NUL in it, and a length that fits \<^verbatim>\<open>i32\<close>.\<close>

definition sym_ok :: "string \<Rightarrow> bool" where
  "sym_ok s \<longleftrightarrow> CHR 0x00 \<notin> set s \<and> length s < 2 ^ 31"

section \<open>Regions and stores\<close>

lemma region_nth: "i < n \<Longrightarrow> n \<le> 2 ^ 64 \<Longrightarrow> a + of_nat i \<in> region a n"
  by (simp add: region_def unat_of_nat_small)

lemma rd_bytes_cong:
  assumes "\<forall>b \<in> region a n. m b = m' b" "n \<le> 2 ^ 64"
  shows "rd_bytes m a n = rd_bytes m' a n"
  using assms region_nth[of _ n a] by (auto simp: rd_bytes_def)

lemma rd_wr_same: "length bs \<le> 2 ^ 64 \<Longrightarrow> rd_bytes (wr_bytes m a bs) a (length bs) = bs"
  by (rule nth_equalityI) (simp_all add: rd_bytes_def wr_bytes_def unat_of_nat_small)

lemma wr_other: "b \<notin> region a (length bs) \<Longrightarrow> wr_bytes m a bs b = m b"
  by (simp add: region_def wr_bytes_def)

lemma offset_bounds:
  assumes "unat (x - of_nat k :: 64 word) < j" "k + j \<le> 2 ^ 64"
  shows "k \<le> unat x \<and> unat x < k + j"
proof -
  let ?y = "x - of_nat k :: 64 word"
  have k: "unat (of_nat k :: 64 word) = k"
    using assms by (intro unat_of_nat_small) simp
  have "unat (of_nat k + ?y) = unat (of_nat k :: 64 word) + unat ?y"
    using assms k unat_of_nat_small[of "k + unat ?y", where 'a = 64] by simp
  with k assms(1) show ?thesis
    by simp
qed

lemma slot_region: "b \<in> region (slot x i) 8 \<Longrightarrow> i < n \<Longrightarrow> n < 2 ^ 31 \<Longrightarrow>
   8 * i \<le> unat (b - va x) \<and> unat (b - va x) < 8 * i + 8"
  using offset_bounds[of "b - va x" "8 * i" 8] by (simp add: region_def slot_def algebra_simps)

lemma slot_in: "i < n \<Longrightarrow> n < 2 ^ 31 \<Longrightarrow> region (slot x i) 8 \<subseteq> region (va x) (8 * n)"
proof
  fix b
  assume i: "i < n" "n < 2 ^ 31" and "b \<in> region (slot x i) 8"
  then have "unat (b - va x) < 8 * i + 8"
    using slot_region by blast
  with i(1) show "b \<in> region (va x) (8 * n)"
    by (simp add: region_def)
qed

lemma slot_apart: "i < n \<Longrightarrow> j < n \<Longrightarrow> n < 2 ^ 31 \<Longrightarrow> i \<noteq> j \<Longrightarrow> region (slot x i) 8 \<inter> region (slot x j) 8 = {}"
proof (rule ccontr)
  assume a: "i < n" "j < n" "n < 2 ^ 31" "i \<noteq> j" "region (slot x i) 8 \<inter> region (slot x j) 8 \<noteq> {}"
  then obtain b where "b \<in> region (slot x i) 8" "b \<in> region (slot x j) 8"
    by blast
  then show False
    using slot_region[of b x i n] slot_region[of b x j n] a by linarith
qed

lemma rd64_cong: "\<forall>b \<in> region a 8. m b = m' b \<Longrightarrow> rd64 m a = rd64 m' a"
  using rd_bytes_cong[of a 8 m m'] by (simp add: rd64_def)

lemma rd64_store_same: "rd64 (hp_mem (store x i w H)) (slot x i) = w"
proof -
  have "rd_bytes (hp_mem (store x i w H)) (slot x i) 8 = to_le 8 (unat w)"
    using rd_wr_same[of "to_le 8 (unat w)" "hp_mem H" "slot x i"] by (simp add: store_def)
  then have "of_le (rd_bytes (hp_mem (store x i w H)) (slot x i) 8) = unat w mod 256 ^ 8"
    by (simp only: of_le_to_le)
  moreover have "unat w < 256 ^ 8"
    using unsigned_less[of w, where 'a = nat] by simp
  ultimately show ?thesis
    by (simp add: rd64_def)
qed

lemma store_other: "b \<notin> region (slot x i) 8 \<Longrightarrow> hp_mem (store x i w H) b = hp_mem H b"
  by (simp add: store_def wr_other)

lemma store_used [simp]: "hp_used (store x i w H) = hp_used H" "hp_syms (store x i w H) = hp_syms H"
  by (simp_all add: store_def)

section \<open>Growing heaps\<close>

lemma grows_trans:
  assumes "grows H H1" "grows H1 H2"
  shows "grows H H2"
proof -
  have a: "hp_used H \<subseteq> hp_used H1" "hp_syms H \<subseteq> hp_syms H1" "hp_syms H1 \<inter> hp_used H \<subseteq> hp_syms H"
      "\<forall>a \<in> hp_used H. hp_mem H1 a = hp_mem H a"
    using assms(1) by (simp_all add: grows_def)
  have b: "hp_used H1 \<subseteq> hp_used H2" "hp_syms H1 \<subseteq> hp_syms H2" "hp_syms H2 \<inter> hp_used H1 \<subseteq> hp_syms H1"
      "hp_syms H2 \<subseteq> hp_used H2" "\<forall>a \<in> hp_used H1. hp_mem H2 a = hp_mem H1 a"
    using assms(2) by (simp_all add: grows_def)
  have "hp_mem H2 a = hp_mem H a" if "a \<in> hp_used H" for a
    using a(1,4) b(5) that by (simp add: subset_iff)
  moreover have "hp_syms H2 \<inter> hp_used H \<subseteq> hp_syms H"
    using a(1,3) b(3) by blast
  ultimately show ?thesis
    using subset_trans[OF a(1) b(1)] subset_trans[OF a(2) b(2)] b(4) by (simp add: grows_def)
qed

lemma held_grows: "held H x v \<Longrightarrow> grows H H' \<Longrightarrow> held H' x v"
  unfolding held_def grows_def by (metis subsetD)

text \<open>The symbol table is kept, whatever happens to the vectors.\<close>

definition keeps_syms :: "heap \<Rightarrow> heap \<Rightarrow> bool" where
  "keeps_syms H H' \<longleftrightarrow> hp_syms H \<subseteq> hp_syms H' \<and> hp_syms H' \<subseteq> hp_used H' \<and> (\<forall>a \<in> hp_syms H. hp_mem H' a = hp_mem H a)"

lemma held_sym_keeps: "held_sym H p s \<Longrightarrow> keeps_syms H H' \<Longrightarrow> held_sym H' p s"
  unfolding held_sym_def keeps_syms_def by (metis subsetD)

lemma keeps_syms_trans: "keeps_syms H H1 \<Longrightarrow> keeps_syms H1 H2 \<Longrightarrow> keeps_syms H H2"
  unfolding keeps_syms_def by (metis subsetD subset_trans)

lemma grows_keeps: "grows H H' \<Longrightarrow> hp_syms H \<subseteq> hp_used H \<Longrightarrow> keeps_syms H H'"
  unfolding keeps_syms_def grows_def by blast

lemma held_sym_cstr: "held_sym H p s \<Longrightarrow> \<forall>a \<in> hp_used H. m a = hp_mem H a \<Longrightarrow> cstr m p s"
  unfolding held_sym_def by blast

lemma held_repr: "held H x v \<Longrightarrow> repr (hp_mem H) x v"
  by (simp add: held_def)
lemma heap_hdr_cong:
  assumes "\<forall>b \<in> header x. m b = m' b"
  shows "heap_hdr m x t n = heap_hdr m' x t n"
proof -
  have "rd_bytes m (va x - 28) 2 = rd_bytes m' (va x - 28) 2" "rd_bytes m (va x - 24) 8 = rd_bytes m' (va x - 24) 8"
    using assms by (auto simp: header_def intro!: rd_bytes_cong)
  then show ?thesis
    by (simp add: heap_hdr_def vt_def vn_def rd16_def rd64_def)
qed

lemma rd_bytes_append: "rd_bytes m a (j + n) = rd_bytes m a j @ rd_bytes m (a + of_nat j) n"
proof -
  have "[0..<j + n] = [0..<j] @ map (\<lambda>i. i + j) [0..<n]"
    unfolding map_add_upt using upt_add_eq_append[of 0 j n] by (simp add: add.commute)
  then show ?thesis
    unfolding rd_bytes_def by (simp add: algebra_simps comp_def)
qed

end
