(* ===== verification/SampleHost.thy ===== *)
theory SampleHost
  imports HostMem
begin

text \<open>
  A host that keeps the promises of \<open>HostMem\<close>, so that what is proved over any such host can
  be applied, and the number of pages its functions take.
\<close>

section \<open>A host\<close>

text \<open>
  A host that keeps the laws of \<open>api_ok\<close>: every object has a page of its own, the first of
  1023 that nothing in use touches; an object of more than 2048 bytes is refused. A long that
  fits the 58 bits of a value is inline.
\<close>

definition page :: "nat \<Rightarrow> 64 word" where
  "page k = of_nat (4096 * k)"

definition ex_page :: "heap \<Rightarrow> nat option" where
  "ex_page H = find (\<lambda>k. hp_used H \<inter> region (page k) 4096 = {}) [1..<1024]"

definition ex_new :: "int \<Rightarrow> nat \<Rightarrow> u8 list \<Rightarrow> heap \<Rightarrow> (K \<times> heap) option" where
  "ex_new t n bs H =
    (if 0 \<le> t \<and> t < 2 ^ 15 \<and> width t * n \<le> 2048 \<and> n \<le> 2048 \<and> length bs \<le> 2048 \<and> hp_syms H \<subseteq> hp_used H
     then map_option (\<lambda>k. (page k + 32,
         H\<lparr>hp_mem := wr_bytes (wr_bytes (wr_bytes (hp_mem H) (page k + 4) (to_le 2 (nat t))) (page k + 8) (to_le 8 n)) (page k + 32) bs,
           hp_used := hp_used H \<union> region (page k) 4096\<rparr>)) (ex_page H)
     else None)"

definition ex_sn :: "u8 list \<Rightarrow> i32 \<Rightarrow> heap \<Rightarrow> (64 word \<times> heap) option" where
  "ex_sn b n H =
    (if length b < 2048 \<and> hp_syms H \<subseteq> hp_used H
     then map_option (\<lambda>k. (page k, H\<lparr>hp_mem := wr_bytes (hp_mem H) (page k) (b @ [0]),
         hp_used := hp_used H \<union> region (page k) 4096, hp_syms := hp_syms H \<union> region (page k) 4096\<rparr>)) (ex_page H)
     else None)"

definition ex_kj :: "i64 \<Rightarrow> heap \<Rightarrow> (K \<times> heap) option" where
  "ex_kj v H = (if - (2 ^ 57) \<le> sint v \<and> sint v < 2 ^ 57 \<and> hp_syms H \<subseteq> hp_used H
     then Some (push_bit 58 39 OR take_bit 58 v, H) else None)"

definition ex_xD :: "K \<Rightarrow> K \<Rightarrow> heap \<Rightarrow> (K \<times> heap) option" where
  "ex_xD k v H = ex_new XD 2 (to_le 8 (unat k) @ to_le 8 (unat v)) H"

definition ex_host :: host_api where
  "ex_host = \<lparr>ha_ktn = (\<lambda>t n. ex_new t n []), ha_kpn = (\<lambda>b. ex_new KC (length b) b), ha_sn = ex_sn,
     ha_kj = ex_kj, ha_xD = ex_xD\<rparr>"

definition ex_heap :: heap where
  "ex_heap = \<lparr>hp_mem = (\<lambda>_. 0), hp_used = {}, hp_syms = {}\<rparr>"

lemma in_region: "unat a + n \<le> 2 ^ 64 \<Longrightarrow> b \<in> region a n \<longleftrightarrow> unat a \<le> unat b \<and> unat b < unat a + n"
proof
  assume n: "unat a + n \<le> 2 ^ 64"
  show "b \<in> region a n" if "unat a \<le> unat b \<and> unat b < unat a + n"
  proof -
    have "unat (b - a) = unat b - unat a"
      using that by (simp add: unat_sub word_le_nat_alt)
    with that have "unat (b - a) < n"
      by linarith
    then show ?thesis
      by (simp add: region_def)
  qed
  assume "b \<in> region a n"
  then show "unat a \<le> unat b \<and> unat b < unat a + n"
    using offset_bounds[of b "unat a" n] n by (simp add: region_def)
qed

text \<open>Parts of a page.\<close>

lemma ex_page_Some: "ex_page H = Some k \<Longrightarrow> 1 \<le> k \<and> k < 1024 \<and> hp_used H \<inter> region (page k) 4096 = {}"
  by (auto simp: ex_page_def find_Some_iff)

lemma unat_page: "k < 1024 \<Longrightarrow> j < 4096 \<Longrightarrow> unat (page k + of_nat j) = 4096 * k + j"
  unfolding page_def of_nat_add[symmetric] by (intro unat_of_nat_small) simp

lemma page_part: "k < 1024 \<Longrightarrow> j + n \<le> 4096 \<Longrightarrow> 0 < n \<Longrightarrow>
    b \<in> region (page k + of_nat j) n \<longleftrightarrow> 4096 * k + j \<le> unat b \<and> unat b < 4096 * k + j + n"
  using unat_page[of k j] by (subst in_region) simp_all

lemma page_va: "k < 1024 \<Longrightarrow> j < 4096 \<Longrightarrow> va (page k + of_nat j) = page k + of_nat j \<and> vtag (page k + of_nat j) = 0"
proof -
  assume k: "k < 1024" "j < 4096"
  let ?a = "page k + of_nat j"
  have a: "unat ?a < 2 ^ 58"
    using unat_page[OF k] k by simp
  have "unat (drop_bit 58 ?a) = unat ?a div 2 ^ 58"
    unfolding unat_drop_bit_eq by (rule drop_bit_eq_div)
  with a have "drop_bit 58 ?a = 0"
    by (simp add: word_unat_eq_iff)
  then have "vtag ?a = 0"
    by (simp add: vtag_def TAG_SHIFT_def)
  moreover have "unat (take_bit 58 ?a) = unat ?a"
  proof -
    have "unat (take_bit 58 ?a) = take_bit 58 (unat ?a)"
      by (rule unsigned_take_bit_eq)
    also have "\<dots> = unat ?a"
      using a by (simp only: take_bit_nat_eq_self_iff)
    finally show ?thesis .
  qed
  ultimately show ?thesis
    by (simp add: va_take_bit word_unat_eq_iff)
qed

lemma wr_bytes_apart: "region a n \<inter> region b (length bs) = {} \<Longrightarrow> n \<le> 2 ^ 64 \<Longrightarrow> rd_bytes (wr_bytes m b bs) a n = rd_bytes m a n"
  by (rule rd_bytes_cong) (use wr_other[of _ b bs m] in blast)

lemma ex_new_Some:
  assumes "ex_new t n bs H = Some (x, H')"
  shows "\<exists>k. 1 \<le> k \<and> k < 1024 \<and> hp_used H \<inter> region (page k) 4096 = {} \<and> x = page k + 32 \<and> 0 \<le> t \<and> t < 2 ^ 15 \<and>
    width t * n \<le> 2048 \<and> n \<le> 2048 \<and> length bs \<le> 2048 \<and> hp_syms H \<subseteq> hp_used H \<and>
    hp_mem H' = wr_bytes (wr_bytes (wr_bytes (hp_mem H) (page k + 4) (to_le 2 (nat t))) (page k + 8) (to_le 8 n)) (page k + 32) bs \<and>
    hp_used H' = hp_used H \<union> region (page k) 4096 \<and> hp_syms H' = hp_syms H"
  using assms ex_page_Some by (fastforce simp: ex_new_def split: if_splits)

lemma page_offsets: "page k + 4 = page k + of_nat 4" "page k + 8 = page k + of_nat 8" "page k + 32 = page k + of_nat 32"
  by simp_all

text \<open>The header of an object of a page, and its payload.\<close>

lemma page_object:
  assumes k: "k < 1024"
  shows "va (page k + 32) = page k + 32" "header (page k + 32) = region (page k + 4) 2 \<union> region (page k + 8) 8"
    "header (page k + 32) \<subseteq> region (page k) 4096"
    "n \<le> 2048 \<Longrightarrow> region (page k + 32) n \<subseteq> region (page k) 4096 \<and> region (page k + 32) n \<inter> header (page k + 32) = {}"
proof -
  show v: "va (page k + 32) = page k + 32"
    using page_va[of k 32] k by simp
  show h: "header (page k + 32) = region (page k + 4) 2 \<union> region (page k + 8) 8"
    unfolding header_def v by (simp add: algebra_simps)
  have p: "b \<in> region (page k) 4096 \<longleftrightarrow> 4096 * k \<le> unat b \<and> unat b < 4096 * k + 4096" for b
    using page_part[of k 0 4096 b] k by simp
  have q: "b \<in> header (page k + 32) \<longrightarrow> 4096 * k + 4 \<le> unat b \<and> unat b < 4096 * k + 16" for b
    using page_part[of k 4 2 b] page_part[of k 8 8 b] k h by auto
  show "header (page k + 32) \<subseteq> region (page k) 4096"
    using p q by fastforce
  show "region (page k + 32) n \<subseteq> region (page k) 4096 \<and> region (page k + 32) n \<inter> header (page k + 32) = {}" if n: "n \<le> 2048"
  proof (cases "n = 0")
    case True
    then show ?thesis by (simp add: region_def)
  next
    case False
    then have "b \<in> region (page k + 32) n \<longleftrightarrow> 4096 * k + 32 \<le> unat b \<and> unat b < 4096 * k + 32 + n" for b
      using page_part[of k 32 n b] k n by simp
    then show ?thesis
      using p q n by fastforce
  qed
qed

lemma ex_new_fresh:
  assumes "ex_new t n bs H = Some (x, H')"
  shows "fresh_vec H H' x t n \<and> rd_bytes (hp_mem H') (va x) (length bs) = bs \<and> hp_syms H' = hp_syms H"
proof -
  obtain k where k: "k < 1024" "hp_used H \<inter> region (page k) 4096 = {}" and x: "x = page k + 32" and t: "0 \<le> t" "t < 2 ^ 15"
      and n: "width t * n \<le> 2048" "n \<le> 2048" "length bs \<le> 2048" "hp_syms H \<subseteq> hp_used H"
      and m: "hp_mem H' = wr_bytes (wr_bytes (wr_bytes (hp_mem H) (page k + 4) (to_le 2 (nat t))) (page k + 8) (to_le 8 n)) (page k + 32) bs"
      and u: "hp_used H' = hp_used H \<union> region (page k) 4096" "hp_syms H' = hp_syms H"
    using ex_new_Some[OF assms] by blast
  note ob = page_object[OF k(1)]
  have h: "region (page k + 4) 2 \<subseteq> region (page k) 4096" "region (page k + 8) 8 \<subseteq> region (page k) 4096"
      "region (page k + 32) (length bs) \<subseteq> region (page k) 4096"
    using ob(2,3) ob(4)[OF n(3)] by auto
  have "hp_mem H' a = hp_mem H a" if "a \<in> hp_used H" for a
  proof -
    have "a \<notin> region (page k) 4096"
      using k(2) that by blast
    then show ?thesis
      unfolding m using h by (subst wr_other; (subst wr_other)?; (subst wr_other)?; auto)
  qed
  then have g: "grows H H'"
    using n(4) by (auto simp: grows_def u)
  have ap: "region (page k + 4) 2 \<inter> region (page k + 8) 8 = {}" "region (page k + 4) 2 \<inter> region (page k + 32) (length bs) = {}"
      "region (page k + 8) 8 \<inter> region (page k + 32) (length bs) = {}"
    using page_part[of k 4 2] page_part[of k 8 8] k(1) ob(2) ob(4)[OF n(3)] by auto
  have b2: "rd_bytes (hp_mem H') (page k + 4) 2 = to_le 2 (nat t)"
    unfolding m using ap rd_wr_same[of "to_le 2 (nat t)" "hp_mem H" "page k + 4"]
    by (simp add: wr_bytes_apart)
  have b8: "rd_bytes (hp_mem H') (page k + 8) 8 = to_le 8 n"
    unfolding m using ap rd_wr_same[of "to_le 8 n" _ "page k + 8"] by (simp add: wr_bytes_apart)
  have "rd16 (hp_mem H') (va x - 28) = of_nat (nat t)" "rd64 (hp_mem H') (va x - 24) = of_nat n"
  proof -
    have *: "va x - 28 = page k + 4" "va x - 24 = page k + 8"
      unfolding x ob(1) by (simp_all add: algebra_simps)
    show "rd16 (hp_mem H') (va x - 28) = of_nat (nat t)" "rd64 (hp_mem H') (va x - 24) = of_nat n"
      unfolding * rd16_def rd64_def b2 b8 of_le_to_le using t n(2) by simp_all
  qed
  moreover have "sint (of_nat (nat t) :: i16) = t" "sint (of_nat n :: i64) = int n"
    using t n(2) by (simp_all add: signed_of_int signed_of_nat signed_take_bit_int_eq_self)
  moreover have "vtag x = 0"
    using page_va[of k 32] k(1) by (simp add: x)
  ultimately have hd: "heap_hdr (hp_mem H') x t n"
    by (simp add: heap_hdr_def vt_def vn_def)
  have "rd_bytes (hp_mem H') (va x) (length bs) = bs"
    unfolding m x ob(1) using n(3) by (intro rd_wr_same) simp
  moreover have "fresh_vec H H' x t n"
    unfolding fresh_vec_def using g hd ob(3) ob(4)[OF n(1)] k(2) n(4) u unfolding x ob(1) by blast
  ultimately show ?thesis
    using u(2) by blast
qed

text \<open>What a fresh object of the host holds: the bytes of its payload, whatever else changes.\<close>

lemma fresh_body:
  assumes f: "fresh_vec H H' x t n" and b: "rd_bytes (hp_mem H') (va x) (length bs) = bs" "length bs \<le> width t * n" "length bs \<le> 2 ^ 64"
    and m: "\<forall>a \<in> hp_used H'. m a = hp_mem H' a"
  shows "heap_hdr m x t n \<and> rd_bytes m (va x) (length bs) = bs"
proof -
  have "region (va x) (length bs) \<subseteq> region (va x) (width t * n)"
    using b(2) by (auto simp: region_def)
  then have "region (va x) (length bs) \<subseteq> hp_used H'" "header x \<subseteq> hp_used H'"
    using f by (auto simp: fresh_vec_def)
  then have "rd_bytes m (va x) (length bs) = bs" "heap_hdr m x t n = heap_hdr (hp_mem H') x t n"
    using m b rd_bytes_cong[of "va x" "length bs" m "hp_mem H'"] by (auto intro!: heap_hdr_cong)
  then show ?thesis
    using f by (simp add: fresh_vec_def)
qed

lemma ex_new_chars:
  assumes run: "ex_new KC (length bs) bs H = Some (x, H')"
  shows "held H' x (KVec8 KC bs)"
  unfolding held_def
proof (intro allI impI)
  fix m
  assume m: "\<forall>a \<in> hp_used H'. m a = hp_mem H' a"
  note f = ex_new_fresh[OF run]
  have k: "length bs \<le> 2048"
    using ex_new_Some[OF run] by blast
  have "heap_hdr m x KC (length bs) \<and> rd_bytes m (va x) (length bs) = bs"
    using f k m by (intro fresh_body[of H]) (simp_all add: width_values)
  then show "repr m x (KVec8 KC bs)"
    by (metis (no_types, lifting) diff_zero length_map length_upt nth_map_upt plus_nat.add_0 rd_bytes_def repr.simps(3) v_g_def)
qed

lemma ex_dict_held:
  assumes run: "ex_xD k v H = Some (x, H')" and k: "held H k y" and v: "held H v z"
  shows "grows H H' \<and> held H' x (KDict y z)"
proof -
  let ?bs = "to_le 8 (unat k) @ to_le 8 (unat v)"
  have run': "ex_new XD 2 ?bs H = Some (x, H')"
    using run by (simp add: ex_xD_def)
  note f = ex_new_fresh[OF run']
  have g: "grows H H'"
    using f by (simp add: fresh_vec_def)
  have "repr m x (KDict y z)" if m: "\<forall>a \<in> hp_used H'. m a = hp_mem H' a" for m
  proof -
    have b: "heap_hdr m x XD 2 \<and> rd_bytes m (va x) (length ?bs) = ?bs"
      using f m by (intro fresh_body[of H]) (simp_all add: width_def)
    then have "rd_bytes m (va x) 8 = to_le 8 (unat k) \<and> rd_bytes m (va x + 8) 8 = to_le 8 (unat v)"
      using rd_bytes_append[of m "va x" 8 8] by simp
    then have "rd64 m (va x) = k" "rd64 m (va x + 8) = v"
      using unsigned_less[of k, where 'a = nat] unsigned_less[of v, where 'a = nat]
      by (simp_all only: rd64_def of_le_to_le) simp_all
    moreover have "repr m k y" "repr m v z"
      using held_grows[OF k g] held_grows[OF v g] m by (simp_all add: held_def)
    ultimately show ?thesis
      using b by (simp add: heap_hdr_def v_k_def)
  qed
  with g show ?thesis
    by (simp add: held_def)
qed

lemma ex_kj_held:
  assumes run: "ex_kj j H = Some (x, H')"
  shows "grows H H' \<and> held H' x (KAtom KJL j)"
proof -
  have x: "x = push_bit 58 39 OR take_bit 58 j" "H' = H" "hp_syms H \<subseteq> hp_used H" and j: "- (2 ^ 57) \<le> sint j" "sint j < 2 ^ 57"
    using run by (auto simp: ex_kj_def split: if_splits)
  have "drop_bit 58 x = 39"
    unfolding x(1) drop_bit_or drop_bit_take_bit by (simp add: drop_bit_push_bit_int)
  then have t: "vtag x = KJL"
    by (simp add: vtag_def TAG_SHIFT_def)
  have "take_bit 58 x = take_bit 58 j"
    unfolding x(1) take_bit_or by (simp add: take_bit_push_bit)
  then have "signed_take_bit 57 x = signed_take_bit 57 j"
    by (simp add: signed_take_bit_eq_iff_take_bit_eq)
  moreover have "signed_take_bit 57 j = j"
  proof -
    have "signed_take_bit 57 (of_int (sint j)) = (of_int (signed_take_bit 57 (sint j)) :: i64)"
      by (rule signed_take_bit_of_int)
    then show ?thesis
      using j by (simp add: signed_take_bit_int_eq_self)
  qed
  ultimately have "kjv m x = j" for m
    using kjv_KJL[OF t] by simp
  then show ?thesis
    using t x(2,3) by (simp add: held_def grows_def)
qed

lemma ex_sn_held:
  assumes run: "ex_sn (bytes_of s) n H = Some (p, H')"
  shows "grows H H' \<and> (CHR 0x00 \<notin> set s \<longrightarrow> held_sym H' p s)"
proof -
  obtain k where pk: "ex_page H = Some k" "hp_syms H \<subseteq> hp_used H" "length s < 2048" and p: "p = page k"
    and H': "H' = H\<lparr>hp_mem := wr_bytes (hp_mem H) (page k) (bytes_of s @ [0]),
      hp_used := hp_used H \<union> region (page k) 4096, hp_syms := hp_syms H \<union> region (page k) 4096\<rparr>"
    using run by (auto simp: ex_sn_def split: if_splits)
  have k: "k < 1024" "hp_used H \<inter> region (page k) 4096 = {}" "hp_syms H \<subseteq> hp_used H" "length s < 2048"
    using ex_page_Some[OF pk(1)] pk(2,3) by blast+
  have sub: "region (page k) (length (bytes_of s @ [0])) \<subseteq> region (page k) 4096"
    using k(4) by (auto simp: region_def)
  then have "hp_mem H' a = hp_mem H a" if "a \<in> hp_used H" for a
    using k(2) that wr_other[of a "page k" "bytes_of s @ [0]" "hp_mem H"] by (auto simp: H')
  then have "grows H H'"
    using k by (auto simp: grows_def H')
  moreover have "held_sym H' p s" if nul: "CHR 0x00 \<notin> set s"
  proof -
    have nth: "m (p + of_nat i) = (bytes_of s @ [0]) ! i" if m: "\<forall>a \<in> hp_syms H'. m a = hp_mem H' a" and i: "i \<le> length s" for m i
    proof -
      have "p + of_nat i \<in> hp_syms H'"
        using region_nth[of i 4096 "page k"] i k(4) by (simp add: H' p)
      then have "m (p + of_nat i) = hp_mem H' (p + of_nat i)"
        using m by blast
      then show ?thesis
        using i k(4) by (simp add: H' p wr_bytes_def unat_of_nat_small)
    qed
    have "cstr m p s" if m: "\<forall>a \<in> hp_syms H'. m a = hp_mem H' a" for m
      unfolding cstr_def
    proof (intro conjI allI impI)
      show "m (p + of_nat i) = of_char (s ! i)" if "i < length s" for i
        using nth[OF m, of i] that by (simp add: nth_append bytes_of_def)
      show "m (p + of_nat (length s)) = 0"
        using nth[OF m, of "length s"] by (simp add: nth_append)
    qed (rule nul)
    then show ?thesis
      using k by (auto simp: held_sym_def H')
  qed
  ultimately show ?thesis
    by blast
qed

lemma ex_host_ok: "api_ok ex_host"
  unfolding api_ok_def
proof (intro conjI allI impI)
  show "fresh_vec H H' x t n" if "ha_ktn ex_host t n H = Some (x, H')" for t n H x H'
    using ex_new_fresh that by (simp add: ex_host_def)
  show "grows H H'" "held H' x (KVec8 KC b)" if "ha_kpn ex_host b H = Some (x, H')" for b H x H'
    using ex_new_fresh[of KC "length b" b H x H'] ex_new_chars[of b H x H'] that by (simp_all add: ex_host_def fresh_vec_def)
  show "held_sym H' p s" if "ha_sn ex_host (bytes_of s) n H = Some (p, H')" "CHR 0x00 \<notin> set s \<and> sint n = int (length s)"
    for s n H p H'
    using ex_sn_held[of s n H p H'] that by (simp add: ex_host_def)
  show "grows H H'" if "ha_sn ex_host (bytes_of s) n H = Some (p, H')" for s n H p H'
    using ex_sn_held[of s n H p H'] that by (simp add: ex_host_def)
  show "grows H H'" "held H' x (KAtom KJ v) \<or> held H' x (KAtom KJL v)" if "ha_kj ex_host v H = Some (x, H')" for v H x H'
    using ex_kj_held[of v H x H'] that by (simp_all add: ex_host_def)
  show "grows H H'" "held H' x (KDict y z)" if "ha_xD ex_host k v H = Some (x, H')" "held H k y" "held H v z" for k v y z H x H'
    using ex_dict_held[of k v H x H' y z] that by (simp_all add: ex_host_def)
qed

text \<open>
  The example host does answer: \<open>takes c f P\<close> says that \<open>f\<close> returns a value with \<open>P\<close> on
  every heap whose first \<open>k\<close> pages hold all that is in use, and leaves one that needs \<open>c\<close>
  pages more.
\<close>

definition below :: "heap \<Rightarrow> nat \<Rightarrow> bool" where
  "below H k \<longleftrightarrow> 1 \<le> k \<and> (\<forall>a \<in> hp_used H. unat a < 4096 * k) \<and> hp_syms H \<subseteq> hp_used H"

definition takes :: "nat \<Rightarrow> (heap \<Rightarrow> ('b \<times> heap) option) \<Rightarrow> ('b \<Rightarrow> bool) \<Rightarrow> bool" where
  "takes c f P \<longleftrightarrow> (\<forall>H k. below H k \<longrightarrow> k + c \<le> 1024 \<longrightarrow> (\<exists>y H'. f H = Some (y, H') \<and> P y \<and> below H' (k + c)))"

lemma takesD: "takes c f P \<Longrightarrow> below H k \<Longrightarrow> k + c \<le> 1024 \<Longrightarrow> \<exists>y H'. f H = Some (y, H') \<and> P y \<and> below H' (k + c)"
  unfolding takes_def by blast

lemma takes_return: "P y \<Longrightarrow> takes 0 (\<lambda>H. Some (y, H)) P"
  by (simp add: takes_def)

lemma takes_bind:
  assumes "takes c f P" "\<And>y. P y \<Longrightarrow> takes c' (g y) Q"
  shows "takes (c + c') (\<lambda>H. Option.bind (f H) (\<lambda>(y, H). g y H)) Q"
  unfolding takes_def
proof (intro allI impI)
  fix H k
  assume H: "below H k" "k + (c + c') \<le> 1024"
  then obtain y H1 where f: "f H = Some (y, H1)" "P y" "below H1 (k + c)"
    using takesD[OF assms(1), of H k] by auto
  then obtain z H2 where "g y H1 = Some (z, H2)" "Q z" "below H2 (k + c + c')"
    using takesD[OF assms(2)[OF f(2)], of H1 "k + c"] H by auto
  with f show "\<exists>z H'. Option.bind (f H) (\<lambda>(y, H). g y H) = Some (z, H') \<and> Q z \<and> below H' (k + (c + c'))"
    by (simp add: add.assoc)
qed

lemma takes_map: "takes c f P \<Longrightarrow> (\<And>y H. P y \<Longrightarrow> Q (g y) \<and> hp_used (h y H) = hp_used H \<and> hp_syms (h y H) = hp_syms H) \<Longrightarrow>
    takes c (\<lambda>H. map_option (\<lambda>(y, H). (g y, h y H)) (f H)) Q"
proof (unfold takes_def, intro allI impI)
  fix H k
  assume f: "\<forall>H k. below H k \<longrightarrow> k + c \<le> 1024 \<longrightarrow> (\<exists>y H'. f H = Some (y, H') \<and> P y \<and> below H' (k + c))"
    and gh: "\<And>y H. P y \<Longrightarrow> Q (g y) \<and> hp_used (h y H) = hp_used H \<and> hp_syms (h y H) = hp_syms H"
    and H: "below H k" "k + c \<le> 1024"
  obtain y H' where y: "f H = Some (y, H')" "P y" "below H' (k + c)"
    using f H by blast
  then have "below (h y H') (k + c)"
    using gh[of y H'] by (simp add: below_def)
  then show "\<exists>z H'. map_option (\<lambda>(y, H). (g y, h y H)) (f H) = Some (z, H') \<and> Q z \<and> below H' (k + c)"
    using y gh[of y H'] by simp
qed

lemma takes_weaken: "takes c f P \<Longrightarrow> (\<And>y. P y \<Longrightarrow> Q y) \<Longrightarrow> takes c f Q"
  unfolding takes_def by blast

lemma ex_page_free:
  assumes "below H k" "k < 1024"
  shows "\<exists>j. ex_page H = Some j \<and> j \<le> k"
proof -
  let ?P = "\<lambda>k. hp_used H \<inter> region (page k) 4096 = {}"
  have "\<not> (4096 * k \<le> unat a)" if "a \<in> hp_used H" for a
    using assms(1) that by (auto simp: below_def)
  moreover have "4096 * k \<le> unat a" if "a \<in> region (page k) 4096" for a
    using page_part[of k 0 4096 a] assms(2) that by simp
  ultimately have k: "?P k"
    by blast
  have "k \<in> set [1..<1024]"
    using assms by (auto simp: below_def)
  then have "ex_page H \<noteq> None"
    unfolding ex_page_def find_None_iff using k by blast
  then obtain j where j: "ex_page H = Some j" by blast
  then obtain i where i: "i < length [1..<1024]" "j = [1..<1024] ! i" "\<forall>i' < i. \<not> ?P ([1..<1024] ! i')"
    by (auto simp: ex_page_def find_Some_iff)
  have "j \<le> k"
  proof (rule ccontr)
    assume "\<not> j \<le> k"
    then have "k - 1 < i" "[1..<1024] ! (k - 1) = k"
      using i(1,2) assms by (auto simp: below_def)
    then show False
      using i(3) k by metis
  qed
  with j show ?thesis by blast
qed

lemma below_page:
  assumes H: "below H k" "j \<le> k" "k < 1024" and H': "hp_used H' = hp_used H \<union> region (page j) 4096"
    "hp_syms H' \<subseteq> hp_syms H \<union> region (page j) 4096"
  shows "below H' (k + 1)"
proof -
  have "unat a < 4096 * (k + 1)" if "a \<in> region (page j) 4096" for a
    using page_part[of j 0 4096 a] H(2,3) that by simp
  moreover have "unat a < 4096 * (k + 1)" if "a \<in> hp_used H" for a
    using H(1) that by (fastforce simp: below_def)
  ultimately show ?thesis
    using H(1) H' by (auto simp: below_def)
qed

lemma takes_new:
  assumes "0 \<le> t" "t < 2 ^ 15" "width t * n \<le> 2048" "n \<le> 2048" "length bs \<le> 2048"
  shows "takes 1 (ex_new t n bs) (\<lambda>x. True)"
  unfolding takes_def
proof (intro allI impI)
  fix H k
  assume H: "below H k" "k + 1 \<le> 1024"
  obtain j where j: "ex_page H = Some j" "j \<le> k"
    using ex_page_free[OF H(1)] H(2) by auto
  have "hp_syms H \<subseteq> hp_used H" "k < 1024"
    using H by (simp_all add: below_def)
  then show "\<exists>y H'. ex_new t n bs H = Some (y, H') \<and> True \<and> below H' (k + 1)"
    using assms j(1) below_page[OF H(1) j(2)] by (simp add: ex_new_def)
qed

lemma takes_host:
  shows "0 \<le> t \<Longrightarrow> t < 2 ^ 15 \<Longrightarrow> width t * n \<le> 2048 \<Longrightarrow> n \<le> 2048 \<Longrightarrow> takes 1 (ha_ktn ex_host t n) (\<lambda>x. True)"
    and "length b \<le> 2048 \<Longrightarrow> takes 1 (ha_kpn ex_host b) (\<lambda>x. True)"
    and "takes 1 (ha_xD ex_host k v) (\<lambda>x. True)"
proof -
  have f: "ha_ktn ex_host t n = ex_new t n []" "ha_kpn ex_host b = ex_new KC (length b) b"
      "ha_xD ex_host k v = ex_new XD 2 (to_le 8 (unat k) @ to_le 8 (unat v))"
    by (simp_all add: ex_host_def ex_xD_def fun_eq_iff)
  show "0 \<le> t \<Longrightarrow> t < 2 ^ 15 \<Longrightarrow> width t * n \<le> 2048 \<Longrightarrow> n \<le> 2048 \<Longrightarrow> takes 1 (ha_ktn ex_host t n) (\<lambda>x. True)"
    unfolding f by (rule takes_new) simp_all
  show "length b \<le> 2048 \<Longrightarrow> takes 1 (ha_kpn ex_host b) (\<lambda>x. True)"
    unfolding f by (rule takes_new) (simp_all add: width_values)
  show "takes 1 (ha_xD ex_host k v) (\<lambda>x. True)"
    unfolding f by (rule takes_new) (simp_all add: width_def)
qed

lemma below_start: "below ex_heap 1"
  by (simp add: below_def ex_heap_def)

end
