(* ===== verification/HostHeap.thy ===== *)
theory HostHeap
  imports SampleHost
begin

text \<open>
  Values built in the host's memory: \<^verbatim>\<open>klist\<close>, \<^verbatim>\<open>ksyms\<close>, \<^verbatim>\<open>kchars\<close> and
  \<^verbatim>\<open>intern\<close> of \<^verbatim>\<open>src/src/ffi.rs\<close>, \<^verbatim>\<open>kj_vec\<close> of \<^verbatim>\<open>src/src/meta.rs\<close>, and the
  borrowed buffers of \<^verbatim>\<open>src/src/write.rs\<close>.
\<close>

section \<open>The builders\<close>

definition intern :: "host_api \<Rightarrow> u8 list \<Rightarrow> heap \<Rightarrow> (64 word \<times> heap) option" where
  "intern A b H = ha_sn A b (of_nat (length b)) H"

definition store_all :: "K \<Rightarrow> 64 word list \<Rightarrow> heap \<Rightarrow> heap" where
  "store_all x ws H = foldl (\<lambda>H (i, w). store x i w H) H (enumerate 0 ws)"

definition klist :: "host_api \<Rightarrow> K list \<Rightarrow> heap \<Rightarrow> (K \<times> heap) option" where
  "klist A xs H = map_option (\<lambda>(r, H1). (r, store_all r xs H1)) (ha_ktn A 0 (length xs) H)"

definition kj_vec :: "host_api \<Rightarrow> i64 list \<Rightarrow> heap \<Rightarrow> (K \<times> heap) option" where
  "kj_vec A xs H = map_option (\<lambda>(r, H1). (r, store_all r xs H1)) (ha_ktn A KJ (length xs) H)"

fun intern_each :: "host_api \<Rightarrow> K \<Rightarrow> nat \<Rightarrow> u8 list list \<Rightarrow> heap \<Rightarrow> heap option" where
  "intern_each A r i [] H = Some H"
| "intern_each A r i (b # bs) H =
    Option.bind (intern A b H) (\<lambda>(p, H). intern_each A r (Suc i) bs (store r i p H))"

definition ksyms :: "host_api \<Rightarrow> u8 list list \<Rightarrow> heap \<Rightarrow> (K \<times> heap) option" where
  "ksyms A bs H = Option.bind (ha_ktn A KS (length bs) H) (\<lambda>(r, H). map_option (\<lambda>H. (r, H)) (intern_each A r 0 bs H))"

definition kchars :: "host_api \<Rightarrow> u8 list \<Rightarrow> heap \<Rightarrow> (K \<times> heap) option" where
  "kchars A b H = ha_kpn A b H"

section \<open>Borrowed payloads\<close>

text \<open>
  The writer's values buffer: the payload itself where it is aligned for its elements, a copy
  of it otherwise. \<open>sz\<close> is the size of an element and its alignment.
\<close>

datatype buffer = Borrowed "64 word" nat | Owned "u8 list"

definition borrow_buf :: "nat \<Rightarrow> 64 word \<Rightarrow> nat \<Rightarrow> buffer option" where
  "borrow_buf sz src n = (if n = 0 \<or> unat src mod sz \<noteq> 0 then None
     else if src = 0 then None else Some (Borrowed src (n * sz)))"

definition vals_of :: "nat \<Rightarrow> 64 word \<Rightarrow> nat \<Rightarrow> mem \<Rightarrow> buffer" where
  "vals_of sz src n m = (case borrow_buf sz src n of Some b \<Rightarrow> b | None \<Rightarrow> Owned (rd_bytes m src (n * sz)))"

primrec buf_bytes :: "mem \<Rightarrow> buffer \<Rightarrow> u8 list" where
  "buf_bytes m (Borrowed a k) = rd_bytes m a k"
| "buf_bytes m (Owned bs) = bs"


text \<open>
  A vector under construction: its payload is its own, and its first slots are written.
\<close>

definition filling :: "heap \<Rightarrow> K \<Rightarrow> int \<Rightarrow> nat \<Rightarrow> 64 word list \<Rightarrow> heap \<Rightarrow> bool" where
  "filling H0 x t n ws H \<longleftrightarrow> grows H0 H \<and> heap_hdr (hp_mem H) x t n \<and>
     header x \<union> region (va x) (8 * n) \<subseteq> hp_used H \<and> region (va x) (8 * n) \<inter> (hp_used H0 \<union> header x \<union> hp_syms H) = {} \<and>
     length ws \<le> n \<and> (\<forall>i < length ws. rd64 (hp_mem H) (slot x i) = ws ! i)"

lemma filling_start: "fresh_vec H0 H x t n \<Longrightarrow> width t = 8 \<Longrightarrow> filling H0 x t n [] H"
  by (simp add: filling_def fresh_vec_def)

lemma filling_store:
  assumes f: "filling H0 x t n ws H" and room: "length ws < n" "n < 2 ^ 31"
  shows "filling H0 x t n (ws @ [w]) (store x (length ws) w H)"
proof -
  let ?i = "length ws" and ?H = "store x (length ws) w H"
  have sub: "region (slot x ?i) 8 \<subseteq> region (va x) (8 * n)"
    using slot_in[OF room] .
  then have keep: "hp_mem ?H b = hp_mem H b" if "b \<notin> region (va x) (8 * n)" for b
    using store_other[of b x ?i w H] that by blast
  have "hp_mem ?H a = hp_mem H0 a" if "a \<in> hp_used H0" for a
  proof -
    have "a \<notin> region (va x) (8 * n)" "hp_mem H a = hp_mem H0 a"
      using f that unfolding filling_def grows_def by blast+
    with keep show ?thesis
      by simp
  qed
  then have "grows H0 ?H"
    using f by (simp add: filling_def grows_def)
  moreover have "heap_hdr (hp_mem ?H) x t n"
    using f keep heap_hdr_cong[of x "hp_mem ?H" "hp_mem H" t n] unfolding filling_def by blast
  moreover have "rd64 (hp_mem ?H) (slot x j) = (ws @ [w]) ! j" if "j < length (ws @ [w])" for j
  proof (cases "j = ?i")
    case True
    then show ?thesis
      by (simp add: rd64_store_same)
  next
    case False
    then have j: "j < ?i"
      using that by simp
    have "rd64 (hp_mem ?H) (slot x j) = rd64 (hp_mem H) (slot x j)"
      using slot_apart[of j n ?i x] j room store_other[of _ x ?i w H] by (intro rd64_cong) auto
    then show ?thesis
      using f j by (simp add: filling_def nth_append)
  qed
  ultimately show ?thesis
    using f room by (simp add: filling_def)
qed

lemma filling_grows:
  assumes f: "filling H0 x t n ws H" and g: "grows H H'" and n: "n < 2 ^ 31"
  shows "filling H0 x t n ws H'"
proof -
  have keep: "hp_mem H' b = hp_mem H b" if "b \<in> header x \<union> region (va x) (8 * n)" for b
    using f g that unfolding filling_def grows_def by blast
  have "rd64 (hp_mem H') (slot x i) = ws ! i" if "i < length ws" for i
  proof -
    have "region (slot x i) 8 \<subseteq> region (va x) (8 * n)"
      using f that n by (intro slot_in) (auto simp: filling_def)
    then have "rd64 (hp_mem H') (slot x i) = rd64 (hp_mem H) (slot x i)"
      using keep by (intro rd64_cong) blast
    then show ?thesis
      using f that by (simp add: filling_def)
  qed
  moreover have "heap_hdr (hp_mem H') x t n"
    using f keep heap_hdr_cong[of x "hp_mem H'" "hp_mem H" t n] unfolding filling_def by blast
  ultimately show ?thesis
    using f g grows_trans[of H0 H H'] unfolding filling_def grows_def by blast
qed

text \<open>What a filled vector's slots read, in any memory that keeps what is in use.\<close>

lemma filled_reads:
  assumes f: "filling H0 x t n ws H" and n: "n < 2 ^ 31" and m: "\<forall>a \<in> hp_used H. m a = hp_mem H a"
  shows "heap_hdr m x t n \<and> (\<forall>i < length ws. rd64 m (slot x i) = ws ! i)"
  using filling_grows[OF f, of "H\<lparr>hp_mem := m\<rparr>"] f n m by (simp add: filling_def grows_def)

lemma store_all_snoc: "store_all x (ws @ [w]) H = store x (length ws) w (store_all x ws H)"
  by (simp add: store_all_def enumerate_append_eq)

lemma store_all_filling:
  assumes "filling H0 x t n [] H" "n < 2 ^ 31"
  shows "length ws \<le> n \<Longrightarrow> filling H0 x t n ws (store_all x ws H)"
proof (induction ws rule: rev_induct)
  case Nil
  then show ?case
    using assms by (simp add: store_all_def)
next
  case (snoc w ws)
  then show ?case
    using filling_store[of H0 x t n ws "store_all x ws H" w] assms(2) by (simp add: store_all_snoc)
qed


lemma store_keeps_syms:
  assumes f: "filling H0 x t n ws H" and room: "length ws < n" "n < 2 ^ 31"
  shows "keeps_syms H (store x (length ws) w H)"
proof -
  have own: "region (va x) (8 * n) \<inter> (hp_used H0 \<union> header x \<union> hp_syms H) = {}" and syms: "hp_syms H \<subseteq> hp_used H"
    using f by (simp_all add: filling_def grows_def)
  have "hp_mem (store x (length ws) w H) a = hp_mem H a" if a: "a \<in> hp_syms H" for a
  proof -
    have "a \<notin> region (va x) (8 * n)"
      using own a by blast
    then have "a \<notin> region (slot x (length ws)) 8"
      using slot_in[OF room, of x] by blast
    then show ?thesis
      by (rule store_other)
  qed
  with syms show ?thesis
    by (simp add: keeps_syms_def)
qed

lemma intern_held:
  assumes A: "api_ok A" and run: "intern A (bytes_of s) H = Some (p, H')" and s: "sym_ok s"
  shows "grows H H' \<and> held_sym H' p s"
proof -
  have "sint (of_nat (length s) :: i32) = int (length s)"
    using s by (simp add: sym_ok_def signed_of_nat signed_take_bit_int_eq_self)
  then show ?thesis
    using A run s unfolding api_ok_def intern_def sym_ok_def by simp
qed

lemma intern_each_filling:
  assumes A: "api_ok A" and n: "n < 2 ^ 31"
  shows "intern_each A x (length ws) (map bytes_of ss) H = Some H' \<Longrightarrow> filling H0 x KS n ws H \<Longrightarrow>
    length ws + length ss \<le> n \<Longrightarrow> \<forall>s \<in> set ss. sym_ok s \<Longrightarrow>
    \<exists>ps. filling H0 x KS n (ws @ ps) H' \<and> keeps_syms H H' \<and> list_all2 (held_sym H') ps ss"
proof (induction ss arbitrary: ws H)
  case Nil
  have "hp_syms H \<subseteq> hp_used H"
    using Nil.prems(2) by (simp add: filling_def grows_def)
  then have "keeps_syms H H"
    by (simp add: keeps_syms_def)
  then show ?case
    using Nil.prems(1,2) by (intro exI[of _ "[]"]) simp
next
  case (Cons s ss)
  obtain p H1 where sn: "intern A (bytes_of s) H = Some (p, H1)"
      and rest: "intern_each A x (Suc (length ws)) (map bytes_of ss) (store x (length ws) p H1) = Some H'"
    using Cons.prems(1) by (auto simp: Option.bind_eq_Some_conv)
  let ?H2 = "store x (length ws) p H1"
  have g: "grows H H1" and p: "held_sym H1 p s"
    using intern_held[OF A sn] Cons.prems(4) by simp_all
  have f1: "filling H0 x KS n ws H1"
    using filling_grows[OF Cons.prems(2) g n] .
  have room: "length ws < n"
    using Cons.prems(3) by simp
  note f2 = filling_store[OF f1 room n, of p]
  have k1: "keeps_syms H H1"
    using Cons.prems(2) g by (intro grows_keeps) (simp_all add: filling_def grows_def)
  have k2: "keeps_syms H1 ?H2"
    using store_keeps_syms[OF f1 room n] .
  obtain ps where ps: "filling H0 x KS n ((ws @ [p]) @ ps) H'" "keeps_syms ?H2 H'" "list_all2 (held_sym H') ps ss"
    using Cons.IH[of "ws @ [p]" ?H2] rest f2 Cons.prems(3,4) by auto
  have p': "held_sym H' p s"
    using held_sym_keeps[OF held_sym_keeps[OF p k2] ps(2)] .
  show ?case
  proof (intro exI conjI)
    show "filling H0 x KS n (ws @ p # ps) H'"
      using ps(1) by simp
    show "keeps_syms H H'"
      using keeps_syms_trans[OF keeps_syms_trans[OF k1 k2] ps(2)] .
    show "list_all2 (held_sym H') (p # ps) (s # ss)"
      using p' ps(3) by simp
  qed
qed

section \<open>What the builders return\<close>

lemma filled_list:
  assumes f: "filling H x 0 (length vs) xs H'" and n: "length vs < 2 ^ 31" and vs: "list_all2 (held H) xs vs"
  shows "held H' x (KList vs)"
  unfolding held_def
proof (intro allI impI)
  fix m
  assume m: "\<forall>a \<in> hp_used H'. m a = hp_mem H' a"
  note r = filled_reads[OF f n m]
  have "repr m (xs ! i) (vs ! i)" if "i < length vs" for i
  proof -
    have "held H' (xs ! i) (vs ! i)"
      using vs that f held_grows by (fastforce simp: list_all2_conv_all_nth filling_def)
    then show ?thesis
      using m by (simp add: held_def)
  qed
  then show "repr m x (KList vs)"
    using r vs by (simp add: v_k_def slot_def list_all2_lengthD)
qed

lemma filled_longs:
  assumes f: "filling H x KJ (length xs) xs H'" and n: "length xs < 2 ^ 31"
  shows "held H' x (KVec64 KJ xs)"
  unfolding held_def using filled_reads[OF f n] by (simp add: v_j_def slot_def)

lemma filled_syms:
  assumes f: "filling H x KS (length ss) ps H'" and n: "length ss < 2 ^ 31" and ss: "list_all2 (held_sym H') ps ss"
  shows "held H' x (KSyms ss)"
  unfolding held_def
proof (intro allI impI)
  fix m
  assume m: "\<forall>a \<in> hp_used H'. m a = hp_mem H' a"
  have "cstr m (ps ! i) (ss ! i)" if "i < length ss" for i
    using ss that m held_sym_cstr by (fastforce simp: list_all2_conv_all_nth)
  then show "repr m x (KSyms ss)"
    using filled_reads[OF f n m] ss by (simp add: v_s_def slot_def list_all2_lengthD)
qed

lemma fresh_filling: "api_ok A \<Longrightarrow> ha_ktn A t n H = Some (x, H1) \<Longrightarrow> width t = 8 \<Longrightarrow> filling H x t n [] H1"
  by (rule filling_start[OF api_laws(1)])

lemma klist_held:
  assumes A: "api_ok A" and run: "klist A xs H = Some (x, H')" and vs: "list_all2 (held H) xs vs" and n: "length xs < 2 ^ 31"
  shows "grows H H' \<and> held H' x (KList vs)"
proof -
  obtain H1 where H1: "ha_ktn A 0 (length xs) H = Some (x, H1)" "H' = store_all x xs H1"
    using run by (auto simp: klist_def)
  have "filling H x 0 (length xs) xs H'"
    using store_all_filling[OF fresh_filling[OF A H1(1)] n] by (simp add: H1(2) width_values)
  then show ?thesis
    using filled_list[of H x vs xs H'] vs n by (simp add: list_all2_lengthD filling_def)
qed

lemma kj_vec_held:
  assumes A: "api_ok A" and run: "kj_vec A xs H = Some (x, H')" and n: "length xs < 2 ^ 31"
  shows "grows H H' \<and> held H' x (KVec64 KJ xs)"
proof -
  obtain H1 where H1: "ha_ktn A KJ (length xs) H = Some (x, H1)" "H' = store_all x xs H1"
    using run by (auto simp: kj_vec_def)
  have "filling H x KJ (length xs) xs H'"
    using store_all_filling[OF fresh_filling[OF A H1(1) width_values(6)] n] by (simp add: H1(2))
  then show ?thesis
    using filled_longs[of H x xs H'] n by (simp add: filling_def)
qed

lemma ksyms_held:
  assumes A: "api_ok A" and run: "ksyms A (map bytes_of ss) H = Some (x, H')" and n: "length ss < 2 ^ 31"
    and ss: "\<forall>s \<in> set ss. sym_ok s"
  shows "grows H H' \<and> held H' x (KSyms ss)"
proof -
  obtain H1 where H1: "ha_ktn A KS (length ss) H = Some (x, H1)" "intern_each A x 0 (map bytes_of ss) H1 = Some H'"
    using run by (auto simp: ksyms_def Option.bind_eq_Some_conv)
  obtain ps where "filling H x KS (length ss) ps H'" "list_all2 (held_sym H') ps ss"
    using intern_each_filling[OF A n, of x "[]" ss H1 H' H] H1 fresh_filling[OF A H1(1) width_values(9)] ss by auto
  then show ?thesis
    using filled_syms[of H x ss ps H'] n by (simp add: filling_def)
qed

lemma kchars_held:
  assumes A: "api_ok A" and run: "kchars A b H = Some (x, H')"
  shows "grows H H' \<and> held H' x (KVec8 KC b)"
  using A run unfolding api_ok_def kchars_def by blast

section \<open>What a borrowed buffer reads\<close>

lemma rd_bytes_Suc8: "rd_bytes m a (Suc n * 8) = rd_bytes m a (n * 8) @ rd_bytes m (a + 8 * of_nat n) 8"
proof -
  have "[0..<Suc n * 8] = [0..<n * 8] @ map (\<lambda>i. i + n * 8) [0..<8]"
    unfolding map_add_upt using upt_add_eq_append[of 0 "n * 8" 8] by (simp add: add.commute)
  then show ?thesis
    unfolding rd_bytes_def by (simp add: algebra_simps comp_def)
qed

lemma rd64_bytes: "rd_bytes m a 8 = to_le 8 (unat (rd64 m a))"
proof -
  have "of_le (rd_bytes m a 8) < 2 ^ 64"
    using of_le_bound[of "rd_bytes m a 8"] by simp
  then have "unat (rd64 m a) = of_le (rd_bytes m a 8)"
    unfolding rd64_def by (intro unat_of_nat_small) simp
  then show ?thesis
    using to_le_of_le[of "rd_bytes m a 8"] by simp
qed

lemma rd_payload:
  "\<forall>i < length xs. v_j m x i = xs ! i \<Longrightarrow>
     rd_bytes m (va x) (length xs * 8) = concat (map (\<lambda>w. to_le 8 (unat w)) xs)"
proof (induction xs rule: rev_induct)
  case Nil
  then show ?case
    by (simp add: rd_bytes_def)
next
  case (snoc w xs)
  have "\<forall>i < length xs. v_j m x i = xs ! i"
    using snoc.prems by (metis length_append_singleton less_SucI nth_append_left)
  moreover have "rd64 m (va x + 8 * of_nat (length xs)) = w"
    using snoc.prems by (auto simp: v_j_def dest: spec[of _ "length xs"])
  ultimately show ?case
    using snoc.IH rd_bytes_Suc8[of m "va x" "length xs"] rd64_bytes[of m "va x + 8 * of_nat (length xs)"]
    by (simp del: mult_Suc)
qed

lemma held_payload: "held H x (KVec64 t xs) \<Longrightarrow>
   rd_bytes (hp_mem H) (va x) (length xs * 8) = concat (map (\<lambda>w. to_le 8 (unat w)) xs)"
  using held_repr[of H x "KVec64 t xs"] by (intro rd_payload) simp

section \<open>The builders on the example host\<close>

lemma takes_intern: "length b < 2048 \<Longrightarrow> takes 1 (intern ex_host b) (\<lambda>x. True)"
  unfolding takes_def
proof (intro allI impI)
  fix H k
  assume b: "length b < 2048" and H: "below H k" "k + 1 \<le> 1024"
  obtain j where j: "ex_page H = Some j" "j \<le> k"
    using ex_page_free[OF H(1)] H(2) by auto
  have "hp_syms H \<subseteq> hp_used H" "k < 1024"
    using H by (simp_all add: below_def)
  then show "\<exists>y H'. intern ex_host b H = Some (y, H') \<and> True \<and> below H' (k + 1)"
    using b j(1) below_page[OF H(1) j(2)] by (simp add: intern_def ex_host_def ex_sn_def)
qed

lemma store_all_used: "hp_used (store_all x ws H) = hp_used H \<and> hp_syms (store_all x ws H) = hp_syms H"
  by (induction ws rule: rev_induct) (simp_all add: store_all_snoc, simp add: store_all_def)

lemma takes_vectors:
  shows "length xs \<le> 256 \<Longrightarrow> takes 1 (klist ex_host xs) (\<lambda>x. True)"
    and "length js \<le> 256 \<Longrightarrow> takes 1 (kj_vec ex_host js) (\<lambda>x. True)"
proof -
  show "length xs \<le> 256 \<Longrightarrow> takes 1 (klist ex_host xs) (\<lambda>x. True)"
    unfolding klist_def[abs_def]
    by (rule takes_map, rule takes_host(1)) (simp_all add: width_values[simplified] store_all_used)
  show "length js \<le> 256 \<Longrightarrow> takes 1 (kj_vec ex_host js) (\<lambda>x. True)"
    unfolding kj_vec_def[abs_def]
    by (rule takes_map, rule takes_host(1)) (simp_all add: width_values[simplified] store_all_used)
qed

lemma takes_intern_each:
  "\<forall>b \<in> set bs. length b < 2048 \<Longrightarrow> takes (length bs) (\<lambda>H. map_option (\<lambda>H. (r, H)) (intern_each ex_host r i bs H)) (\<lambda>x. True)"
proof (induction bs arbitrary: i)
  case Nil
  then show ?case
    by (simp add: takes_def)
next
  case (Cons b bs)
  show ?case
    unfolding takes_def
  proof (intro allI impI)
    fix H k
    assume H: "below H k" "k + length (b # bs) \<le> 1024"
    then obtain p H1 where p: "intern ex_host b H = Some (p, H1)" "below H1 (k + 1)"
      using takesD[OF takes_intern[of b] H(1)] Cons.prems by auto
    then have "below (store r i p H1) (k + 1)"
      by (simp add: below_def)
    from takesD[OF Cons.IH this] Cons.prems H(2) p(1)
    show "\<exists>y H'. map_option (\<lambda>H. (r, H)) (intern_each ex_host r i (b # bs) H) = Some (y, H') \<and> True \<and> below H' (k + length (b # bs))"
      by auto
  qed
qed

lemma takes_ksyms:
  assumes "\<forall>b \<in> set bs. length b < 2048" "length bs \<le> 256"
  shows "takes (1 + length bs) (ksyms ex_host bs) (\<lambda>x. True)"
  unfolding ksyms_def[abs_def]
  by (rule takes_bind[OF takes_host(1)[of KS] takes_intern_each]) (use assms in \<open>simp_all add: width_values[simplified]\<close>)

lemma ex_host_syms: "\<exists>x H'. ksyms ex_host [bytes_of ''px''] ex_heap = Some (x, H')"
  using takesD[OF takes_ksyms[of "[bytes_of ''px'']"] below_start] by auto

lemma ex_host_longs: "\<exists>x H p H'. kj_vec ex_host [5, 258] ex_heap = Some (x, H) \<and> intern ex_host (bytes_of ''px'') H = Some (p, H')"
proof -
  obtain x H where x: "kj_vec ex_host [5, 258] ex_heap = Some (x, H)" "below H (1 + 1)"
    using takesD[OF takes_vectors(2)[of "[5, 258]"] below_start] by auto
  then show ?thesis
    using takesD[OF takes_intern[of "bytes_of ''px''"] x(2)] by auto
qed

section \<open>Properties\<close>

text \<open>C20
  What the builders return. Over any host whose allocator and symbol table keep their laws,
  a vector built by \<^verbatim>\<open>klist\<close>, \<^verbatim>\<open>ksyms\<close>, \<^verbatim>\<open>kj_vec\<close> or \<^verbatim>\<open>kchars\<close> denotes
  exactly the values it was built from, read through the accessors of the crate; it disturbs
  no value the host held before, and no later growth of the heap disturbs it.
\<close>

theorem host_values_denote:
  assumes "api_ok A" "length xs < 2 ^ 31" "list_all2 (held H) xs vs"
    "length ss < 2 ^ 31" "\<forall>s \<in> set ss. sym_ok s" "length js < 2 ^ 31"
  shows "(\<forall>x H'. klist A xs H = Some (x, H') \<longrightarrow> grows H H' \<and> held H' x (KList vs)) \<and>
    (\<forall>x H'. ksyms A (map bytes_of ss) H = Some (x, H') \<longrightarrow> grows H H' \<and> held H' x (KSyms ss)) \<and>
    (\<forall>x H'. kj_vec A js H = Some (x, H') \<longrightarrow> grows H H' \<and> held H' x (KVec64 KJ js)) \<and>
    (\<forall>x H'. kchars A b H = Some (x, H') \<longrightarrow> grows H H' \<and> held H' x (KVec8 KC b)) \<and>
    (\<forall>x v H1 H2. grows H1 H2 \<longrightarrow> held H1 x v \<longrightarrow> held H2 x v \<and> repr (hp_mem H2) x v)"
  using klist_held[OF assms(1) _ assms(3,2)] ksyms_held[OF assms(1) _ assms(4,5)] kj_vec_held[OF assms(1) _ assms(6)]
    kchars_held[OF assms(1)] held_grows held_repr by blast

theorem host_values_denote_witness:
  "\<exists>x H'. ksyms ex_host [bytes_of ''px''] ex_heap = Some (x, H') \<and> repr (hp_mem H') x (KSyms [''px''])"
proof -
  have "sym_ok ''px''"
    by (simp add: sym_ok_def)
  then have ok: "\<forall>s \<in> set [''px'']. sym_ok s"
    by simp
  obtain x H' where run: "ksyms ex_host (map bytes_of [''px'']) ex_heap = Some (x, H')"
    using ex_host_syms by auto
  have "held H' x (KSyms [''px''])"
    using host_values_denote[OF ex_host_ok _ _ _ ok, of "[]" ex_heap "[]" "[]"] run by simp
  then show ?thesis
    using run held_repr by fastforce
qed



end

