(* ===== verification/HostVec.thy ===== *)
theory HostVec
  imports HostHeap Stats
begin

text \<open>
  Vectors under construction in the host's memory: stores through the typed views
  (\<^verbatim>\<open>v_g\<close> to \<^verbatim>\<open>v_s\<close> of \<^verbatim>\<open>src/src/ffi.rs\<close>), and what a vector whose first
  slots are written denotes while others are written beside it.
\<close>

section \<open>Stores through the typed views\<close>

definition put_bytes :: "K \<Rightarrow> nat \<Rightarrow> u8 list \<Rightarrow> heap \<Rightarrow> heap" where
  "put_bytes x off bs H = H\<lparr>hp_mem := wr_bytes (hp_mem H) (va x + of_nat off) bs\<rparr>"

definition m_set8 :: "K \<Rightarrow> nat \<Rightarrow> u8 \<Rightarrow> heap \<Rightarrow> heap" where
  "m_set8 x g v = put_bytes x g [v]"

definition m_set16 :: "K \<Rightarrow> nat \<Rightarrow> i16 \<Rightarrow> heap \<Rightarrow> heap" where
  "m_set16 x g v = put_bytes x (2 * g) (to_le 2 (unat v))"

definition m_set32 :: "K \<Rightarrow> nat \<Rightarrow> 32 word \<Rightarrow> heap \<Rightarrow> heap" where
  "m_set32 x g v = put_bytes x (4 * g) (to_le 4 (unat v))"

definition m_set64 :: "K \<Rightarrow> nat \<Rightarrow> 64 word \<Rightarrow> heap \<Rightarrow> heap" where
  "m_set64 x g v = put_bytes x (8 * g) (to_le 8 (unat v))"

definition m_set_sym :: "host_api \<Rightarrow> K \<Rightarrow> nat \<Rightarrow> string \<Rightarrow> heap \<Rightarrow> heap option" where
  "m_set_sym A x g s H = map_option (\<lambda>(p, H). m_set64 x g p H) (intern A (bytes_of s) H)"

section \<open>Slots\<close>

text \<open>Slot \<open>i\<close> of the vector at \<open>x\<close> holds element \<open>i\<close> of the tree; a symbol rests on the symbol table.\<close>

fun slot_at :: "heap \<Rightarrow> K \<Rightarrow> kval \<Rightarrow> nat \<Rightarrow> bool" where
  "slot_at H x (KVec8 t xs) i = (v_g (hp_mem H) x i = xs ! i)"
| "slot_at H x (KVec16 t xs) i = (v_h (hp_mem H) x i = xs ! i)"
| "slot_at H x (KVec32 t xs) i = (v_i (hp_mem H) x i = xs ! i)"
| "slot_at H x (KVec64 t xs) i = (v_j (hp_mem H) x i = xs ! i)"
| "slot_at H x (KSyms ss) i = held_sym H (v_s (hp_mem H) x i) (ss ! i)"
| "slot_at H x v i = False"

definition body :: "K \<Rightarrow> int \<Rightarrow> nat \<Rightarrow> 64 word set" where
  "body x t n = region (va x) (width t * n)"

definition wslot :: "K \<Rightarrow> int \<Rightarrow> nat \<Rightarrow> 64 word set" where
  "wslot x t i = region (va x + of_nat (width t * i)) (width t)"

text \<open>A vector with its own header and payload, the first \<open>k\<close> slots of which are written.\<close>

definition part :: "heap \<Rightarrow> K \<Rightarrow> int \<Rightarrow> nat \<Rightarrow> kval \<Rightarrow> nat \<Rightarrow> bool" where
  "part H x t n v k \<longleftrightarrow> heap_hdr (hp_mem H) x t n \<and> header x \<union> body x t n \<subseteq> hp_used H \<and>
     body x t n \<inter> (header x \<union> hp_syms H) = {} \<and> hp_syms H \<subseteq> hp_used H \<and>
     vec_of t n v \<and> (\<forall>i < k. i < n \<longrightarrow> slot_at H x v i)"

text \<open>What an operation on the vector at \<open>x\<close> may do: write its payload, and take new memory.\<close>

definition edits :: "heap \<Rightarrow> K \<Rightarrow> int \<Rightarrow> nat \<Rightarrow> heap \<Rightarrow> bool" where
  "edits H x t n H' \<longleftrightarrow> hp_used H \<subseteq> hp_used H' \<and> (\<forall>a \<in> hp_used H - body x t n. hp_mem H' a = hp_mem H a) \<and>
     hp_syms H \<subseteq> hp_syms H' \<and> hp_syms H' \<inter> hp_used H \<subseteq> hp_syms H \<and> hp_syms H' \<subseteq> hp_used H'"

lemma editsD:
  assumes "edits H x t n H'"
  shows "hp_used H \<subseteq> hp_used H'" "\<And>a. a \<in> hp_used H \<Longrightarrow> a \<notin> body x t n \<Longrightarrow> hp_mem H' a = hp_mem H a"
    "hp_syms H \<subseteq> hp_syms H'" "hp_syms H' \<inter> hp_used H \<subseteq> hp_syms H" "hp_syms H' \<subseteq> hp_used H'"
  using assms by (auto simp: edits_def)

lemma growsD:
  assumes "grows H H'"
  shows "hp_used H \<subseteq> hp_used H'" "\<And>a. a \<in> hp_used H \<Longrightarrow> hp_mem H' a = hp_mem H a"
    "hp_syms H \<subseteq> hp_syms H'" "hp_syms H' \<inter> hp_used H \<subseteq> hp_syms H" "hp_syms H' \<subseteq> hp_used H'"
  using assms by (auto simp: grows_def)

lemma grows_refl: "hp_syms H \<subseteq> hp_used H \<Longrightarrow> grows H H"
  by (simp add: grows_def)

lemma helds_grows: "list_all2 (held H) xs vs \<Longrightarrow> grows H H' \<Longrightarrow> list_all2 (held H') xs vs"
  using held_grows by (auto elim: list_all2_mono)

lemma grows_edits: "grows H H' \<Longrightarrow> edits H x t n H'"
  by (simp add: grows_def edits_def)

lemma edits_trans:
  assumes "edits H x t n H1" "edits H1 x t n H2"
  shows "edits H x t n H2"
proof -
  note a = editsD[OF assms(1)] and b = editsD[OF assms(2)]
  have "hp_mem H2 z = hp_mem H z" if "z \<in> hp_used H" "z \<notin> body x t n" for z
    using a(1) a(2)[OF that] b(2)[of z] that by auto
  moreover have "hp_syms H2 \<inter> hp_used H \<subseteq> hp_syms H"
    using a(1,4) b(4) by blast
  ultimately show ?thesis
    using a(1,3) b(1,3,5) unfolding edits_def by blast
qed

lemma edits_grows:
  assumes g: "grows H0 H" and e: "edits H x t n H'" and own: "body x t n \<inter> hp_used H0 = {}"
  shows "grows H0 H'"
proof -
  note a = growsD[OF g] and b = editsD[OF e]
  have "hp_mem H' z = hp_mem H0 z" if "z \<in> hp_used H0" for z
    using a(1) a(2)[OF that] b(2)[of z] own that by auto
  moreover have "hp_syms H' \<inter> hp_used H0 \<subseteq> hp_syms H0"
    using a(1,4) b(4) by blast
  ultimately show ?thesis
    using a(1,3) b(1,3,5) unfolding grows_def by blast
qed

lemma edits_keeps_syms:
  assumes e: "edits H x t n H'" and s: "body x t n \<inter> hp_syms H = {}" "hp_syms H \<subseteq> hp_used H"
  shows "keeps_syms H H'"
  using editsD[OF e] s unfolding keeps_syms_def by blast

lemma wslot_bounds: "b \<in> wslot x t i \<Longrightarrow> i < n \<Longrightarrow> n < 2 ^ 31 \<Longrightarrow>
   width t * i \<le> unat (b - va x) \<and> unat (b - va x) < width t * i + width t"
proof -
  assume b: "b \<in> wslot x t i" and n: "i < n" "n < 2 ^ 31"
  have "width t \<le> 16"
    by (auto simp: width_def nth_Cons' Let_def)
  then have "width t * i + width t \<le> 16 * n"
    using n mult_le_mono[of "width t" 16 "Suc i" n] by simp
  then show ?thesis
    using offset_bounds[of "b - va x" "width t * i" "width t"] b n by (simp add: wslot_def region_def algebra_simps)
qed

lemma wslot_body: "i < n \<Longrightarrow> n < 2 ^ 31 \<Longrightarrow> wslot x t i \<subseteq> body x t n"
proof
  fix b
  assume i: "i < n" "n < 2 ^ 31" and b: "b \<in> wslot x t i"
  have "width t * i + width t \<le> width t * n"
    using i(1) mult_le_mono[of "width t" "width t" "Suc i" n] by simp
  then show "b \<in> body x t n"
    using wslot_bounds[OF b i] by (simp add: body_def region_def)
qed

lemma wslot_apart:
  assumes "i < n" "j < n" "n < 2 ^ 31" "i \<noteq> j"
  shows "wslot x t i \<inter> wslot x t j = {}"
proof (rule ccontr)
  assume "wslot x t i \<inter> wslot x t j \<noteq> {}"
  then obtain b where b: "b \<in> wslot x t i" "b \<in> wslot x t j"
    by blast
  have "width t * i + width t \<le> width t * j \<or> width t * j + width t \<le> width t * i"
    using assms(4) mult_le_mono[of "width t" "width t" "Suc i" j] mult_le_mono[of "width t" "width t" "Suc j" i]
    by (auto simp: less_eq_Suc_le linorder_neq_iff)
  then show False
    using wslot_bounds[OF b(1) assms(1,3)] wslot_bounds[OF b(2) assms(2,3)] by linarith
qed

lemma rd_small_cong:
  "\<forall>b \<in> region a 2. m b = m' b \<Longrightarrow> rd16 m a = rd16 m' a"
  "\<forall>b \<in> region a 4. m b = m' b \<Longrightarrow> rd32 m a = rd32 m' a"
  using rd_bytes_cong[of a 2 m m'] rd_bytes_cong[of a 4 m m'] by (simp_all add: rd16_def rd32_def)

lemma slot_at_cong:
  assumes v: "vec_of t n v" and m: "\<forall>b \<in> wslot x t i. hp_mem H' b = hp_mem H b" and k: "keeps_syms H H'"
    and s: "slot_at H x v i"
  shows "slot_at H' x v i"
proof (cases v)
  case (KVec8 t' xs)
  have "width t = 1"
    using v KVec8 by (auto simp: width_def)
  then have "va x + of_nat i \<in> wslot x t i"
    by (simp add: wslot_def region_def)
  then show ?thesis
    using m s KVec8 by (simp add: v_g_def)
next
  case (KVec16 t' xs)
  then have "width t = 2"
    using v by (auto simp: width_def)
  then show ?thesis
    using m s KVec16 rd_small_cong(1)[of "va x + 2 * of_nat i" "hp_mem H'" "hp_mem H"]
    by (simp add: v_h_def wslot_def)
next
  case (KVec32 t' xs)
  then have "width t = 4"
    using v by (auto simp: width_def)
  then show ?thesis
    using m s KVec32 rd_small_cong(2)[of "va x + 4 * of_nat i" "hp_mem H'" "hp_mem H"]
    by (simp add: v_i_def wslot_def)
next
  case (KVec64 t' xs)
  then have "width t = 8"
    using v by (auto simp: width_def)
  then show ?thesis
    using m s KVec64 rd64_cong[of "va x + 8 * of_nat i" "hp_mem H'" "hp_mem H"]
    by (simp add: v_j_def wslot_def)
next
  case (KSyms ss)
  then have "width t = 8"
    using v by (auto simp: width_def)
  then have "v_s (hp_mem H') x i = v_s (hp_mem H) x i"
    using m rd64_cong[of "va x + 8 * of_nat i" "hp_mem H'" "hp_mem H"] by (simp add: v_s_def wslot_def)
  then show ?thesis
    using s KSyms held_sym_keeps[OF _ k] by simp
qed (use v s in simp_all)

text \<open>A part whose header and payload nothing touches stays.\<close>

lemma part_cong:
  assumes p: "part H x t n v k" and n: "n < 2 ^ 31" and m: "\<forall>a \<in> header x \<union> body x t n. hp_mem H' a = hp_mem H a"
    and u: "hp_used H \<subseteq> hp_used H'" and s: "keeps_syms H H'" "hp_syms H' \<inter> hp_used H \<subseteq> hp_syms H"
  shows "part H' x t n v k"
proof -
  have p': "heap_hdr (hp_mem H) x t n" "header x \<union> body x t n \<subseteq> hp_used H" "body x t n \<inter> (header x \<union> hp_syms H) = {}"
      "vec_of t n v" "\<And>i. i < k \<Longrightarrow> i < n \<Longrightarrow> slot_at H x v i"
    using p by (auto simp: part_def)
  have "slot_at H' x v i" if "i < k" "i < n" for i
    using wslot_body[OF that(2) n] m by (intro slot_at_cong[OF p'(4) _ s(1) p'(5)[OF that]]) blast
  moreover have "heap_hdr (hp_mem H') x t n"
    using p'(1) m heap_hdr_cong[of x "hp_mem H'" "hp_mem H"] by blast
  moreover have "body x t n \<inter> (header x \<union> hp_syms H') = {}"
    using p'(2,3) s(2) by blast
  moreover have "hp_syms H' \<subseteq> hp_used H'" "header x \<union> body x t n \<subseteq> hp_used H'"
    using s(1) p'(2) u by (auto simp: keeps_syms_def)
  ultimately show ?thesis
    using p'(4) by (simp add: part_def)
qed

lemma part_grows: "part H x t n v k \<Longrightarrow> n < 2 ^ 31 \<Longrightarrow> grows H H' \<Longrightarrow> part H' x t n v k"
proof (rule part_cong)
  assume p: "part H x t n v k" and g: "grows H H'"
  show "\<forall>a \<in> header x \<union> body x t n. hp_mem H' a = hp_mem H a"
    using growsD(2)[OF g] p unfolding part_def by blast
  show "hp_used H \<subseteq> hp_used H'" "hp_syms H' \<inter> hp_used H \<subseteq> hp_syms H"
    using growsD[OF g] by blast+
  show "keeps_syms H H'"
    using grows_keeps[OF g] p by (simp add: part_def)
qed simp_all

lemma part_beside:
  assumes p: "part H y u l w k" and n: "l < 2 ^ 31" and q: "part H x t n v j" and e: "edits H x t n H'"
    and ap: "body x t n \<inter> (header y \<union> body y u l) = {}"
  shows "part H' y u l w k"
proof (rule part_cong[OF p n])
  note d = editsD[OF e]
  show "\<forall>a \<in> header y \<union> body y u l. hp_mem H' a = hp_mem H a"
    using d(2) p ap unfolding part_def by blast
  show "keeps_syms H H'"
    using q by (intro edits_keeps_syms[OF e]) (auto simp: part_def)
qed (use editsD[OF e] in blast)+

text \<open>A part whose slots are all written denotes its tree.\<close>

lemma part_held:
  assumes p: "part H x t n v k" and n: "n < 2 ^ 31" "n \<le> k"
  shows "held H x v"
  unfolding held_def
proof (intro allI impI)
  fix m
  assume m: "\<forall>a \<in> hp_used H. m a = hp_mem H a"
  let ?H = "H\<lparr>hp_mem := m\<rparr>"
  have "grows H ?H"
    using m p by (simp add: grows_def part_def)
  then have "part ?H x t n v k"
    using part_grows[OF p n(1)] by simp
  then have q: "heap_hdr m x t n" "vec_of t n v" "\<And>i. i < n \<Longrightarrow> slot_at ?H x v i"
    using n(2) by (auto simp: part_def)
  show "repr m x v"
    using q held_sym_cstr[of ?H] by (cases v) auto
qed

section \<open>Stores\<close>

text \<open>\<open>upd\<close>: slot \<open>g\<close> is written, making the tree \<open>v'\<close>, and nothing beside the payload changes.\<close>

definition upd :: "heap \<Rightarrow> K \<Rightarrow> int \<Rightarrow> nat \<Rightarrow> kval \<Rightarrow> nat \<Rightarrow> heap \<Rightarrow> bool" where
  "upd H x t n v' k' H' \<longleftrightarrow> edits H x t n H' \<and> part H' x t n v' k'"

lemma put_bytes_other: "b \<notin> wslot x t g \<Longrightarrow> length bs = width t \<Longrightarrow> hp_mem (put_bytes x (width t * g) bs H) b = hp_mem H b"
  by (simp add: put_bytes_def wslot_def wr_other)

lemma put_bytes_read: "length bs \<le> 2 ^ 64 \<Longrightarrow> rd_bytes (hp_mem (put_bytes x off bs H)) (va x + of_nat off) (length bs) = bs"
  by (simp add: put_bytes_def rd_wr_same)

lemma put_bytes_used [simp]: "hp_used (put_bytes x off bs H) = hp_used H" "hp_syms (put_bytes x off bs H) = hp_syms H"
  by (simp_all add: put_bytes_def)

lemma put_upd:
  assumes p: "part H x t n v k" and g: "g < n" "n < 2 ^ 31" "g \<le> k" and bs: "length bs = width t"
    and v': "vec_of t n v'" and old: "\<And>i. i \<noteq> g \<Longrightarrow> slot_at H x v i \<Longrightarrow> slot_at H x v' i"
    and new: "slot_at (put_bytes x (width t * g) bs H) x v' g"
  shows "upd H x t n v' (max k (Suc g)) (put_bytes x (width t * g) bs H)"
proof -
  let ?H = "put_bytes x (width t * g) bs H"
  have p': "heap_hdr (hp_mem H) x t n" "header x \<union> body x t n \<subseteq> hp_used H" "body x t n \<inter> (header x \<union> hp_syms H) = {}"
      "hp_syms H \<subseteq> hp_used H" "\<And>i. i < k \<Longrightarrow> i < n \<Longrightarrow> slot_at H x v i"
    using p by (auto simp: part_def)
  have keep: "hp_mem ?H b = hp_mem H b" if "b \<notin> body x t n" for b
    using wslot_body[OF g(1,2)] put_bytes_other[of b x t g bs H] bs that by blast
  have e: "edits H x t n ?H"
    using keep p'(4) by (simp add: edits_def)
  have ks: "keeps_syms H ?H"
    using p'(3,4) by (intro edits_keeps_syms[OF e]) blast+
  have "slot_at ?H x v' i" if i: "i < max k (Suc g)" "i < n" for i
  proof (cases "i = g")
    case True
    then show ?thesis using new by simp
  next
    case False
    then have "slot_at H x v' i"
      using i g(3) p'(5)[OF _ i(2)] old by auto
    moreover have "\<forall>b \<in> wslot x t i. hp_mem ?H b = hp_mem H b"
      using wslot_apart[OF i(2) g(1,2) False] put_bytes_other[OF _ bs] by blast
    ultimately show ?thesis
      using slot_at_cong[OF v' _ ks] by blast
  qed
  moreover have "heap_hdr (hp_mem ?H) x t n"
    using p'(1,3) keep heap_hdr_cong[of x "hp_mem ?H" "hp_mem H"] by blast
  ultimately show ?thesis
    using e p'(2,3,4) v' by (simp add: upd_def part_def)
qed

text \<open>One store at each width.\<close>

lemma store_slots:
  shows "v_g (hp_mem (m_set8 x g b H)) x g = b"
    and "v_h (hp_mem (m_set16 x g h H)) x g = h"
    and "v_i (hp_mem (m_set32 x g i H)) x g = i"
    and "v_j (hp_mem (m_set64 x g j H)) x g = j"
    and "v_s (hp_mem (m_set64 x g j H)) x g = j"
proof -
  have r: "rd_bytes (hp_mem (put_bytes x (k * g) (to_le k n) H)) (va x + of_nat k * of_nat g) k = to_le k n" if "k \<le> 8" for k n
    using put_bytes_read[of "to_le k n" x "k * g" H] that by simp
  show "v_g (hp_mem (m_set8 x g b H)) x g = b"
    by (simp add: v_g_def m_set8_def put_bytes_def wr_bytes_def)
  show "v_h (hp_mem (m_set16 x g h H)) x g = h"
    using r[of 2 "unat h"] unsigned_less[of h, where 'a = nat]
    by (simp add: v_h_def rd16_def m_set16_def of_le_to_le)
  show "v_i (hp_mem (m_set32 x g i H)) x g = i"
    using r[of 4 "unat i"] unsigned_less[of i, where 'a = nat]
    by (simp add: v_i_def rd32_def m_set32_def of_le_to_le)
  show "v_j (hp_mem (m_set64 x g j H)) x g = j" "v_s (hp_mem (m_set64 x g j H)) x g = j"
    using r[of 8 "unat j"] unsigned_less[of j, where 'a = nat]
    by (simp_all add: v_j_def v_s_def rd64_def m_set64_def of_le_to_le)
qed

lemma upd_words:
  assumes p: "part H x t n v k" and g: "g < n" "n < 2 ^ 31" "g \<le> k"
  shows "t \<in> {KB, KG} \<Longrightarrow> upd H x t n (set8 v g b) (max k (Suc g)) (m_set8 x g b H)"
    and "t = KH \<Longrightarrow> upd H x t n (set16 v g h) (max k (Suc g)) (m_set16 x g h H)"
    and "t \<in> {KI, KE, KD, KT} \<Longrightarrow> upd H x t n (set32 v g i) (max k (Suc g)) (m_set32 x g i H)"
    and "t \<in> {KJ, KF, KP, KN} \<Longrightarrow> upd H x t n (set64 v g j) (max k (Suc g)) (m_set64 x g j H)"
proof -
  have v: "vec_of t n v"
    using p by (simp add: part_def)
  show "upd H x t n (set8 v g b) (max k (Suc g)) (m_set8 x g b H)" if t: "t \<in> {KB, KG}"
  proof -
    have w: "width t = 1" and "\<exists>xs. v = KVec8 t xs \<and> length xs = n"
      using v t by (cases v; auto simp: width_def)+
    then show ?thesis
      using put_upd[OF p g, of "[b]" "set8 v g b"] set_vec(1)[OF v] store_slots(1)[of x g b H] g(1)
      by (auto simp: m_set8_def)
  qed
  show "upd H x t n (set16 v g h) (max k (Suc g)) (m_set16 x g h H)" if t: "t = KH"
  proof -
    have w: "width t = 2" and "\<exists>xs. v = KVec16 t xs \<and> length xs = n"
      using v t by (cases v; auto simp: width_def)+
    then show ?thesis
      using put_upd[OF p g, of "to_le 2 (unat h)" "set16 v g h"] set_vec(2)[OF v] store_slots(2)[of x g h H] g(1)
      by (auto simp: m_set16_def)
  qed
  show "upd H x t n (set32 v g i) (max k (Suc g)) (m_set32 x g i H)" if t: "t \<in> {KI, KE, KD, KT}"
  proof -
    have w: "width t = 4" and "\<exists>xs. v = KVec32 t xs \<and> length xs = n"
      using v t by (cases v; auto simp: width_def)+
    then show ?thesis
      using put_upd[OF p g, of "to_le 4 (unat i)" "set32 v g i"] set_vec(3)[OF v] store_slots(3)[of x g i H] g(1)
      by (auto simp: m_set32_def)
  qed
  show "upd H x t n (set64 v g j) (max k (Suc g)) (m_set64 x g j H)" if t: "t \<in> {KJ, KF, KP, KN}"
  proof -
    have w: "width t = 8" and "\<exists>xs. v = KVec64 t xs \<and> length xs = n"
      using v t by (cases v; auto simp: width_def)+
    then show ?thesis
      using put_upd[OF p g, of "to_le 8 (unat j)" "set64 v g j"] set_vec(4)[OF v] store_slots(4)[of x g j H] g(1)
      by (auto simp: m_set64_def)
  qed
qed

lemma put_keeps_syms:
  assumes p: "part H x t n v k" and g: "g < n" "n < 2 ^ 31" and bs: "length bs = width t"
  shows "keeps_syms H (put_bytes x (width t * g) bs H)"
proof -
  have "wslot x t g \<inter> hp_syms H = {}" "hp_syms H \<subseteq> hp_used H"
    using wslot_body[OF g] p unfolding part_def by blast+
  then show ?thesis
    using put_bytes_other[of _ x t g bs H] bs unfolding keeps_syms_def by auto
qed

lemma upd_sym:
  assumes A: "api_ok A" and s: "sym_ok s" and p: "part H x KS n v k" and g: "g < n" "n < 2 ^ 31" "g \<le> k"
    and run: "m_set_sym A x g s H = Some H'"
  shows "upd H x KS n (set_sym v g s) (max k (Suc g)) H'"
proof -
  obtain q H1 where q: "intern A (bytes_of s) H = Some (q, H1)" and H': "H' = m_set64 x g q H1"
    using run by (auto simp: m_set_sym_def)
  have gr: "grows H H1" and hs: "held_sym H1 q s"
    using intern_held[OF A q s] by blast+
  have p1: "part H1 x KS n v k"
    using part_grows[OF p g(2) gr] .
  have w: "width KS = 8" and H'': "H' = put_bytes x (width KS * g) (to_le 8 (unat q)) H1"
    by (simp_all add: H' m_set64_def width_def)
  have v: "vec_of KS n v"
    using p by (simp add: part_def)
  then obtain ss where ss: "v = KSyms ss" "length ss = n"
    by (cases v) auto
  have "held_sym H' q s"
    unfolding H'' by (rule held_sym_keeps[OF hs put_keeps_syms[OF p1 g(1,2)]]) (simp add: w[simplified])
  then have new: "slot_at H' x (set_sym v g s) g"
    using ss g(1) store_slots(5)[of x g q H1] by (simp add: H')
  have "upd H1 x KS n (set_sym v g s) (max k (Suc g)) H'"
    unfolding H''
    by (rule put_upd[OF p1 g]) (use set_vec(5)[OF v] ss new[unfolded H''] w in \<open>simp_all\<close>)
  then show ?thesis
    using edits_trans[OF grows_edits[OF gr]] by (simp add: upd_def)
qed

lemma upd_refl: "part H x t n v k \<Longrightarrow> upd H x t n v k H"
  by (simp add: upd_def edits_def part_def)

lemma upd_trans: "upd H x t n v1 k1 H1 \<Longrightarrow> upd H1 x t n v2 k2 H2 \<Longrightarrow> upd H x t n v2 k2 H2"
  using edits_trans unfolding upd_def by blast

section \<open>Several vectors at a time\<close>

text \<open>
  The vectors an operation has allocated and is still writing, each with its tree and its
  number of written slots: they lie apart from one another and from what was in use before.
\<close>

type_synonym open_vec = "K \<times> int \<times> nat \<times> kval \<times> nat"

fun site_of :: "open_vec \<Rightarrow> 64 word set" where
  "site_of (x, t, n, v, k) = header x \<union> body x t n"

fun built :: "heap \<Rightarrow> open_vec \<Rightarrow> bool" where
  "built H (x, t, n, v, k) = (n < 2 ^ 31 \<and> part H x t n v k)"

definition fleet :: "heap \<Rightarrow> heap \<Rightarrow> open_vec list \<Rightarrow> bool" where
  "fleet H0 H vs \<longleftrightarrow> grows H0 H \<and> (\<forall>o1 \<in> set vs. built H o1 \<and> site_of o1 \<inter> hp_used H0 = {}) \<and>
     (\<forall>i < length vs. \<forall>j < length vs. i \<noteq> j \<longrightarrow> site_of (vs ! i) \<inter> site_of (vs ! j) = {})"

lemma fleet_start: "hp_syms H \<subseteq> hp_used H \<Longrightarrow> fleet H H []"
  by (simp add: fleet_def grows_refl)

lemma fleet_grows:
  assumes "fleet H0 H vs" "grows H H'"
  shows "fleet H0 H' vs"
proof -
  have "built H' o1" if "o1 \<in> set vs" for o1
    using assms that part_grows by (cases o1) (fastforce simp: fleet_def)
  then show ?thesis
    using assms grows_trans by (auto simp: fleet_def)
qed

lemma fleet_alloc:
  assumes f: "fleet H0 H vs" and a: "fresh_vec H H' x t n" and v: "vec_of t n v" and n: "n < 2 ^ 31"
  shows "fleet H0 H' (vs @ [(x, t, n, v, 0)])"
proof -
  have g: "grows H H'" and new: "(header x \<union> body x t n) \<inter> hp_used H = {}" and p: "part H' x t n v 0"
    using a v growsD(5)[of H H'] unfolding fresh_vec_def part_def body_def by auto
  have f': "fleet H0 H' vs"
    using fleet_grows[OF f g] .
  have old: "site_of o1 \<subseteq> hp_used H" if o: "o1 \<in> set vs" for o1
  proof -
    have "built H o1"
      using f o by (simp add: fleet_def)
    then show ?thesis
      by (cases o1) (simp add: part_def)
  qed
  have "hp_used H0 \<subseteq> hp_used H"
    using f growsD(1) by (simp add: fleet_def)
  moreover have "site_of (vs ! i) \<inter> (header x \<union> body x t n) = {}" if "i < length vs" for i
    using old[of "vs ! i"] that new by auto
  ultimately show ?thesis
    using f' p n new unfolding fleet_def by (auto simp: nth_append less_Suc_eq)
qed

lemma fleet_edit:
  assumes f: "fleet H0 H vs" and i: "i < length vs" "vs ! i = (x, t, n, v, k)" and u: "upd H x t n v' k' H'"
  shows "fleet H0 H' (vs[i := (x, t, n, v', k')])"
proof -
  have e: "edits H x t n H'" and p': "part H' x t n v' k'"
    using u by (simp_all add: upd_def)
  have o: "built H (x, t, n, v, k)" "site_of (x, t, n, v, k) \<inter> hp_used H0 = {}"
    using f i unfolding fleet_def by (metis nth_mem)+
  have "built H' (vs ! j)" if j: "j < length vs" "j \<noteq> i" for j
  proof (cases "vs ! j")
    case (fields y s l w m)
    have "built H (y, s, l, w, m)" "site_of (x, t, n, v, k) \<inter> site_of (y, s, l, w, m) = {}"
      using f i j fields unfolding fleet_def by (metis nth_mem)+
    then show ?thesis
      using part_beside[of H y s l w m x t n v k H'] o(1) e fields by auto
  qed
  moreover have "grows H0 H'"
    using f o(2) by (intro edits_grows[OF _ e]) (auto simp: fleet_def)
  moreover have "site_of (vs[i := (x, t, n, v', k')] ! j) = site_of (vs ! j)" if "j < length vs" for j
    using that i by (cases "i = j") (simp_all add: nth_list_update)
  ultimately show ?thesis
    using f o(1) p' i unfolding fleet_def
    by (auto simp: all_set_conv_all_nth nth_list_update)
qed

lemma fleet_held: "fleet H0 H vs \<Longrightarrow> (x, t, n, v, k) \<in> set vs \<Longrightarrow> n \<le> k \<Longrightarrow> grows H0 H \<and> held H x v"
  using part_held by (fastforce simp: fleet_def)

section \<open>Loops that build\<close>

text \<open>A loop over the memory, and one that collects what it builds.\<close>

fun steps :: "('a \<Rightarrow> heap \<Rightarrow> heap option) \<Rightarrow> 'a list \<Rightarrow> heap \<Rightarrow> heap option" where
  "steps f [] H = Some H"
| "steps f (x # xs) H = Option.bind (f x H) (steps f xs)"

fun m_each :: "('a \<Rightarrow> heap \<Rightarrow> ('b \<times> heap) option) \<Rightarrow> 'a list \<Rightarrow> heap \<Rightarrow> ('b list \<times> heap) option" where
  "m_each f [] H = Some ([], H)"
| "m_each f (x # xs) H = Option.bind (f x H) (\<lambda>(y, H). map_option (\<lambda>(ys, H). (y # ys, H)) (m_each f xs H))"

text \<open>
  A builder returns something that denotes its argument, and disturbs nothing; the locale's
  lemmas are what a loop over builders returns, and the list of it.
\<close>

locale heap_builder =
  fixes build :: "host_api \<Rightarrow> 'a \<Rightarrow> heap \<Rightarrow> ('b \<times> heap) option"
    and ok :: "'a \<Rightarrow> bool" and denotes :: "heap \<Rightarrow> 'b \<Rightarrow> 'a \<Rightarrow> bool"
  assumes builds: "api_ok A \<Longrightarrow> hp_syms H \<subseteq> hp_used H \<Longrightarrow> ok a \<Longrightarrow> build A a H = Some (y, H') \<Longrightarrow>
      grows H H' \<and> denotes H' y a"
    and stays: "denotes H y a \<Longrightarrow> grows H H' \<Longrightarrow> denotes H' y a"
begin

lemma each:
  assumes A: "api_ok A"
  shows "hp_syms H \<subseteq> hp_used H \<Longrightarrow> \<forall>a \<in> set as. ok a \<Longrightarrow> m_each (build A) as H = Some (ys, H') \<Longrightarrow>
    grows H H' \<and> list_all2 (denotes H') ys as"
proof (induction as arbitrary: H ys)
  case Nil
  then show ?case
    by (simp add: grows_refl)
next
  case (Cons a as)
  obtain y H1 zs where y: "build A a H = Some (y, H1)" and zs: "m_each (build A) as H1 = Some (zs, H')" "ys = y # zs"
    using Cons.prems(3) by (auto simp: Option.bind_eq_Some_conv)
  have b: "grows H H1 \<and> denotes H1 y a"
    using builds[OF A Cons.prems(1) _ y] Cons.prems(2) by simp
  then have "grows H1 H' \<and> list_all2 (denotes H') zs as"
    using Cons.IH[OF _ _ zs(1)] Cons.prems(2) growsD(5)[of H H1] by simp
  then show ?case
    using b stays grows_trans zs(2) by auto
qed

end

locale tree_builder = heap_builder build ok "\<lambda>H x a. held H x (tree a)"
  for build :: "host_api \<Rightarrow> 'a \<Rightarrow> heap \<Rightarrow> (K \<times> heap) option" and ok :: "'a \<Rightarrow> bool" and tree :: "'a \<Rightarrow> kval"
begin

lemma listed:
  assumes A: "api_ok A" and s: "hp_syms H \<subseteq> hp_used H" and ok: "\<forall>a \<in> set as. ok a" and n: "length as < 2 ^ 31"
    and run: "Option.bind (m_each (build A) as H) (\<lambda>(xs, H). klist A xs H) = Some (x, H')"
  shows "grows H H' \<and> held H' x (KList (map tree as))"
proof -
  obtain xs H1 where xs: "m_each (build A) as H = Some (xs, H1)" "klist A xs H1 = Some (x, H')"
    using run by (auto simp: Option.bind_eq_Some_conv)
  have e: "grows H H1" "list_all2 (held H1) xs (map tree as)"
    using each[OF A s ok xs(1)] by (simp_all add: list_all2_conv_all_nth)
  then show ?thesis
    using klist_held[OF A xs(2) e(2)] n grows_trans list_all2_lengthD[OF e(2)] by auto
qed

end

end
