(* ===== verification/HostMeta.thy ===== *)
theory HostMeta
  imports HostVec
begin

text \<open>
  The dict of \<^verbatim>\<open>pq_meta\<close> as \<^verbatim>\<open>src/src/meta.rs\<close> builds it in the host's
  memory: vectors allocated with arbitrary contents, stored into slot by slot at their
  element's width, several of them at a time, and tied together by lists and dicts. The value
  tree of \<open>Stats\<close> is what that memory denotes.
\<close>

section \<open>One statistic\<close>

definition m_put_null :: "host_api \<Rightarrow> int \<Rightarrow> K \<Rightarrow> nat \<Rightarrow> heap \<Rightarrow> heap option" where
  "m_put_null A lt col g H =
    (if lt = KB \<or> lt = KG then Some (m_set8 col g 0 H)
     else if lt = KH then Some (m_set16 col g NH H)
     else if lt = KI \<or> lt = KD \<or> lt = KT then Some (m_set32 col g NI H)
     else if lt = KJ \<or> lt = KP \<or> lt = KN then Some (m_set64 col g NJ H)
     else if lt = KE then Some (m_set32 col g F32_NAN H)
     else if lt = KF then Some (m_set64 col g F64_NAN H)
     else if lt = KS then m_set_sym A col g [] H
     else Some H)"

definition m_put_opt :: "('a \<Rightarrow> heap \<Rightarrow> heap option) \<Rightarrow> 'a option \<Rightarrow> heap \<Rightarrow> heap option" where
  "m_put_opt put v H = (case v of None \<Rightarrow> Some H | Some x \<Rightarrow> put x H)"

definition m_put_stat ::
    "host_api \<Rightarrow> int \<Rightarrow> data_type \<Rightarrow> K \<Rightarrow> nat \<Rightarrow> stat_values \<Rightarrow> bool \<Rightarrow> heap \<Rightarrow> heap option" where
  "m_put_stat A lt dt col g st hi H =
    (let w8 = (\<lambda>v H. Some (m_set8 col g v H)); w16 = (\<lambda>v H. Some (m_set16 col g v H));
         w32 = (\<lambda>v H. Some (m_set32 col g v H)); w64 = (\<lambda>v H. Some (m_set64 col g v H)) in
     case st of
       SBoolean s \<Rightarrow> if lt = KB then m_put_opt w8 (map_option of_bool (pick s hi)) H else Some H
     | SInt32 s \<Rightarrow>
         if lt = KG then m_put_opt w8 (map_option ucast (pick s hi)) H
         else if lt = KH then m_put_opt w16 (map_option ucast (pick s hi)) H
         else if lt = KI \<or> lt = KT then m_put_opt w32 (pick s hi) H
         else if lt = KD then m_put_opt w32 (Option.bind (pick s hi) (\<lambda>v. checked_sub_s v DAY2000)) H
         else Some H
     | SInt64 s \<Rightarrow>
         if lt = KJ then m_put_opt w64 (pick s hi) H
         else if lt = KP then
           m_put_opt w64 (Option.bind (Option.bind (pick s hi) (to_ns dt)) (\<lambda>v. checked_sub_s v NS2000)) H
         else if lt = KN then m_put_opt w64 (Option.bind (pick s hi) (to_ns dt)) H
         else Some H
     | SFloat s \<Rightarrow> if lt = KE then m_put_opt w32 (pick s hi) H else Some H
     | SDouble s \<Rightarrow> if lt = KF then m_put_opt w64 (pick s hi) H else Some H
     | SByteArray s \<Rightarrow> if lt = KS then m_put_opt (m_set_sym A col g) (pick s hi) H else Some H
     | SInt96 \<Rightarrow> Some H
     | SFixed \<Rightarrow> Some H)"

section \<open>The parts of the dict\<close>

definition m_stat_step :: "host_api \<Rightarrow> int \<Rightarrow> nat \<Rightarrow> K \<Rightarrow> K \<Rightarrow> K \<Rightarrow> nat \<times> src \<times> rg_md \<Rightarrow> heap \<Rightarrow> heap option" where
  "m_stat_step A lt c mn mx nc x H =
    (let (g, s, rg) = x; st = cm_stats (rg_cols rg ! c) in
     Option.bind (m_put_null A lt mn g H) (\<lambda>H.
     Option.bind (m_put_null A lt mx g H) (\<lambda>H.
     let H = m_set64 nc g (null_count st) H in
     case st of
       None \<Rightarrow> Some H
     | Some st \<Rightarrow> Option.bind (m_put_stat A lt (col_type s c) mn g (st_values st) False H)
         (m_put_stat A lt (col_type s c) mx g (st_values st) True))))"

definition m_stats_col :: "host_api \<Rightarrow> file_set \<Rightarrow> nat \<times> int \<Rightarrow> heap \<Rightarrow> (K \<times> heap) option" where
  "m_stats_col A fs col H =
    (let (c, lt) = col; ng = n_rg fs in
     Option.bind (ha_ktn A lt ng H) (\<lambda>(mn, H). Option.bind (ha_ktn A lt ng H) (\<lambda>(mx, H).
     Option.bind (ha_ktn A KJ ng H) (\<lambda>(nc, H).
     Option.bind (steps (m_stat_step A lt c mn mx nc) (enumerate 0 (set_rgs fs)) H) (\<lambda>H.
     Option.bind (ksyms A (map bytes_of [''min'', ''max'', ''null'']) H) (\<lambda>(keys, H).
     Option.bind (klist A [mn, mx, nc] H) (\<lambda>(vals, H). ha_xD A keys vals H)))))))"

definition m_stats_of :: "host_api \<Rightarrow> file_set \<Rightarrow> int list \<Rightarrow> heap \<Rightarrow> (K \<times> heap) option" where
  "m_stats_of A fs lts H =
    Option.bind (m_each (m_stats_col A fs) (enumerate 0 lts) H) (\<lambda>(out, H). klist A out H)"

definition m_sizes_rg :: "host_api \<Rightarrow> nat \<Rightarrow> rg_md \<Rightarrow> heap \<Rightarrow> ((K \<times> K) \<times> heap) option" where
  "m_sizes_rg A nc r H =
    Option.bind (ha_ktn A KJ nc H) (\<lambda>(cv, H). Option.bind (ha_ktn A KJ nc H) (\<lambda>(uv, H).
    map_option (\<lambda>H. ((cv, uv), H)) (steps (\<lambda>c H. let cc = rg_cols r ! c in
      Some (m_set64 uv c (cm_uncompressed cc) (m_set64 cv c (cm_compressed cc) H))) [0..<nc] H)))"

definition m_pair :: "host_api \<Rightarrow> (K \<times> K) list \<Rightarrow> heap \<Rightarrow> ((K \<times> K) \<times> heap) option" where
  "m_pair A ps H = Option.bind (klist A (map fst ps) H) (\<lambda>(c, H).
     map_option (\<lambda>(u, H). ((c, u), H)) (klist A (map snd ps) H))"

definition m_sizes :: "host_api \<Rightarrow> file_set \<Rightarrow> nat \<Rightarrow> heap \<Rightarrow> ((K \<times> K) \<times> heap) option" where
  "m_sizes A fs nc H =
    Option.bind (m_each (\<lambda>s H. Option.bind (m_each (m_sizes_rg A nc) (ft_rgs (src_md s)) H) (\<lambda>(ps, H). m_pair A ps H))
      (fs_srcs fs) H) (\<lambda>(ps, H). m_pair A ps H)"

definition m_enc_of :: "host_api \<Rightarrow> file_set \<Rightarrow> nat \<Rightarrow> heap \<Rightarrow> (K \<times> heap) option" where
  "m_enc_of A fs nc H = Option.bind (ha_ktn A KB nc H) (\<lambda>(r, H). map_option (\<lambda>H. (r, H)) (steps (\<lambda>c H.
     Some (m_set8 r c (of_bool (0 < n_rg fs \<and>
       list_all (\<lambda>s. list_all (\<lambda>g. chunk_dict s g c) [0..<length (src_rg_rows s)]) (fs_srcs fs))) H)) [0..<nc] H))"

definition m_dict :: "host_api \<Rightarrow> file_set \<Rightarrow> heap \<Rightarrow> (K result \<times> heap) option" where
  "m_dict A fs H = (case mapR (\<lambda>t. t) (fs_lts fs) of
     Inl e \<Rightarrow> Some (Inl e, H)
   | Inr lts \<Rightarrow>
       Option.bind (ksyms A (map (\<lambda>s. bytes_of (src_orig s)) (fs_srcs fs)) H) (\<lambda>(files, H).
       Option.bind (ksyms A (map bytes_of (fs_names fs)) H) (\<lambda>(cols, H).
       Option.bind (kchars A (bytes_of (map type_char lts)) H) (\<lambda>(types, H).
       Option.bind (ha_kj A (set_rows fs) H) (\<lambda>(rows, H).
       Option.bind (m_each (\<lambda>s. kj_vec A (src_rg_rows s)) (fs_srcs fs) H) (\<lambda>(rgs, H).
       Option.bind (klist A rgs H) (\<lambda>(rg, H).
       Option.bind (m_sizes A fs (length lts) H) (\<lambda>((bytes, ubytes), H).
       Option.bind (m_stats_of A fs lts H) (\<lambda>(stats, H).
       Option.bind (m_enc_of A fs (length lts) H) (\<lambda>(enc, H).
       Option.bind (ksyms A (map bytes_of meta_keys) H) (\<lambda>(keys, H).
       Option.bind (klist A [files, cols, types, rows, rg, bytes, stats, ubytes, enc] H) (\<lambda>(vals, H).
       map_option (\<lambda>(d, H). (Inr d, H)) (ha_xD A keys vals H)))))))))))))"

section \<open>One statistic in memory\<close>

definition clean_stat :: "stat_values \<Rightarrow> bool" where
  "clean_stat st = (case st of
     SByteArray s \<Rightarrow> (\<forall>b. vs_min s = Some b \<or> vs_max s = Some b \<longrightarrow> sym_ok b)
   | _ \<Rightarrow> True)"

lemma upd_null:
  assumes A: "api_ok A" and p: "part H x lt n v k" and g: "g < n" "n < 2 ^ 31" "g \<le> k" and lt: "lt \<in> L_TYPES"
    and run: "m_put_null A lt x g H = Some H'"
  shows "upd H x lt n (put_null lt v g) (max k (Suc g)) H'"
proof (cases "lt = KS")
  case True
  then have "upd H x KS n (set_sym v g []) (max k (Suc g)) H'"
    using upd_sym[OF A _ p[unfolded True] g, of "[]" H'] run by (simp add: m_put_null_def sym_ok_def)
  then show ?thesis
    using True by (simp add: put_null_def)
next
  case False
  then show ?thesis
    using lt run upd_words[OF p g] by (auto simp: L_TYPES_def m_put_null_def put_null_def)
qed

lemma upd_opt:
  assumes p: "part H x t n v k" and run: "m_put_opt put o1 H = Some H'"
    and one: "\<And>a. o1 = Some a \<Longrightarrow> put a H = Some H' \<Longrightarrow> upd H x t n (tput v g a) k H'"
  shows "upd H x t n (put_opt tput v g o1) k H'"
  using run one upd_refl[OF p] by (cases o1) (auto simp: m_put_opt_def put_opt_def)

lemma upd_stat:
  assumes A: "api_ok A" and p: "part H x lt n v k" and g: "g < n" "n < 2 ^ 31" "g < k" and st: "clean_stat st"
    and run: "m_put_stat A lt dt x g st hi H = Some H'"
  shows "upd H x lt n (put_stat lt dt v g st hi) k H'"
proof -
  have k: "max k (Suc g) = k" "g \<le> k"
    using g by simp_all
  note w = upd_words[OF p g(1,2) k(2), unfolded k(1)] and r = upd_refl[OF p]
  have sym: "upd H x KS n (set_sym v g b) k H1" if "lt = KS" "sym_ok b" "m_set_sym A x g b H = Some H1" for b H1
    using upd_sym[OF A that(2) p[unfolded that(1)] g(1,2) k(2) that(3)] k(1) by simp
  show ?thesis
  proof (cases st)
    case (SBoolean s)
    then show ?thesis
      using run w(1) r p by (auto simp: m_put_stat_def put_stat_def split: if_splits intro!: upd_opt)
  next
    case (SInt32 s)
    then show ?thesis
      using run w(1,2,3) r p by (auto simp: m_put_stat_def put_stat_def split: if_splits intro!: upd_opt)
  next
    case (SInt64 s)
    then show ?thesis
      using run w(4) r p by (auto simp: m_put_stat_def put_stat_def split: if_splits intro!: upd_opt)
  next
    case (SFloat s)
    then show ?thesis
      using run w(3) r p by (auto simp: m_put_stat_def put_stat_def split: if_splits intro!: upd_opt)
  next
    case (SDouble s)
    then show ?thesis
      using run w(4) r p by (auto simp: m_put_stat_def put_stat_def split: if_splits intro!: upd_opt)
  next
    case (SByteArray s)
    have "sym_ok b" if "pick s hi = Some b" for b
      using st SByteArray that by (auto simp: clean_stat_def pick_def split: if_splits)
    then show ?thesis
      using run sym r p SByteArray by (auto simp: m_put_stat_def put_stat_def split: if_splits intro!: upd_opt)
  qed (use run r in \<open>simp_all add: m_put_stat_def put_stat_def\<close>)
qed

lemma fleet_part: "fleet H0 H vs \<Longrightarrow> (x, t, n, v, k) \<in> set vs \<Longrightarrow> n < 2 ^ 31 \<and> part H x t n v k"
  by (fastforce simp: fleet_def)

text \<open>The edits of the first, the second and the third vector of three.\<close>

lemma fleet3:
  assumes f: "fleet H0 H [(x, t, n, a, i), (y, u, m, b, j), (z, w, l, c, k)]"
  shows "upd H x t n a' i' H' \<Longrightarrow> fleet H0 H' [(x, t, n, a', i'), (y, u, m, b, j), (z, w, l, c, k)]"
    and "upd H y u m b' j' H' \<Longrightarrow> fleet H0 H' [(x, t, n, a, i), (y, u, m, b', j'), (z, w, l, c, k)]"
    and "upd H z w l c' k' H' \<Longrightarrow> fleet H0 H' [(x, t, n, a, i), (y, u, m, b, j), (z, w, l, c', k')]"
    and "part H x t n a i" "part H y u m b j" "part H z w l c k"
  using fleet_edit[OF f, of 0 x t n a i a' i' H'] fleet_edit[OF f, of 1 y u m b j b' j' H']
    fleet_edit[OF f, of 2 z w l c k c' k' H'] fleet_part[OF f] by simp_all

definition clean_rg :: "nat \<Rightarrow> src \<times> rg_md \<Rightarrow> bool" where
  "clean_rg c x \<longleftrightarrow> (\<forall>st. rg_stats c x = Some st \<longrightarrow> clean_stat (st_values st))"

lemma fleet_stat_step:
  assumes A: "api_ok A" and f: "fleet H0 H [(mn, lt, n, a, k), (mx, lt, n, b, k), (nc, KJ, n, d, k)]"
    and k: "k < n" "n < 2 ^ 31" and lt: "lt \<in> L_TYPES" and cl: "clean_rg c x"
    and run: "m_stat_step A lt c mn mx nc (k, x) H = Some H'"
  shows "fleet H0 H' [(mn, lt, n, put_rg lt c a k x False, Suc k), (mx, lt, n, put_rg lt c b k x True, Suc k),
    (nc, KJ, n, set64 d k (null_count (rg_stats c x)), Suc k)]"
proof -
  obtain s rg where x: "x = (s, rg)"
    by (cases x)
  let ?st = "rg_stats c x"
  have st: "?st = cm_stats (rg_cols rg ! c)"
    by (simp add: rg_stats_def x)
  obtain H1 H2 where n1: "m_put_null A lt mn k H = Some H1" and n2: "m_put_null A lt mx k H1 = Some H2"
    and rest: "(let H = m_set64 nc k (null_count ?st) H2 in case ?st of None \<Rightarrow> Some H
      | Some st \<Rightarrow> Option.bind (m_put_stat A lt (col_type s c) mn k (st_values st) False H)
          (m_put_stat A lt (col_type s c) mx k (st_values st) True)) = Some H'"
    using run by (auto simp: m_stat_step_def x rg_stats_def Option.bind_eq_Some_conv Let_def)
  note null = upd_null[OF A _ k order_refl lt]
  have f1: "fleet H0 H1 [(mn, lt, n, put_null lt a k, Suc k), (mx, lt, n, b, k), (nc, KJ, n, d, k)]"
    using fleet3(1)[OF f null[OF fleet3(4)[OF f] n1]] by simp
  have f2: "fleet H0 H2 [(mn, lt, n, put_null lt a k, Suc k), (mx, lt, n, put_null lt b k, Suc k), (nc, KJ, n, d, k)]"
    using fleet3(2)[OF f1 null[OF fleet3(5)[OF f1] n2]] by simp
  let ?H3 = "m_set64 nc k (null_count ?st) H2" and ?d = "set64 d k (null_count ?st)"
  have f3: "fleet H0 ?H3 [(mn, lt, n, put_null lt a k, Suc k), (mx, lt, n, put_null lt b k, Suc k), (nc, KJ, n, ?d, Suc k)]"
    using fleet3(3)[OF f2 upd_words(4)[OF fleet3(6)[OF f2] k order_refl]] by simp
  show ?thesis
  proof (cases ?st)
    case None
    then show ?thesis
      using rest f3 by (simp add: put_rg_def)
  next
    case (Some sv)
    have cs: "clean_stat (st_values sv)"
      using cl Some by (simp add: clean_rg_def)
    obtain H4 where n4: "m_put_stat A lt (col_type s c) mn k (st_values sv) False ?H3 = Some H4"
        and n5: "m_put_stat A lt (col_type s c) mx k (st_values sv) True H4 = Some H'"
      using rest Some by (auto simp: Option.bind_eq_Some_conv Let_def)
    note stat = upd_stat[OF A _ k lessI cs]
    have f4: "fleet H0 H4 [(mn, lt, n, put_rg lt c a k x False, Suc k), (mx, lt, n, put_null lt b k, Suc k), (nc, KJ, n, ?d, Suc k)]"
      using fleet3(1)[OF f3 stat[OF fleet3(4)[OF f3] n4]] Some by (simp add: put_rg_def x)
    show ?thesis
      using fleet3(2)[OF f4 stat[OF fleet3(5)[OF f4] n5]] Some by (simp add: put_rg_def x)
  qed
qed

lemma fleet_stats:
  assumes A: "api_ok A" and n: "n < 2 ^ 31" and lt: "lt \<in> L_TYPES"
  shows "fleet H0 H [(mn, lt, n, a, k), (mx, lt, n, b, k), (nc, KJ, n, d, k)] \<Longrightarrow> k + length rs \<le> n \<Longrightarrow>
    \<forall>x \<in> set rs. clean_rg c x \<Longrightarrow> steps (m_stat_step A lt c mn mx nc) (enumerate k rs) H = Some H' \<Longrightarrow>
    (case foldl (stat_step lt c) (a, b, d) (enumerate k rs) of (a', b', d') \<Rightarrow>
      fleet H0 H' [(mn, lt, n, a', k + length rs), (mx, lt, n, b', k + length rs), (nc, KJ, n, d', k + length rs)])"
proof (induction rs arbitrary: k a b d H)
  case Nil
  then show ?case by simp
next
  case (Cons r rs)
  obtain H1 where s: "m_stat_step A lt c mn mx nc (k, r) H = Some H1"
      and rest: "steps (m_stat_step A lt c mn mx nc) (enumerate (Suc k) rs) H1 = Some H'"
    using Cons.prems(4) by (auto simp: Option.bind_eq_Some_conv)
  have "fleet H0 H1 [(mn, lt, n, put_rg lt c a k r False, Suc k), (mx, lt, n, put_rg lt c b k r True, Suc k),
      (nc, KJ, n, set64 d k (null_count (rg_stats c r)), Suc k)]"
    using Cons.prems by (intro fleet_stat_step[OF A Cons.prems(1) _ n lt _ s]) simp_all
  from Cons.IH[OF this _ _ rest] Cons.prems(2,3) show ?case
    by (simp add: stat_step_put_rg)
qed

section \<open>What the parts denote\<close>

definition stats_ready :: "file_set \<Rightarrow> bool" where
  "stats_ready fs \<longleftrightarrow> set_ok fs \<and> n_rg fs < 2 ^ 31"

lemma stats_col_held:
  assumes A: "api_ok A" and sy: "hp_syms H \<subseteq> hp_used H" and fs: "stats_ready fs" and lt: "lt \<in> L_TYPES"
    and cl: "\<forall>x \<in> set (set_rgs fs). clean_rg c x" and ktn: "ktn_ok ktn"
    and run: "m_stats_col A fs (c, lt) H = Some (x, H')"
  shows "grows H H' \<and> held H' x (stats_col ktn fs c lt)"
proof -
  let ?n = "n_rg fs" and ?keys = "[''min'', ''max'', ''null'']"
  obtain mn H1 mx H2 nc H3 H4 ks H5 vs H6 where r: "ha_ktn A lt ?n H = Some (mn, H1)" "ha_ktn A lt ?n H1 = Some (mx, H2)"
      "ha_ktn A KJ ?n H2 = Some (nc, H3)" "steps (m_stat_step A lt c mn mx nc) (enumerate 0 (set_rgs fs)) H3 = Some H4"
      "ksyms A (map bytes_of ?keys) H4 = Some (ks, H5)" "klist A [mn, mx, nc] H5 = Some (vs, H6)" "ha_xD A ks vs H6 = Some (x, H')"
    using run by (auto simp: m_stats_col_def Option.bind_eq_Some_conv Let_def)
  have n: "?n < 2 ^ 31" "?n = length (set_rgs fs)"
    using fs n_rg_set_rgs[of fs] by (auto simp: stats_ready_def)
  have v: "vec_of lt ?n (ktn lt ?n)" "vec_of KJ ?n (ktn KJ ?n)"
    using ktn lt by (auto simp: ktn_ok_def L_TYPES_def)
  have f: "fleet H H3 [(mn, lt, ?n, ktn lt ?n, 0), (mx, lt, ?n, ktn lt ?n, 0), (nc, KJ, ?n, ktn KJ ?n, 0)]"
    using fleet_alloc[OF fleet_alloc[OF fleet_alloc[OF fleet_start[OF sy] api_laws(1)[OF A r(1)] v(1) n(1)]
      api_laws(1)[OF A r(2)] v(1) n(1)] api_laws(1)[OF A r(3)] v(2) n(1)] by simp
  obtain a b d where abd: "foldl (stat_step lt c) (ktn lt ?n, ktn lt ?n, ktn KJ ?n) (enumerate 0 (set_rgs fs)) = (a, b, d)"
    by (cases "foldl (stat_step lt c) (ktn lt ?n, ktn lt ?n, ktn KJ ?n) (enumerate 0 (set_rgs fs))")
  have f4: "fleet H H4 [(mn, lt, ?n, a, ?n), (mx, lt, ?n, b, ?n), (nc, KJ, ?n, d, ?n)]"
    using fleet_stats[OF A n(1) lt f _ cl r(4)] unfolding abd n(2)[symmetric] by simp
  have "sym_ok k" if "k \<in> set ?keys" for k
    using that by (auto simp: sym_ok_def)
  then have ks: "grows H4 H5 \<and> held H5 ks (KSyms ?keys)"
    using ksyms_held[OF A r(5)] by simp
  have h: "grows H H4" "list_all2 (held H4) [mn, mx, nc] [a, b, d]"
    using fleet_held[OF f4, of mn lt ?n a ?n] fleet_held[OF f4, of mx lt ?n b ?n] fleet_held[OF f4, of nc KJ ?n d ?n] by simp_all
  have h5: "list_all2 (held H5) [mn, mx, nc] [a, b, d]"
    using helds_grows[OF h(2)] ks by blast
  have vs: "grows H5 H6 \<and> held H6 vs (KList [a, b, d])"
    using klist_held[OF A r(6) h5] by simp
  have "held H6 ks (KSyms ?keys)"
    using held_grows ks vs by blast
  then have x: "grows H6 H' \<and> held H' x (KDict (KSyms ?keys) (KList [a, b, d]))"
    using api_laws(4)[OF A r(7)] vs by blast
  then have "grows H H'"
    using h(1) ks vs by (meson grows_trans)
  moreover have "stats_col ktn fs c lt = KDict (KSyms ?keys) (KList [a, b, d])"
    unfolding stats_col_def Let_def abd by simp
  ultimately show ?thesis
    using x by simp
qed

interpretation stat_cols: tree_builder "\<lambda>A. m_stats_col A fs"
  "\<lambda>(c, lt). stats_ready fs \<and> lt \<in> L_TYPES \<and> (\<forall>x \<in> set (set_rgs fs). clean_rg c x) \<and> ktn_ok ktn"
  "\<lambda>(c, lt). stats_col ktn fs c lt" for fs ktn
  by unfold_locales (auto dest: stats_col_held held_grows)

text \<open>The sizes of one row group: two vectors written side by side.\<close>

lemma set64_same: "set64 (KVec64 t xs) k (xs ! k) = KVec64 t xs"
  by simp

lemma sizes_steps:
  assumes n: "n < 2 ^ 31" "length cs = n" "length us = n"
    and cs: "\<And>c. c < n \<Longrightarrow> cs ! c = cm_compressed (rg_cols r ! c)" and us: "\<And>c. c < n \<Longrightarrow> us ! c = cm_uncompressed (rg_cols r ! c)"
  shows "fleet H0 H [(cv, KJ, n, KVec64 KJ cs, k), (uv, KJ, n, KVec64 KJ us, k)] \<Longrightarrow> k \<le> n \<Longrightarrow>
    steps (\<lambda>c H. let cc = rg_cols r ! c in Some (m_set64 uv c (cm_uncompressed cc) (m_set64 cv c (cm_compressed cc) H))) [k..<n] H = Some H' \<Longrightarrow>
    fleet H0 H' [(cv, KJ, n, KVec64 KJ cs, n), (uv, KJ, n, KVec64 KJ us, n)]"
proof (induction "n - k" arbitrary: k H)
  case 0
  then show ?case by simp
next
  case (Suc m)
  let ?H1 = "m_set64 cv k (cs ! k) H" and ?H2 = "m_set64 uv k (us ! k) (m_set64 cv k (cs ! k) H)"
  have k: "k < n"
    using Suc.hyps(2) by simp
  have p1: "part H cv KJ n (KVec64 KJ cs) k"
    using fleet_part[OF Suc.prems(1)] by simp
  have "upd H cv KJ n (KVec64 KJ cs) (Suc k) ?H1"
    using upd_words(4)[OF p1 k n(1) order_refl, of "cs ! k"] by simp
  then have f1: "fleet H0 ?H1 [(cv, KJ, n, KVec64 KJ cs, Suc k), (uv, KJ, n, KVec64 KJ us, k)]"
    using fleet_edit[OF Suc.prems(1), of 0] by simp
  have p2: "part ?H1 uv KJ n (KVec64 KJ us) k"
    using fleet_part[OF f1] by simp
  have "upd ?H1 uv KJ n (KVec64 KJ us) (Suc k) ?H2"
    using upd_words(4)[OF p2 k n(1) order_refl, of "us ! k"] by simp
  then have f2: "fleet H0 ?H2 [(cv, KJ, n, KVec64 KJ cs, Suc k), (uv, KJ, n, KVec64 KJ us, Suc k)]"
    using fleet_edit[OF f1, of 1] by simp
  have "[k..<n] = k # [Suc k..<n]"
    using k by (simp add: upt_conv_Cons)
  then show ?case
    using Suc.hyps(1)[OF _ f2] Suc.hyps(2) Suc.prems(3) k cs us by (simp add: Let_def)
qed

definition rg_sizes :: "nat \<Rightarrow> (chunk_md \<Rightarrow> i64) \<Rightarrow> rg_md \<Rightarrow> kval" where
  "rg_sizes nc sz r = KVec64 KJ (map (\<lambda>c. sz (rg_cols r ! c)) [0..<nc])"

definition held2 :: "heap \<Rightarrow> K \<times> K \<Rightarrow> kval \<times> kval \<Rightarrow> bool" where
  "held2 H xs vs \<longleftrightarrow> held H (fst xs) (fst vs) \<and> held H (snd xs) (snd vs)"

lemma held2_grows: "held2 H xs vs \<Longrightarrow> grows H H' \<Longrightarrow> held2 H' xs vs"
  using held_grows by (auto simp: held2_def)

lemma sizes_rg_held:
  assumes A: "api_ok A" and sy: "hp_syms H \<subseteq> hp_used H" and n: "nc < 2 ^ 31" and run: "m_sizes_rg A nc r H = Some (xs, H')"
  shows "grows H H' \<and> held2 H' xs (rg_sizes nc cm_compressed r, rg_sizes nc cm_uncompressed r)"
proof -
  obtain cv H1 uv H2 where r: "ha_ktn A KJ nc H = Some (cv, H1)" "ha_ktn A KJ nc H1 = Some (uv, H2)" "xs = (cv, uv)"
      "steps (\<lambda>c H. let cc = rg_cols r ! c in Some (m_set64 uv c (cm_uncompressed cc) (m_set64 cv c (cm_compressed cc) H))) [0..<nc] H2 = Some H'"
    using run by (auto simp: m_sizes_rg_def Option.bind_eq_Some_conv)
  let ?cs = "map (\<lambda>c. cm_compressed (rg_cols r ! c)) [0..<nc]" and ?us = "map (\<lambda>c. cm_uncompressed (rg_cols r ! c)) [0..<nc]"
  have v: "vec_of KJ nc (KVec64 KJ ?cs)" "vec_of KJ nc (KVec64 KJ ?us)"
    by simp_all
  have "fleet H H2 [(cv, KJ, nc, KVec64 KJ ?cs, 0), (uv, KJ, nc, KVec64 KJ ?us, 0)]"
    using fleet_alloc[OF fleet_alloc[OF fleet_start[OF sy] api_laws(1)[OF A r(1)] v(1) n] api_laws(1)[OF A r(2)] v(2) n]
    by simp
  then have "fleet H H' [(cv, KJ, nc, KVec64 KJ ?cs, nc), (uv, KJ, nc, KVec64 KJ ?us, nc)]"
    by (rule sizes_steps[OF n _ _ _ _ _ _ r(4), rotated 4]) simp_all
  from fleet_held[OF this, of cv KJ nc "KVec64 KJ ?cs" nc] fleet_held[OF this, of uv KJ nc "KVec64 KJ ?us" nc] show ?thesis
    by (simp add: r(3) held2_def rg_sizes_def)
qed

interpretation size_vecs: heap_builder "\<lambda>A. m_sizes_rg A nc" "\<lambda>r. nc < 2 ^ 31"
  "\<lambda>H xs r. held2 H xs (rg_sizes nc cm_compressed r, rg_sizes nc cm_uncompressed r)" for nc
  by unfold_locales (auto dest: sizes_rg_held held2_grows)

lemma pair_held:
  assumes A: "api_ok A" and n: "length ps < 2 ^ 31" and ps: "list_all2 (held2 H) ps vs" and run: "m_pair A ps H = Some (xs, H')"
  shows "grows H H' \<and> held2 H' xs (KList (map fst vs), KList (map snd vs))"
proof -
  obtain c H1 u where r: "klist A (map fst ps) H = Some (c, H1)" "klist A (map snd ps) H1 = Some (u, H')" "xs = (c, u)"
    using run by (auto simp: m_pair_def Option.bind_eq_Some_conv)
  have p: "list_all2 (held H) (map fst ps) (map fst vs)" "list_all2 (held H) (map snd ps) (map snd vs)"
    using ps by (auto simp: list_all2_conv_all_nth held2_def)
  have g1: "grows H H1 \<and> held H1 c (KList (map fst vs))"
    using klist_held[OF A r(1) p(1)] n by simp
  then have "list_all2 (held H1) (map snd ps) (map snd vs)"
    using helds_grows[OF p(2)] by blast
  then have "grows H1 H' \<and> held H' u (KList (map snd vs))"
    using klist_held[OF A r(2)] n by simp
  then show ?thesis
    using g1 grows_trans held_grows by (auto simp: held2_def r(3))
qed

definition file_sizes :: "nat \<Rightarrow> (chunk_md \<Rightarrow> i64) \<Rightarrow> src \<Rightarrow> kval" where
  "file_sizes nc sz s = KList (map (rg_sizes nc sz) (ft_rgs (src_md s)))"

lemma sizes_file_held:
  assumes A: "api_ok A" and sy: "hp_syms H \<subseteq> hp_used H" and n: "nc < 2 ^ 31" "length (ft_rgs (src_md s)) < 2 ^ 31"
    and run: "Option.bind (m_each (m_sizes_rg A nc) (ft_rgs (src_md s)) H) (\<lambda>(ps, H). m_pair A ps H) = Some (xs, H')"
  shows "grows H H' \<and> held2 H' xs (file_sizes nc cm_compressed s, file_sizes nc cm_uncompressed s)"
proof -
  obtain ps H1 where r: "m_each (m_sizes_rg A nc) (ft_rgs (src_md s)) H = Some (ps, H1)" "m_pair A ps H1 = Some (xs, H')"
    using run by (auto simp: Option.bind_eq_Some_conv)
  have e: "grows H H1 \<and> list_all2 (\<lambda>xs r. held2 H1 xs (rg_sizes nc cm_compressed r, rg_sizes nc cm_uncompressed r)) ps (ft_rgs (src_md s))"
    using size_vecs.each[OF A sy _ r(1)] n(1) by simp
  then have "list_all2 (held2 H1) ps (map (\<lambda>r. (rg_sizes nc cm_compressed r, rg_sizes nc cm_uncompressed r)) (ft_rgs (src_md s)))"
    by (simp add: list_all2_conv_all_nth)
  from pair_held[OF A _ this r(2)] e n(2) grows_trans show ?thesis
    by (auto simp: file_sizes_def o_def dest: list_all2_lengthD)
qed

interpretation file_size_lists: heap_builder
  "\<lambda>A s H. Option.bind (m_each (m_sizes_rg A nc) (ft_rgs (src_md s)) H) (\<lambda>(ps, H). m_pair A ps H)"
  "\<lambda>s. nc < 2 ^ 31 \<and> length (ft_rgs (src_md s)) < 2 ^ 31"
  "\<lambda>H xs s. held2 H xs (file_sizes nc cm_compressed s, file_sizes nc cm_uncompressed s)" for nc
  by unfold_locales (auto dest: sizes_file_held held2_grows)

lemma sizes_held:
  assumes A: "api_ok A" and sy: "hp_syms H \<subseteq> hp_used H" and n: "nc < 2 ^ 31" "length (fs_srcs fs) < 2 ^ 31"
      "\<forall>s \<in> set (fs_srcs fs). length (ft_rgs (src_md s)) < 2 ^ 31"
    and run: "m_sizes A fs nc H = Some (xs, H')"
  shows "grows H H' \<and> held2 H' xs (sizes fs nc)"
proof -
  let ?b = "\<lambda>s H. Option.bind (m_each (m_sizes_rg A nc) (ft_rgs (src_md s)) H) (\<lambda>(ps, H). m_pair A ps H)"
  obtain ps H1 where r: "m_each ?b (fs_srcs fs) H = Some (ps, H1)" "m_pair A ps H1 = Some (xs, H')"
    using run by (auto simp: m_sizes_def Option.bind_eq_Some_conv)
  have e: "grows H H1 \<and> list_all2 (\<lambda>xs s. held2 H1 xs (file_sizes nc cm_compressed s, file_sizes nc cm_uncompressed s)) ps (fs_srcs fs)"
    using file_size_lists.each[OF A sy _ r(1)] n by simp
  then have ps: "list_all2 (held2 H1) ps (map (\<lambda>s. (file_sizes nc cm_compressed s, file_sizes nc cm_uncompressed s)) (fs_srcs fs))"
    by (simp add: list_all2_conv_all_nth)
  have "sizes fs nc = (KList (map (file_sizes nc cm_compressed) (fs_srcs fs)), KList (map (file_sizes nc cm_uncompressed) (fs_srcs fs)))"
    by (simp add: sizes_def file_sizes_def[abs_def] rg_sizes_def[abs_def] Let_def)
  then show ?thesis
    using pair_held[OF A _ ps r(2)] e n(2) grows_trans by (auto simp: o_def dest: list_all2_lengthD)
qed

text \<open>The dictionary flags: a byte vector written slot by slot.\<close>

lemma bytes_steps:
  assumes n: "n < 2 ^ 31" "length bs = n" and f: "\<And>c. c < n \<Longrightarrow> bs ! c = F c"
  shows "fleet H0 H [(x, KB, n, KVec8 KB bs, k)] \<Longrightarrow> k \<le> n \<Longrightarrow> steps (\<lambda>c H. Some (m_set8 x c (F c) H)) [k..<n] H = Some H' \<Longrightarrow>
    fleet H0 H' [(x, KB, n, KVec8 KB bs, n)]"
proof (induction "n - k" arbitrary: k H)
  case 0
  then show ?case by simp
next
  case (Suc m)
  let ?H1 = "m_set8 x k (bs ! k) H"
  have k: "k < n"
    using Suc.hyps(2) by simp
  have p: "part H x KB n (KVec8 KB bs) k"
    using fleet_part[OF Suc.prems(1)] by simp
  have "upd H x KB n (KVec8 KB bs) (Suc k) ?H1"
    using upd_words(1)[OF p k n(1) order_refl, of "bs ! k"] by simp
  then have f1: "fleet H0 ?H1 [(x, KB, n, KVec8 KB bs, Suc k)]"
    using fleet_edit[OF Suc.prems(1), of 0] by simp
  have "[k..<n] = k # [Suc k..<n]"
    using k by (simp add: upt_conv_Cons)
  then show ?case
    using Suc.hyps(1)[OF _ f1] Suc.hyps(2) Suc.prems(3) k f by simp
qed

lemma enc_held:
  assumes A: "api_ok A" and sy: "hp_syms H \<subseteq> hp_used H" and n: "nc < 2 ^ 31" and run: "m_enc_of A fs nc H = Some (x, H')"
  shows "grows H H' \<and> held H' x (enc_of fs nc)"
proof -
  let ?F = "\<lambda>c. of_bool (0 < n_rg fs \<and>
    list_all (\<lambda>s. list_all (\<lambda>g. chunk_dict s g c) [0..<length (src_rg_rows s)]) (fs_srcs fs)) :: u8"
  let ?bs = "map ?F [0..<nc]"
  obtain H1 where r: "ha_ktn A KB nc H = Some (x, H1)" "steps (\<lambda>c H. Some (m_set8 x c (?F c) H)) [0..<nc] H1 = Some H'"
    using run by (auto simp: m_enc_of_def Option.bind_eq_Some_conv)
  have "fleet H H1 [(x, KB, nc, KVec8 KB ?bs, 0)]"
    using fleet_alloc[OF fleet_start[OF sy] api_laws(1)[OF A r(1)] _ n, of "KVec8 KB ?bs"] by simp
  then have "fleet H H' [(x, KB, nc, KVec8 KB ?bs, nc)]"
    by (rule bytes_steps[OF n _ _ _ _ r(2), rotated 2]) simp_all
  from fleet_held[OF this, of x KB nc "KVec8 KB ?bs" nc] show ?thesis
    by (simp add: enc_of_def)
qed

interpretation row_vecs: tree_builder "\<lambda>A s. kj_vec A (src_rg_rows s)" "\<lambda>s. length (src_rg_rows s) < 2 ^ 31"
  "\<lambda>s. KVec64 KJ (src_rg_rows s)"
  by unfold_locales (auto dest: kj_vec_held held_grows)

section \<open>The whole dict\<close>

text \<open>Two long atoms are the same value inline and in a cell; the tree has the second form.\<close>

fun norm_long :: "kval \<Rightarrow> kval" where
  "norm_long (KAtom t b) = KAtom (if t = KJL then KJ else t) b"
| "norm_long (KList vs) = KList (map norm_long vs)"
| "norm_long (KDict k v) = KDict (norm_long k) (norm_long v)"
| "norm_long (KTable d) = KTable (norm_long d)"
| "norm_long v = v"

text \<open>
  Names the host can intern whole, and sizes below \<open>2 ^ 31\<close>: the limit of one vector here, and
  far beyond any footer.
\<close>

definition dict_ready :: "file_set \<Rightarrow> bool" where
  "dict_ready fs \<longleftrightarrow> stats_ready fs \<and> length (fs_srcs fs) < 2 ^ 31 \<and> length (fs_names fs) < 2 ^ 31 \<and> length (fs_lts fs) < 2 ^ 31 \<and>
     (\<forall>s \<in> set (fs_srcs fs). sym_ok (src_orig s)) \<and> (\<forall>s \<in> set (fs_names fs). sym_ok s) \<and>
     (\<forall>lt. Inr lt \<in> set (fs_lts fs) \<longrightarrow> lt \<in> L_TYPES) \<and>
     (\<forall>c < length (fs_lts fs). \<forall>x \<in> set (set_rgs fs). clean_rg c x)"

lemma ready_rows: "stats_ready fs \<Longrightarrow> s \<in> set (fs_srcs fs) \<Longrightarrow> length (src_rg_rows s) < 2 ^ 31 \<and> length (ft_rgs (src_md s)) < 2 ^ 31"
proof -
  assume r: "stats_ready fs" and s: "s \<in> set (fs_srcs fs)"
  have "length (src_rg_rows s) \<le> n_rg fs"
    using s member_le_sum_list[of "length (src_rg_rows s)" "map (\<lambda>s. length (src_rg_rows s)) (fs_srcs fs)"]
    by (simp add: n_rg_def)
  then show ?thesis
    using r s by (auto simp: stats_ready_def set_ok_def)
qed

lemma norm_vec: "vec_of t n v \<Longrightarrow> norm_long v = v"
  by (cases v) simp_all

lemma stat_fold_vecs:
  "vec_of lt n a \<Longrightarrow> vec_of lt n b \<Longrightarrow> vec_of KJ n d \<Longrightarrow> foldl (stat_step lt c) (a, b, d) xs = (a', b', d') \<Longrightarrow>
     vec_of lt n a' \<and> vec_of lt n b' \<and> vec_of KJ n d'"
proof (induction xs arbitrary: a b d)
  case (Cons x xs)
  obtain g y where x: "x = (g, y)"
    by (cases x)
  have "vec_of lt n (put_rg lt c a g y False)" "vec_of lt n (put_rg lt c b g y True)" "vec_of KJ n (set64 d g j)" for j
    using Cons.prems(1-3) set_vec(4)[OF Cons.prems(3)] by (auto simp: put_rg_def put_null_vec put_stat_vec split: option.splits)
  then show ?case
    using Cons.IH Cons.prems(4) unfolding x foldl_Cons stat_step_put_rg by blast
qed simp

lemma norm_stats_col: "ktn_ok ktn \<Longrightarrow> lt \<in> L_TYPES \<Longrightarrow> norm_long (stats_col ktn fs c lt) = stats_col ktn fs c lt"
proof -
  assume k: "ktn_ok ktn" "lt \<in> L_TYPES"
  obtain a b d where abd: "foldl (stat_step lt c) (ktn lt (n_rg fs), ktn lt (n_rg fs), ktn KJ (n_rg fs)) (enumerate 0 (set_rgs fs)) = (a, b, d)"
    by (cases "foldl (stat_step lt c) (ktn lt (n_rg fs), ktn lt (n_rg fs), ktn KJ (n_rg fs)) (enumerate 0 (set_rgs fs))")
  have "vec_of lt (n_rg fs) (ktn lt (n_rg fs))" "vec_of KJ (n_rg fs) (ktn KJ (n_rg fs))"
    using k by (auto simp: ktn_ok_def L_TYPES_def)
  then have "vec_of lt (n_rg fs) a \<and> vec_of lt (n_rg fs) b \<and> vec_of KJ (n_rg fs) d"
    using stat_fold_vecs[OF _ _ _ abd] by blast
  then show ?thesis
    unfolding stats_col_def Let_def abd by (auto simp: norm_vec)
qed

lemma stats_of_held:
  assumes A: "api_ok A" and sy: "hp_syms H \<subseteq> hp_used H" and fs: "stats_ready fs" and lts: "set lts \<subseteq> L_TYPES" "length lts < 2 ^ 31"
    and cl: "\<forall>c < length lts. \<forall>x \<in> set (set_rgs fs). clean_rg c x" and ktn: "ktn_ok ktn"
    and run: "m_stats_of A fs lts H = Some (x, H')"
  shows "grows H H' \<and> held H' x (stats_of ktn fs lts)"
proof -
  have "case cl of (c, lt) \<Rightarrow> stats_ready fs \<and> lt \<in> L_TYPES \<and> (\<forall>x \<in> set (set_rgs fs). clean_rg c x) \<and> ktn_ok ktn"
    if "cl \<in> set (enumerate 0 lts)" for cl
    using that fs subsetD[OF lts(1) nth_mem] cl ktn by (auto simp: in_set_enumerate_eq)
  then show ?thesis
    using stat_cols.listed[OF A sy, of "enumerate 0 lts" fs ktn x H'] run lts(2)
    by (simp add: m_stats_of_def stats_of_def)
qed

lemma dict_held:
  assumes A: "api_ok A" and sy: "hp_syms H \<subseteq> hp_used H" and fs: "dict_ready fs" and ktn: "ktn_ok ktn"
    and lts: "mapR (\<lambda>t. t) (fs_lts fs) = Inr lts" and run: "m_dict A fs H = Some (Inr x, H')"
  shows "grows H H' \<and> (\<exists>t \<in> {KJ, KJL}. held H' x (KDict (KSyms meta_keys)
      (KList [KSyms (map src_orig (fs_srcs fs)), KSyms (fs_names fs), KVec8 KC (bytes_of (map type_char lts)),
        KAtom t (set_rows fs), KList (map (\<lambda>s. KVec64 KJ (src_rg_rows s)) (fs_srcs fs)), fst (sizes fs (length lts)),
        stats_of ktn fs lts, snd (sizes fs (length lts)), enc_of fs (length lts)])))"
proof -
  obtain files H1 cols H2 types H3 rows H4 rg H6 bytes ubytes H7 stats H8 enc H9 keys H10 vals H11 where
      r: "ksyms A (map bytes_of (map src_orig (fs_srcs fs))) H = Some (files, H1)"
        "ksyms A (map bytes_of (fs_names fs)) H1 = Some (cols, H2)"
        "kchars A (bytes_of (map type_char lts)) H2 = Some (types, H3)"
        "ha_kj A (set_rows fs) H3 = Some (rows, H4)"
        "Option.bind (m_each (\<lambda>s. kj_vec A (src_rg_rows s)) (fs_srcs fs) H4) (\<lambda>(rgs, H). klist A rgs H) = Some (rg, H6)"
        "m_sizes A fs (length lts) H6 = Some ((bytes, ubytes), H7)"
        "m_stats_of A fs lts H7 = Some (stats, H8)"
        "m_enc_of A fs (length lts) H8 = Some (enc, H9)"
        "ksyms A (map bytes_of meta_keys) H9 = Some (keys, H10)"
        "klist A [files, cols, types, rows, rg, bytes, stats, ubytes, enc] H10 = Some (vals, H11)"
        "ha_xD A keys vals H11 = Some (x, H')"
    using run lts by (auto simp: m_dict_def Option.bind_eq_Some_conv o_def)
  have z: "length (fs_srcs fs) < 2 ^ 31" "length (fs_names fs) < 2 ^ 31" "length lts < 2 ^ 31" "stats_ready fs" "set lts \<subseteq> L_TYPES"
      "\<forall>s \<in> set (map src_orig (fs_srcs fs)). sym_ok s" "\<forall>s \<in> set (fs_names fs). sym_ok s" "\<forall>s \<in> set meta_keys. sym_ok s"
      "\<forall>c < length lts. \<forall>x \<in> set (set_rgs fs). clean_rg c x"
    using fs mapR_self[OF lts] by (auto simp: dict_ready_def meta_keys_def sym_ok_def)
  have rows: "\<forall>s \<in> set (fs_srcs fs). length (src_rg_rows s) < 2 ^ 31" "\<forall>s \<in> set (fs_srcs fs). length (ft_rgs (src_md s)) < 2 ^ 31"
    using ready_rows[OF z(4)] by blast+
  have h1: "grows H H1 \<and> held H1 files (KSyms (map src_orig (fs_srcs fs)))"
    using ksyms_held[OF A r(1)] z by simp
  have h2: "grows H1 H2 \<and> held H2 cols (KSyms (fs_names fs))"
    using ksyms_held[OF A r(2)] z by simp
  have h3: "grows H2 H3 \<and> held H3 types (KVec8 KC (bytes_of (map type_char lts)))"
    using kchars_held[OF A r(3)] .
  obtain t where h4: "grows H3 H4 \<and> held H4 rows (KAtom t (set_rows fs))" and t: "t \<in> {KJ, KJL}"
    using api_laws(3)[OF A r(4)] by blast
  have s4: "hp_syms H4 \<subseteq> hp_used H4"
    using h4 growsD(5) by blast
  have h6: "grows H4 H6 \<and> held H6 rg (KList (map (\<lambda>s. KVec64 KJ (src_rg_rows s)) (fs_srcs fs)))"
    using row_vecs.listed[OF A s4 rows(1) z(1) r(5)] .
  have h7: "grows H6 H7 \<and> held2 H7 (bytes, ubytes) (sizes fs (length lts))"
    using sizes_held[OF A _ z(3,1) rows(2) r(6)] h6 growsD(5) by blast
  have h8: "grows H7 H8 \<and> held H8 stats (stats_of ktn fs lts)"
    using stats_of_held[OF A _ z(4,5,3,9) ktn r(7)] h7 growsD(5) by blast
  have h9: "grows H8 H9 \<and> held H9 enc (enc_of fs (length lts))"
    using enc_held[OF A _ z(3) r(8)] h8 growsD(5) by blast
  have h10: "grows H9 H10 \<and> held H10 keys (KSyms meta_keys)"
    using ksyms_held[OF A r(9)] z(8) by (simp add: meta_keys_def)
  have g9: "grows H8 H10" "grows H7 H10" "grows H6 H10" "grows H4 H10" "grows H3 H10" "grows H2 H10" "grows H1 H10" "grows H H10"
    using h1 h2 h3 h4 h6 h7 h8 h9 h10 by (meson grows_trans)+
  have "list_all2 (held H10) [files, cols, types, rows, rg, bytes, stats, ubytes, enc]
      [KSyms (map src_orig (fs_srcs fs)), KSyms (fs_names fs), KVec8 KC (bytes_of (map type_char lts)),
        KAtom t (set_rows fs), KList (map (\<lambda>s. KVec64 KJ (src_rg_rows s)) (fs_srcs fs)), fst (sizes fs (length lts)),
        stats_of ktn fs lts, snd (sizes fs (length lts)), enc_of fs (length lts)]"
    using held_grows[OF _ g9(7)] held_grows[OF _ g9(6)] held_grows[OF _ g9(5)] held_grows[OF _ g9(4)] held_grows[OF _ g9(3)]
      held_grows[OF _ g9(2)] held_grows[OF _ g9(1)] held_grows[of H9 enc _ H10] h1 h2 h3 h4 h6 h7 h8 h9 h10
    by (simp add: held2_def)
  from klist_held[OF A r(10) this]
  have h11: "grows H10 H11 \<and> held H11 vals (KList [KSyms (map src_orig (fs_srcs fs)), KSyms (fs_names fs), KVec8 KC (bytes_of (map type_char lts)),
        KAtom t (set_rows fs), KList (map (\<lambda>s. KVec64 KJ (src_rg_rows s)) (fs_srcs fs)), fst (sizes fs (length lts)),
        stats_of ktn fs lts, snd (sizes fs (length lts)), enc_of fs (length lts)])"
    by simp
  have "held H11 keys (KSyms meta_keys)"
    using h10 h11 held_grows by blast
  note h12 = api_laws(4)[OF A r(11) this conjunct2[OF h11]]
  have "grows H H'"
    using g9(8) h11 h12 by (meson grows_trans)
  then show ?thesis
    using h12 t by blast
qed

section \<open>A dict on the example host\<close>

text \<open>Stores alone take no page.\<close>

definition stable :: "(heap \<Rightarrow> heap option) \<Rightarrow> bool" where
  "stable f \<longleftrightarrow> (\<forall>H. \<exists>H'. f H = Some H' \<and> hp_used H' = hp_used H \<and> hp_syms H' = hp_syms H)"

lemma stable_bind: "stable f \<Longrightarrow> stable g \<Longrightarrow> stable (\<lambda>H. Option.bind (f H) g)"
  unfolding stable_def by (metis bind.bind_lunit)

lemma stable_Some: "(\<And>H. hp_used (f H) = hp_used H \<and> hp_syms (f H) = hp_syms H) \<Longrightarrow> stable (\<lambda>H. Some (f H))"
  by (simp add: stable_def)

lemma stable_steps: "(\<And>x. x \<in> set xs \<Longrightarrow> stable (f x)) \<Longrightarrow> stable (steps f xs)"
proof (induction xs)
  case Nil
  have "steps f [] = (\<lambda>H. Some H)"
    by (simp add: fun_eq_iff)
  then show ?case
    by (simp add: stable_def)
next
  case (Cons x xs)
  have "steps f (x # xs) = (\<lambda>H. Option.bind (f x H) (steps f xs))"
    by (simp add: fun_eq_iff)
  then show ?case
    using Cons by (simp add: stable_bind)
qed

lemma set_used [simp]:
  "hp_used (m_set8 x g a H) = hp_used H" "hp_syms (m_set8 x g a H) = hp_syms H"
  "hp_used (m_set16 x g b H) = hp_used H" "hp_syms (m_set16 x g b H) = hp_syms H"
  "hp_used (m_set32 x g c H) = hp_used H" "hp_syms (m_set32 x g c H) = hp_syms H"
  "hp_used (m_set64 x g d H) = hp_used H" "hp_syms (m_set64 x g d H) = hp_syms H"
  by (simp_all add: m_set8_def m_set16_def m_set32_def m_set64_def)

lemma stable_stat_step:
  assumes "lt \<noteq> KS"
  shows "stable (m_stat_step A lt c mn mx nc (g, s, rg))"
proof -
  have nul: "stable (m_put_null A lt x g)" for x
    using assms by (simp add: stable_def m_put_null_def)
  have opt: "stable (m_put_opt (\<lambda>v H. Some (f v H)) o1)" if "\<And>v H. hp_used (f v H) = hp_used H \<and> hp_syms (f v H) = hp_syms H"
    for f :: "'z \<Rightarrow> heap \<Rightarrow> heap" and o1
    using that by (cases o1) (simp_all add: stable_def m_put_opt_def)
  have st: "stable (m_put_stat A lt dt x g sv hi)" for dt x sv hi
    using assms opt[of "\<lambda>v H. m_set8 x g v H"] opt[of "\<lambda>v H. m_set16 x g v H"] opt[of "\<lambda>v H. m_set32 x g v H"]
      opt[of "\<lambda>v H. m_set64 x g v H"]
    by (cases sv) (auto simp: m_put_stat_def[abs_def] stable_def Let_def)
  have tail: "stable (\<lambda>H. let H = m_set64 nc g (null_count st) H in case st of None \<Rightarrow> Some H
      | Some st \<Rightarrow> Option.bind (m_put_stat A lt (col_type s c) mn g (st_values st) False H) (m_put_stat A lt (col_type s c) mx g (st_values st) True))" for st
  proof (cases st)
    case (Some sv)
    have "stable (\<lambda>H. Option.bind (Some (m_set64 nc g (null_count st) H)) (\<lambda>H. Option.bind (m_put_stat A lt (col_type s c) mn g (st_values sv) False H)
        (m_put_stat A lt (col_type s c) mx g (st_values sv) True)))"
      by (intro stable_bind st stable_Some) simp
    with Some show ?thesis
      by (simp add: Let_def)
  qed (simp add: stable_def)
  have "m_stat_step A lt c mn mx nc (g, s, rg) = (\<lambda>H. Option.bind (m_put_null A lt mn g H) (\<lambda>H. Option.bind (m_put_null A lt mx g H)
      (\<lambda>H. let st = cm_stats (rg_cols rg ! c); H = m_set64 nc g (null_count st) H in case st of None \<Rightarrow> Some H
      | Some st \<Rightarrow> Option.bind (m_put_stat A lt (col_type s c) mn g (st_values st) False H) (m_put_stat A lt (col_type s c) mx g (st_values st) True))))"
    by (simp add: m_stat_step_def fun_eq_iff Let_def)
  then show ?thesis
    using tail[of "cm_stats (rg_cols rg ! c)"] by (simp add: stable_bind nul Let_def)
qed

lemma takes_stable: "stable f \<Longrightarrow> takes c g P \<Longrightarrow> takes c (\<lambda>H. Option.bind (f H) g) P"
proof (unfold takes_def, intro allI impI)
  fix H k
  assume f: "stable f" and g: "\<forall>H k. below H k \<longrightarrow> k + c \<le> 1024 \<longrightarrow> (\<exists>y H'. g H = Some (y, H') \<and> P y \<and> below H' (k + c))"
    and H: "below H k" "k + c \<le> 1024"
  obtain H1 where H1: "f H = Some H1" "hp_used H1 = hp_used H" "hp_syms H1 = hp_syms H"
    using f unfolding stable_def by blast
  then have "below H1 k"
    using H(1) by (simp add: below_def)
  then show "\<exists>y H'. Option.bind (f H) g = Some (y, H') \<and> P y \<and> below H' (k + c)"
    using g H(2) H1(1) by simp
qed

lemma takes_steps: "stable f \<Longrightarrow> P y \<Longrightarrow> takes 0 (\<lambda>H. map_option (\<lambda>H. (y, H)) (f H)) P"
  using takes_stable[of f 0 "\<lambda>H. Some (y, H)" P] takes_return[of P y] by (simp add: map_conv_bind_option o_def)

lemma takes_each:
  assumes "\<And>a. a \<in> set as \<Longrightarrow> takes c (f a) P"
  shows "takes (length as * c) (m_each f as) (\<lambda>ys. length ys = length as \<and> (\<forall>y \<in> set ys. P y))"
  using assms
proof (induction as)
  case Nil
  have "m_each f [] = (\<lambda>H. Some ([], H))"
    by (simp add: fun_eq_iff)
  then show ?case
    using takes_return[of "\<lambda>ys. ys = []"] by (simp add: takes_return)
next
  case (Cons a as)
  have e: "m_each f (a # as) = (\<lambda>H. Option.bind (f a H) (\<lambda>(y, H). map_option (\<lambda>(ys, H). (y # ys, H)) (m_each f as H)))"
    by (simp add: fun_eq_iff)
  have "takes (c + length as * c) (m_each f (a # as)) (\<lambda>ys. length ys = length (a # as) \<and> (\<forall>y \<in> set ys. P y))"
    unfolding e
  proof (rule takes_bind)
    show "takes c (f a) P"
      using Cons.prems by simp
    show "takes (length as * c) (\<lambda>H. map_option (\<lambda>(ys, H). (y # ys, H)) (m_each f as H))
        (\<lambda>ys. length ys = length (a # as) \<and> (\<forall>y \<in> set ys. P y))" if "P y" for y
      by (rule takes_map[OF Cons.IH]) (use Cons.prems that in simp_all)
  qed
  moreover have "length (a # as) * c = c + length as * c"
    by simp
  ultimately show ?case
    by (simp only:)
qed

lemma takes_pages: "takes c f P \<Longrightarrow> c = d \<Longrightarrow> takes d f P"
  by simp

lemma takes_stats_col:
  assumes lt: "lt \<in> L_TYPES" "lt \<noteq> KS" and n: "n_rg fs \<le> 256"
  shows "takes 9 (m_stats_col ex_host fs (c, lt)) (\<lambda>x. True)"
proof -
  have w: "0 \<le> lt" "lt < 2 ^ 15" "width lt * n_rg fs \<le> 2048" "n_rg fs \<le> 2048"
  proof -
    have "width lt \<le> 8"
      using lt by (auto simp: L_TYPES_def width_def)
    then show "width lt * n_rg fs \<le> 2048"
      using n mult_le_mono[of "width lt" 8 "n_rg fs" 256] by simp
  qed (use lt n in \<open>auto simp: L_TYPES_def\<close>)
  have j: "takes 1 (ha_ktn ex_host KJ (n_rg fs)) (\<lambda>x. True)"
    by (rule takes_host(1)) (use n in \<open>simp_all add: width_values[simplified]\<close>)
  have s: "stable (steps (m_stat_step ex_host lt c mn mx nc) (enumerate 0 (set_rgs fs)))" for mn mx nc
    by (rule stable_steps) (use lt(2) stable_stat_step in auto)
  have "takes (1 + (1 + (1 + ((1 + length (map bytes_of [''min'', ''max'', ''null''])) + (1 + 1))))) (m_stats_col ex_host fs (c, lt)) (\<lambda>x. True)"
    unfolding m_stats_col_def[abs_def] Let_def prod.case
    by (intro takes_bind[OF takes_host(1)[OF w]] takes_bind[OF j] takes_stable[OF s] takes_bind[OF takes_ksyms]
        takes_bind[OF takes_vectors(1)] takes_host(3)) simp_all
  then show ?thesis
    by (rule takes_pages) simp
qed

lemma takes_stats_of:
  assumes lts: "set lts \<subseteq> L_TYPES - {KS}" "length lts \<le> 256" and n: "n_rg fs \<le> 256"
  shows "takes (length lts * 9 + 1) (m_stats_of ex_host fs lts) (\<lambda>x. True)"
proof -
  have each: "takes (length (enumerate 0 lts) * 9) (m_each (m_stats_col ex_host fs) (enumerate 0 lts))
      (\<lambda>ys. length ys = length (enumerate 0 lts) \<and> (\<forall>y \<in> set ys. True))"
  proof (rule takes_each)
    fix a
    assume a: "a \<in> set (enumerate 0 lts)"
    obtain c lt where c: "a = (c, lt)"
      by (cases a)
    then have "lt \<in> set lts"
      using a by (auto simp: in_set_enumerate_eq)
    then show "takes 9 (m_stats_col ex_host fs a) (\<lambda>x. True)"
      unfolding c using lts(1) n by (intro takes_stats_col) auto
  qed
  have "takes (length (enumerate 0 lts) * 9 + 1) (m_stats_of ex_host fs lts) (\<lambda>x. True)"
    unfolding m_stats_of_def[abs_def] by (rule takes_bind[OF each takes_vectors(1)]) (use lts(2) in simp)
  then show ?thesis
    by simp
qed

lemma takes_pair: "length ps \<le> 256 \<Longrightarrow> takes 2 (m_pair ex_host ps) (\<lambda>x. True)"
proof -
  assume n: "length ps \<le> 256"
  have "takes (1 + 1) (m_pair ex_host ps) (\<lambda>x. True)"
    unfolding m_pair_def[abs_def]
    by (intro takes_bind[OF takes_vectors(1)] takes_map[OF takes_vectors(1)]) (use n in simp_all)
  then show ?thesis
    by (rule takes_pages) simp
qed

lemma takes_sizes_rg: "nc \<le> 256 \<Longrightarrow> takes 2 (m_sizes_rg ex_host nc r) (\<lambda>x. True)"
proof -
  assume n: "nc \<le> 256"
  have j: "takes 1 (ha_ktn ex_host KJ nc) (\<lambda>x. True)"
    by (rule takes_host(1)) (use n in \<open>simp_all add: width_values[simplified]\<close>)
  have "takes (1 + (1 + 0)) (m_sizes_rg ex_host nc r) (\<lambda>x. True)"
    unfolding m_sizes_rg_def[abs_def]
    by (intro takes_bind[OF j] takes_steps stable_steps) (simp_all add: stable_Some Let_def)
  then show ?thesis
    by (rule takes_pages) simp
qed

text \<open>One file of one timestamp column, whose footer has exact bounds.\<close>

definition ex_meta_set :: file_set where
  "ex_meta_set = ex_ts_set\<lparr>fs_lts := [Inr KP]\<rparr>"

lemma ex_meta_parts: "fs_srcs ex_meta_set = fs_srcs ex_ts_set" "fs_names ex_meta_set = [''c'']" "fs_lts ex_meta_set = [Inr KP]"
    "length (fs_srcs ex_ts_set) = 1" "set_rows ex_meta_set = 2" "n_rg ex_meta_set = 1"
    "\<forall>s \<in> set (fs_srcs ex_ts_set). length (src_rg_rows s) = 1 \<and> length (ft_rgs (src_md s)) = 1 \<and> src_orig s = ''a''"
  by (simp_all add: ex_meta_set_def ex_ts_set_def ex_stats_def set_rows_def sum_i64_def n_rg_def)

lemma takes_sizes: "takes 6 (m_sizes ex_host ex_meta_set 1) (\<lambda>x. True)"
proof -
  let ?f = "\<lambda>s H. Option.bind (m_each (m_sizes_rg ex_host 1) (ft_rgs (src_md s)) H) (\<lambda>(ps, H). m_pair ex_host ps H)"
  have one: "takes 4 (?f s) (\<lambda>x. True)" if s: "s \<in> set (fs_srcs ex_ts_set)" for s
  proof -
    have r: "length (ft_rgs (src_md s)) = 1"
      using ex_meta_parts(7) s by blast
    have "takes (length (ft_rgs (src_md s)) * 2 + 2) (?f s) (\<lambda>x. True)"
      by (rule takes_bind[OF takes_each[OF takes_sizes_rg] takes_pair]) (use r in simp_all)
    then show ?thesis
      by (simp add: r)
  qed
  have "takes (length (fs_srcs ex_ts_set) * 4 + 2) (m_sizes ex_host ex_meta_set 1) (\<lambda>x. True)"
    unfolding m_sizes_def[abs_def] ex_meta_parts(1)
    by (rule takes_bind[OF takes_each[OF one] takes_pair]) (simp_all add: ex_meta_parts(4))
  then show ?thesis
    by (simp add: ex_meta_parts(4))
qed

lemma takes_kj: "- (2 ^ 57) \<le> sint v \<Longrightarrow> sint v < 2 ^ 57 \<Longrightarrow> takes 0 (ha_kj ex_host v) (\<lambda>x. True)"
  by (simp add: takes_def ex_host_def ex_kj_def below_def)

lemma takes_enc: "nc \<le> 256 \<Longrightarrow> takes 1 (m_enc_of ex_host fs nc) (\<lambda>x. True)"
proof -
  assume n: "nc \<le> 256"
  have b: "takes 1 (ha_ktn ex_host KB nc) (\<lambda>x. True)"
    by (rule takes_host(1)) (use n in \<open>simp_all add: width_values[simplified]\<close>)
  have "takes (1 + 0) (m_enc_of ex_host fs nc) (\<lambda>x. True)"
    unfolding m_enc_of_def[abs_def]
    by (intro takes_bind[OF b] takes_steps stable_steps) (simp_all add: stable_Some)
  then show ?thesis
    by (rule takes_pages) simp
qed

lemma takes_rows: "takes 2 (\<lambda>H. Option.bind (m_each (\<lambda>s. kj_vec ex_host (src_rg_rows s)) (fs_srcs ex_ts_set) H) (\<lambda>(rgs, H). klist ex_host rgs H)) (\<lambda>x. True)"
proof -
  have one: "takes 1 (kj_vec ex_host (src_rg_rows s)) (\<lambda>x. True)" if s: "s \<in> set (fs_srcs ex_ts_set)" for s
    using takes_vectors(2) ex_meta_parts(7) s by simp
  have "takes (length (fs_srcs ex_ts_set) * 1 + 1)
      (\<lambda>H. Option.bind (m_each (\<lambda>s. kj_vec ex_host (src_rg_rows s)) (fs_srcs ex_ts_set) H) (\<lambda>(rgs, H). klist ex_host rgs H)) (\<lambda>x. True)"
    by (rule takes_bind[OF takes_each[OF one] takes_vectors(1)]) (simp_all add: ex_meta_parts(4))
  then show ?thesis
    by (rule takes_pages) (simp add: ex_meta_parts(4))
qed

lemma dict_assoc:
  "m_dict A fs H = (case mapR (\<lambda>t. t) (fs_lts fs) of
     Inl e \<Rightarrow> Some (Inl e, H)
   | Inr lts \<Rightarrow>
       Option.bind (ksyms A (map (\<lambda>s. bytes_of (src_orig s)) (fs_srcs fs)) H) (\<lambda>(files, H).
       Option.bind (ksyms A (map bytes_of (fs_names fs)) H) (\<lambda>(cols, H).
       Option.bind (kchars A (bytes_of (map type_char lts)) H) (\<lambda>(types, H).
       Option.bind (ha_kj A (set_rows fs) H) (\<lambda>(rows, H).
       Option.bind (Option.bind (m_each (\<lambda>s. kj_vec A (src_rg_rows s)) (fs_srcs fs) H) (\<lambda>(rgs, H). klist A rgs H)) (\<lambda>(rg, H).
       Option.bind (m_sizes A fs (length lts) H) (\<lambda>(by, H).
       Option.bind (m_stats_of A fs lts H) (\<lambda>(stats, H).
       Option.bind (m_enc_of A fs (length lts) H) (\<lambda>(enc, H).
       Option.bind (ksyms A (map bytes_of meta_keys) H) (\<lambda>(keys, H).
       Option.bind (klist A [files, cols, types, rows, rg, fst by, stats, snd by, enc] H) (\<lambda>(vals, H).
       map_option (\<lambda>(d, H). (Inr d, H)) (ha_xD A keys vals H))))))))))))"
  by (simp add: m_dict_def split_def bind_assoc split: sum.split)

lemma ex_dict_runs: "\<exists>x H'. m_dict ex_host ex_meta_set ex_heap = Some (Inr x, H')"
proof -
  have f: "map (\<lambda>s. bytes_of (src_orig s)) (fs_srcs ex_ts_set) = [bytes_of ''a'']"
    by (simp add: ex_ts_set_def ex_stats_def)
  have j: "takes 0 (ha_kj ex_host 2) (\<lambda>x. True)"
    by (rule takes_kj) simp_all
  have k: "length (map bytes_of meta_keys) = 9" "\<forall>b \<in> set (map bytes_of meta_keys). length b < 2048"
    by (simp_all add: meta_keys_def)
  have s: "takes (length [KP] * 9 + 1) (m_stats_of ex_host ex_meta_set [KP]) (\<lambda>x. True)"
    by (rule takes_stats_of) (simp_all add: ex_meta_parts L_TYPES_def)
  have z: "takes 6 (m_sizes ex_host ex_meta_set (length [KP])) (\<lambda>x. True)"
    using takes_sizes by simp
  have m: "mapR (\<lambda>t. t) [Inr KP :: int result] = Inr [KP]"
    by simp
  have "takes ((1 + length [bytes_of ''a'']) + ((1 + length (map bytes_of [''c''])) + (1 + (0 + (2 + (6 + ((length [KP] * 9 + 1) + (1 +
      ((1 + length (map bytes_of meta_keys)) + (1 + 1)))))))))) (m_dict ex_host ex_meta_set) (\<lambda>r. \<exists>x. r = Inr x)"
    unfolding dict_assoc[abs_def] ex_meta_parts(1,2,3,5) m sum.case f kchars_def
    by (intro takes_bind[OF takes_ksyms] takes_bind[OF takes_host(2)] takes_bind[OF j] takes_bind[OF takes_rows]
        takes_bind[OF z] takes_bind[OF s] takes_bind[OF takes_enc] takes_bind[OF takes_vectors(1)]
        takes_map[OF takes_host(3)]) (use k in simp_all)
  from takesD[OF this below_start] k(1) show ?thesis
    by auto
qed


section \<open>Properties\<close>

lemma norm_list: "(\<And>v. v \<in> set vs \<Longrightarrow> norm_long v = v) \<Longrightarrow> norm_long (KList vs) = KList vs"
  by (simp add: map_idI)

lemma dict_denotes:
  assumes A: "api_ok A" and sy: "hp_syms H \<subseteq> hp_used H" and fs: "dict_ready fs" and ktn: "ktn_ok ktn"
    and run: "m_dict A fs H = Some (r, H')"
  shows "case r of Inl e \<Rightarrow> H' = H \<and> dict ktn fs = Inl e
    | Inr x \<Rightarrow> grows H H' \<and> (\<exists>v. held H' x v \<and> dict ktn fs = Inr (norm_long v))"
proof (cases "mapR (\<lambda>t. t) (fs_lts fs)")
  case (Inl e)
  then show ?thesis
    using run by (auto simp: m_dict_def dict_def)
next
  case (Inr lts)
  obtain x where x: "r = Inr x"
    using run Inr by (auto simp: m_dict_def Option.bind_eq_Some_conv)
  obtain t where g: "grows H H'" and t: "t \<in> {KJ, KJL}" and h: "held H' x (KDict (KSyms meta_keys)
      (KList [KSyms (map src_orig (fs_srcs fs)), KSyms (fs_names fs), KVec8 KC (bytes_of (map type_char lts)),
        KAtom t (set_rows fs), KList (map (\<lambda>s. KVec64 KJ (src_rg_rows s)) (fs_srcs fs)), fst (sizes fs (length lts)),
        stats_of ktn fs lts, snd (sizes fs (length lts)), enc_of fs (length lts)]))"
    using dict_held[OF A sy fs ktn Inr run[unfolded x]] by blast
  have lts: "set lts \<subseteq> L_TYPES"
    using fs mapR_self[OF Inr] by (auto simp: dict_ready_def)
  have a: "norm_long (KAtom t (set_rows fs)) = KAtom KJ (set_rows fs)"
    using t by auto
  have st: "norm_long (stats_of ktn fs lts) = stats_of ktn fs lts"
    unfolding stats_of_def using lts by (intro norm_list) (auto simp: in_set_enumerate_eq intro!: norm_stats_col[OF ktn])
  have si: "norm_long (fst (sizes fs n)) = fst (sizes fs n)" "norm_long (snd (sizes fs n)) = snd (sizes fs n)" for n
    by (simp_all add: sizes_def Let_def)
  have e: "norm_long (enc_of fs n) = enc_of fs n" for n
    by (simp add: enc_of_def)
  have "dict ktn fs = Inr (norm_long (KDict (KSyms meta_keys)
      (KList [KSyms (map src_orig (fs_srcs fs)), KSyms (fs_names fs), KVec8 KC (bytes_of (map type_char lts)),
        KAtom t (set_rows fs), KList (map (\<lambda>s. KVec64 KJ (src_rg_rows s)) (fs_srcs fs)), fst (sizes fs (length lts)),
        stats_of ktn fs lts, snd (sizes fs (length lts)), enc_of fs (length lts)])))"
    unfolding norm_long.simps(2,3) list.map a st si e using Inr by (simp add: dict_def split_def o_def Let_def)
  with g h x show ?thesis
    by auto
qed

text \<open>C13
  The dict of \<^verbatim>\<open>pq_meta\<close> in the host's memory. Over any host whose allocator,
  symbol table, long atoms and dict constructor keep their laws, the run of stores that
  \<^verbatim>\<open>dict\<close> makes (vectors of arbitrary first contents, three of them filled side by
  side for a column's statistics, each slot by a store of its element's width) either refuses
  with the error of the value-level dict and no store at all, or returns a handle that denotes
  that dict, whatever the vectors held when they were allocated, and leaves every byte that was
  in use before as it was. A long atom counts the same inline or boxed.
\<close>

theorem meta_dict_denotes:
  assumes "api_ok A" "hp_syms H \<subseteq> hp_used H" "dict_ready fs" "ktn_ok ktn" "m_dict A fs H = Some (r, H')"
  shows "case r of Inl e \<Rightarrow> H' = H \<and> dict ktn fs = Inl e
    | Inr x \<Rightarrow> grows H H' \<and> (\<exists>v. held H' x v \<and> dict ktn fs = Inr (norm_long v))"
  by (rule dict_denotes[OF assms])

lemma ex_dict_ready: "dict_ready ex_meta_set"
  by (simp add: dict_ready_def stats_ready_def set_ok_def ex_meta_set_def ex_ts_set_def ex_stats_def n_rg_def sym_ok_def L_TYPES_def
      clean_rg_def rg_stats_def set_rgs_def clean_stat_def)

theorem meta_dict_denotes_witness:
  "\<exists>x H' v d. m_dict ex_host ex_meta_set ex_heap = Some (Inr x, H') \<and> repr (hp_mem H') x v \<and>
     dict ex_ktn ex_meta_set = Inr d \<and> d = norm_long v \<and> grows ex_heap H'"
proof -
  obtain x H' where run: "m_dict ex_host ex_meta_set ex_heap = Some (Inr x, H')"
    using ex_dict_runs by blast
  have "hp_syms ex_heap \<subseteq> hp_used ex_heap"
    by (simp add: ex_heap_def)
  from meta_dict_denotes[OF ex_host_ok this ex_dict_ready ex_ktn_ok run] run show ?thesis
    using held_repr by fastforce
qed


end
