(* ===== verification/Owned.thy ===== *)
theory Owned
  imports Read
begin

text \<open>
  Who owns what \<^verbatim>\<open>read\<close> (\<^verbatim>\<open>src/src/read.rs\<close>) allocates. The host's values are
  counted: \<^verbatim>\<open>ktn\<close> hands one out with a single owner, storing it in a list or a dict moves
  it there, and \<^verbatim>\<open>r0\<close> frees a value with everything it owns. The other theories model
  the rows; this one models the boxes the rows are in, over every outcome the page decoder
  can have. None is an access the host does not survive: a box that is gone, or a slot that
  was never filled.
\<close>

section \<open>Boxes\<close>

datatype box = Vec int nat | Boxes "nat option list"

type_synonym boxes = "box option list"   \<comment> \<open>by address; None is a freed box\<close>

definition box_at :: "boxes \<Rightarrow> nat \<Rightarrow> box option" where
  "box_at H r = (if r < length H then H ! r else None)"

primrec owns :: "box \<Rightarrow> nat list option" where
  "owns (Vec t n) = Some []"
| "owns (Boxes bs) = (if None \<in> set bs then None else Some (map the bs))"

definition live :: "boxes \<Rightarrow> nat" where
  "live H = length (filter (\<lambda>b. b \<noteq> None) H)"

lemma live_free: "box_at H x = Some b \<Longrightarrow> live (H[x := None]) < live H"
proof -
  assume "box_at H x = Some b"
  then have x: "x < length H" "H ! x = Some b"
    by (auto simp: box_at_def split: if_splits)
  obtain ys zs where "H = ys @ Some b # zs" "length ys = x"
  proof
    show "H = take x H @ Some b # drop (Suc x) H" "length (take x H) = x"
      using id_take_nth_drop[OF x(1)] x by simp_all
  qed
  then show ?thesis
    by (auto simp: live_def)
qed

section \<open>The operations\<close>

definition new_ktn :: "int \<Rightarrow> nat \<Rightarrow> boxes \<Rightarrow> nat \<times> boxes" where
  "new_ktn t n H = (length H, H @ [Some (if t = 0 then Boxes (replicate n None) else Vec t n)])"

definition new_box :: "nat list \<Rightarrow> boxes \<Rightarrow> nat \<times> boxes" where
  "new_box xs H = (length H, H @ [Some (Boxes (map Some xs))])"

definition touch :: "nat list \<Rightarrow> boxes \<Rightarrow> boxes option" where
  "touch xs H = (if list_all (\<lambda>x. box_at H x \<noteq> None) xs then Some H else None)"

definition put_k :: "nat \<Rightarrow> nat \<Rightarrow> nat \<Rightarrow> boxes \<Rightarrow> boxes option" where
  "put_k r i x H = (case box_at H r of
     Some (Boxes bs) \<Rightarrow> if i < length bs then Some (H[r := Some (Boxes (bs[i := Some x]))]) else None
   | _ \<Rightarrow> None)"

fun put_all :: "nat \<Rightarrow> nat \<Rightarrow> nat list \<Rightarrow> boxes \<Rightarrow> boxes option" where
  "put_all r i [] H = Some H"
| "put_all r i (x # xs) H = Option.bind (put_k r i x H) (put_all r (Suc i) xs)"

definition own_klist :: "nat list \<Rightarrow> boxes \<Rightarrow> (nat \<times> boxes) option" where
  "own_klist xs H = (let (r, H) = new_ktn 0 (length xs) H in map_option (\<lambda>H. (r, H)) (put_all r 0 xs H))"

text \<open>\<^verbatim>\<open>r0\<close> of one value after another, with what they own.\<close>

function free_all :: "nat list \<Rightarrow> boxes \<Rightarrow> boxes option" where
  "free_all [] H = Some H"
| "free_all (x # xs) H = (case box_at H x of
     None \<Rightarrow> None
   | Some b \<Rightarrow> (case owns b of None \<Rightarrow> None | Some ys \<Rightarrow> free_all (ys @ xs) (H[x := None])))"
  by pat_completeness auto
termination
  by (relation "measure (\<lambda>(xs, H). live H)") (auto simp: live_free)

section \<open>The read\<close>

fun new_cols :: "nat \<Rightarrow> nat \<Rightarrow> int list \<Rightarrow> nat \<Rightarrow> boxes \<Rightarrow> (nat list \<times> boxes) option" where
  "new_cols C p [] tot H = Some ([], H)"
| "new_cols C p (lt # lts) tot H = (let (x, H) = new_ktn lt tot H in
     Option.bind (put_k C p x H) (\<lambda>H. map_option (\<lambda>(xs, H). (x # xs, H)) (new_cols C (Suc p) lts tot H)))"

text \<open>
  The columns that gave up. \<open>ok p\<close> says whether the second reading of column \<open>p\<close>
  succeeds; Inl is the error return.
\<close>

fun own_reread :: "bool list \<Rightarrow> (nat \<Rightarrow> bool) \<Rightarrow> nat \<Rightarrow> nat \<Rightarrow> nat \<Rightarrow> nat list \<Rightarrow> nat list \<times> codes option list \<Rightarrow> boxes \<Rightarrow>
    (boxes + (nat list \<times> codes option list) \<times> boxes) option" where
  "own_reread gives ok tot N C [] st H = Some (Inr (st, H))"
| "own_reread gives ok tot N C (p # ps) (cs, cds) H =
    (if \<not> gave_up cds gives p then own_reread gives ok tot N C ps (cs, cds) H
     else let (ks, H) = new_ktn KS tot H in
       Option.bind (touch [ks] H) (\<lambda>H.
         if \<not> ok p then map_option Inl (free_all [ks, N, C] H)
         else Option.bind (free_all [cs ! p] H) (\<lambda>H. Option.bind (put_k C p ks H) (\<lambda>H.
           own_reread gives ok tot N C ps (cs[p := ks], cds[p := None]) H))))"

fun own_pairs :: "nat \<Rightarrow> nat list \<Rightarrow> nat list \<times> codes option list \<Rightarrow> boxes \<Rightarrow> boxes option" where
  "own_pairs C [] st H = Some H"
| "own_pairs C (p # ps) (cs, cds) H = (case cds ! p of
     None \<Rightarrow> own_pairs C ps (cs, cds) H
   | Some cd \<Rightarrow> (let (d, H) = new_ktn KS (length (cd_d cd)) H in
       Option.bind (own_klist [d, cs ! p] H) (\<lambda>(l, H). Option.bind (put_k C p l H) (own_pairs C ps (cs, cds)))))"

text \<open>The value handed to the host: a table, or with \<open>codes\<close> the column dict.\<close>

definition own_answer :: "bool \<Rightarrow> nat \<Rightarrow> nat \<Rightarrow> nat list \<times> codes option list \<Rightarrow> boxes \<Rightarrow> (nat option \<times> boxes) option" where
  "own_answer codes N C st H =
    (if \<not> codes then let (d, H) = new_box [N, C] H; (t, H) = new_box [d] H in Some (Some t, H)
     else map_option (\<lambda>H. let (d, H) = new_box [N, C] H in (Some d, H)) (own_pairs C [0..<length (fst st)] st H))"

text \<open>
  \<open>dec\<close> is the outcome of the decode: None an error, Some the columns that gave up. The
  answer is None for the error and the value handed to the host otherwise.
\<close>

definition own_read :: "sel \<Rightarrow> codes option list \<Rightarrow> bool \<Rightarrow> nat \<Rightarrow> bool list option \<Rightarrow> (nat \<Rightarrow> bool) \<Rightarrow> boxes \<Rightarrow> (nat option \<times> boxes) option" where
  "own_read sl cds codes tot dec ok H =
    (let nc = length (sel_out sl); (N, H) = new_ktn KS nc H; (C, H) = new_ktn 0 nc H in
     Option.bind (new_cols C 0 (map (col_lt cds sl) [0..<nc]) tot H) (\<lambda>(cs, H).
     Option.bind (touch cs H) (\<lambda>H.
     case dec of None \<Rightarrow> map_option (\<lambda>H. (None, H)) (free_all [N, C] H)
     | Some gives \<Rightarrow> Option.bind (own_reread gives ok tot N C [0..<nc] (cs, cds) H) (\<lambda>r. case r of
         Inl H \<Rightarrow> Some (None, H)
       | Inr (st, H) \<Rightarrow> own_answer codes N C st H))))"

section \<open>Ownership\<close>

text \<open>
  \<open>forest H xs S\<close>: the values \<open>xs\<close> own the boxes \<open>S\<close>, each of them once.
\<close>

inductive forest :: "boxes \<Rightarrow> nat list \<Rightarrow> nat set \<Rightarrow> bool" for H where
  nil: "forest H [] {}"
| cons: "box_at H x = Some b \<Longrightarrow> owns b = Some ys \<Longrightarrow> forest H (ys @ xs) S \<Longrightarrow> x \<notin> S \<Longrightarrow> forest H (x # xs) (insert x S)"

inductive_cases forest_consE: "forest H (x # xs) S"
inductive_simps forest_nil_iff [simp]: "forest H [] S"

definition wipe :: "nat set \<Rightarrow> boxes \<Rightarrow> boxes" where
  "wipe S H = map (\<lambda>i. if i \<in> S then None else H ! i) [0..<length H]"

lemma box_at_wipe [simp]: "box_at (wipe S H) i = (if i \<in> S then None else box_at H i)"
  by (simp add: box_at_def wipe_def)

lemma length_wipe [simp]: "length (wipe S H) = length H"
  by (simp add: wipe_def)

lemma box_at_update: "box_at (H[x := v]) i = (if i = x \<and> x < length H then v else box_at H i)"
  by (simp add: box_at_def nth_list_update)

lemma box_at_snoc: "box_at (H @ [v]) i = (if i = length H then v else box_at H i)"
  by (simp add: box_at_def nth_append)

lemma box_at_less: "box_at H i = Some b \<Longrightarrow> i < length H"
  by (simp add: box_at_def split: if_splits)

lemma boxes_eqI: "length H = length H' \<Longrightarrow> (\<And>i. box_at H i = box_at H' i) \<Longrightarrow> H = H'"
proof (rule nth_equalityI)
  fix i
  assume "length H = length H'" "\<And>i. box_at H i = box_at H' i" "i < length H"
  from this(2)[of i] this(1,3) show "H ! i = H' ! i"
    by (simp add: box_at_def)
qed

lemma forest_live: "forest H xs S \<Longrightarrow> i \<in> S \<Longrightarrow> box_at H i \<noteq> None"
  by (induction rule: forest.induct) auto

lemma forest_root: "forest H xs S \<Longrightarrow> set xs \<subseteq> S"
  by (induction rule: forest.induct) auto

lemma forest_cong: "forest H xs S \<Longrightarrow> \<forall>i \<in> S. box_at H' i = box_at H i \<Longrightarrow> forest H' xs S"
proof (induction rule: forest.induct)
  case (cons x b ys xs S)
  then show ?case
    by (intro forest.cons[of H' x b ys]) simp_all
qed (rule forest.nil)

lemma forest_append: "forest H xs A \<Longrightarrow> forest H zs B \<Longrightarrow> A \<inter> B = {} \<Longrightarrow> forest H (xs @ zs) (A \<union> B)"
proof (induction rule: forest.induct)
  case (cons x b ys xs S)
  have "forest H (x # xs @ zs) (insert x (S \<union> B))"
    using cons by (intro forest.cons[of H x b ys]) auto
  then show ?case
    by simp
qed simp

lemma forest_split: "forest H us S \<Longrightarrow> us = xs @ zs \<Longrightarrow>
   \<exists>A B. forest H xs A \<and> forest H zs B \<and> A \<inter> B = {} \<and> S = A \<union> B"
proof (induction arbitrary: xs rule: forest.induct)
  case nil
  then show ?case
    by simp
next
  case (cons x b ys vs S)
  show ?case
  proof (cases xs)
    case Nil
    then show ?thesis
      using forest.cons[OF cons.hyps] cons.prems by (intro exI[of _ "{}"] exI[of _ "insert x S"]) simp
  next
    case (Cons y xs')
    then have x: "y = x" "ys @ vs = (ys @ xs') @ zs"
      using cons.prems by simp_all
    obtain A B where AB: "forest H (ys @ xs') A" "forest H zs B" "A \<inter> B = {}" "S = A \<union> B"
      using cons.IH[OF x(2)] by blast
    have "forest H xs (insert x A)"
      unfolding Cons x(1) using cons.hyps AB by (intro forest.cons[of H x b ys]) auto
    then show ?thesis
      using AB cons.hyps(4) by (intro exI[of _ "insert x A"] exI[of _ B]) auto
  qed
qed

lemma free_forest: "forest H xs S \<Longrightarrow> \<forall>i \<in> S. box_at H' i = box_at H i \<Longrightarrow> free_all xs H' = Some (wipe S H')"
proof (induction arbitrary: H' rule: forest.induct)
  case nil
  then show ?case
    by (simp add: boxes_eqI)
next
  case (cons x b ys xs S)
  have x: "box_at H' x = Some b"
    using cons by simp
  have "free_all (ys @ xs) (H'[x := None]) = Some (wipe S (H'[x := None]))"
    using cons by (intro cons.IH) (auto simp: box_at_update)
  also have "wipe S (H'[x := None]) = wipe (insert x S) H'"
    by (rule boxes_eqI) (auto simp: box_at_update box_at_less[OF x])
  finally show ?case
    using x cons.hyps(2) by simp
qed

lemma forest_leaf: "box_at H x = Some (Vec t n) \<Longrightarrow> forest H [x] {x}"
  using forest.cons[of H x "Vec t n" "[]" "[]" "{}"] by simp

lemma forest_box:
  assumes "box_at H x = Some (Boxes (map Some ys))" "forest H ys S" "x \<notin> S"
  shows "forest H [x] (insert x S)"
  using assms by (intro forest.cons[of H x "Boxes (map Some ys)" ys]) (auto simp: comp_def)

section \<open>The frame\<close>

text \<open>Above \<open>H0\<close>, which is as it was, exactly the boxes \<open>S\<close> are live.\<close>

definition frame :: "boxes \<Rightarrow> boxes \<Rightarrow> nat set \<Rightarrow> bool" where
  "frame H0 H S \<longleftrightarrow> length H0 \<le> length H \<and> (\<forall>i < length H0. H ! i = H0 ! i) \<and>
     S = {i. length H0 \<le> i \<and> box_at H i \<noteq> None}"

lemma frame_start: "frame H0 H0 {}"
  by (auto simp: frame_def box_at_def)

lemma frame_new: "frame H0 H S \<Longrightarrow> frame H0 (H @ [Some b]) (insert (length H) S)"
  by (auto simp: frame_def box_at_snoc nth_append)

lemma frame_above: "frame H0 H S \<Longrightarrow> x \<in> S \<Longrightarrow> length H0 \<le> x \<and> x < length H"
  by (auto simp: frame_def dest: box_at_less)

lemma frame_update: "frame H0 H S \<Longrightarrow> x \<in> S \<Longrightarrow> frame H0 (H[x := Some b]) S"
  using frame_above[of H0 H S x] by (auto simp: frame_def box_at_update)

lemma frame_wipe: "frame H0 H S \<Longrightarrow> A \<subseteq> S \<Longrightarrow> frame H0 (wipe A H) (S - A)"
  by (auto simp: frame_def wipe_def box_at_def)

lemma frame_end:
  assumes "frame H0 H {}"
  shows "\<exists>k. H = H0 @ replicate k None"
proof -
  have f: "length H0 \<le> length H" "\<forall>i < length H0. H ! i = H0 ! i" and none: "box_at H i = None" if "length H0 \<le> i" for i
    using assms that by (auto simp: frame_def)
  have "H ! i = None" if "length H0 \<le> i" "i < length H" for i
    using none[OF that(1)] that(2) by (simp add: box_at_def)
  then have "H = H0 @ replicate (length H - length H0) None"
    using assms by (intro nth_equalityI) (auto simp: nth_append frame_def)
  then show ?thesis ..
qed

lemma forest_new: "forest H xs S \<Longrightarrow> forest (H @ [v]) xs S \<and> length H \<notin> S"
proof -
  assume f: "forest H xs S"
  have less: "i < length H" if "i \<in> S" for i
    using forest_live[OF f that] by (auto simp: box_at_def split: if_splits)
  then show ?thesis
    using forest_cong[OF f, of "H @ [v]"] by (force simp: box_at_snoc)
qed

lemma forest_pick:
  assumes "forest H (N # cs) S" "p < length cs"
  shows "\<exists>A B D. forest H (N # take p cs) A \<and> forest H [cs ! p] B \<and> forest H (drop (Suc p) cs) D \<and>
    A \<inter> B = {} \<and> A \<inter> D = {} \<and> B \<inter> D = {} \<and> S = A \<union> B \<union> D"
proof -
  have "N # cs = (N # take p cs) @ [cs ! p] @ drop (Suc p) cs"
    using assms(2) id_take_nth_drop by fastforce
  from forest_split[OF assms(1) this] obtain A X where X: "forest H (N # take p cs) A" "forest H ([cs ! p] @ drop (Suc p) cs) X"
      "A \<inter> X = {}" "S = A \<union> X"
    by blast
  from forest_split[OF X(2) refl] obtain B D where "forest H [cs ! p] B" "forest H (drop (Suc p) cs) D" "B \<inter> D = {}" "X = B \<union> D"
    by blast
  with X show ?thesis
    by (intro exI[of _ A] exI[of _ B] exI[of _ D]) auto
qed

lemma forest_put:
  assumes "forest H (N # take p cs) A" "forest H [x] B" "forest H (drop (Suc p) cs) D"
    "A \<inter> B = {}" "A \<inter> D = {}" "B \<inter> D = {}" "p < length cs"
  shows "forest H (N # cs[p := x]) (A \<union> B \<union> D)"
proof -
  have "forest H (((N # take p cs) @ [x]) @ drop (Suc p) cs) ((A \<union> B) \<union> D)"
    using assms by (intro forest_append) auto
  moreover have "((N # take p cs) @ [x]) @ drop (Suc p) cs = N # cs[p := x]"
    using assms(7) by (simp add: upd_conv_take_nth_drop)
  ultimately show ?thesis
    by simp
qed

text \<open>
  The state of the read: the names \<open>N\<close>, the list \<open>C\<close> with its columns \<open>cs\<close> and
  \<open>m\<close> slots to come, and nothing else.
\<close>

definition holding :: "boxes \<Rightarrow> boxes \<Rightarrow> nat \<Rightarrow> nat \<Rightarrow> nat list \<Rightarrow> nat \<Rightarrow> bool" where
  "holding H0 H N C cs m \<longleftrightarrow> box_at H C = Some (Boxes (map Some cs @ replicate m None)) \<and>
     (\<exists>S. forest H (N # cs) S \<and> C \<notin> S \<and> frame H0 H (insert C S))"

lemma put_slot: "box_at H C = Some (Boxes bs) \<Longrightarrow> i < length bs \<Longrightarrow> put_k C i x H = Some (H[C := Some (Boxes (bs[i := Some x]))])"
  by (simp add: put_k_def)

text \<open>A slot of the list is filled, or moved out and filled again.\<close>

lemma holding_put:
  assumes C: "box_at H C = Some (Boxes bs)" and p: "p < length bs" and bs: "bs[p := Some x] = map Some cs @ replicate m None"
    and f: "forest H (N # cs) S" "C \<notin> S" "frame H0 H (insert C S)"
  shows "\<exists>H'. put_k C p x H = Some H' \<and> holding H0 H' N C cs m"
proof -
  let ?H = "H[C := Some (Boxes (map Some cs @ replicate m None))]"
  have "forest ?H (N # cs) S"
    using f(1,2) by (intro forest_cong[OF f(1)]) (auto simp: box_at_update)
  moreover have "frame H0 ?H (insert C S)"
    using f(3) by (intro frame_update) simp_all
  moreover have "box_at ?H C = Some (Boxes (map Some cs @ replicate m None))"
    using box_at_less[OF C] by (simp add: box_at_update)
  ultimately show ?thesis
    using put_slot[OF C p, of x] f(2) unfolding bs holding_def by blast
qed

section \<open>Filling the list\<close>

lemma holding_start: "holding H (H @ [Some (Vec t n), Some (Boxes (replicate nc None))]) (length H) (Suc (length H)) [] nc"
proof -
  let ?H1 = "H @ [Some (Vec t n)]"
  let ?H2 = "?H1 @ [Some (Boxes (replicate nc None))]"
  have "forest ?H1 [length H] {length H}"
    by (rule forest_leaf[of _ _ t n]) (simp add: box_at_snoc)
  then have "forest ?H2 [length H] {length H}"
    using forest_new by blast
  moreover have "frame H ?H2 (insert (length ?H1) (insert (length H) {}))"
    using frame_new[OF frame_new[OF frame_start]] .
  moreover have "box_at ?H2 (length ?H1) = Some (Boxes (replicate nc None))"
    unfolding box_at_snoc by simp
  ultimately show ?thesis
    by (auto simp: holding_def)
qed

lemma holding_live: "holding H0 H N C cs m \<Longrightarrow> x \<in> set cs \<Longrightarrow> box_at H x \<noteq> None"
  using forest_root[of H "N # cs"] forest_live[of H "N # cs"] unfolding holding_def by fastforce

lemma new_col_holding:
  assumes h: "holding H0 H N C cs (Suc m)" and lt: "lt \<noteq> 0"
  shows "\<exists>H'. put_k C (length cs) (length H) (H @ [Some (Vec lt tot)]) = Some H' \<and> holding H0 H' N C (cs @ [length H]) m"
proof -
  let ?H1 = "H @ [Some (Vec lt tot)]"
  obtain S where C: "box_at H C = Some (Boxes (map Some cs @ replicate (Suc m) None))"
      and f: "forest H (N # cs) S" "C \<notin> S" "frame H0 H (insert C S)"
    using h by (auto simp: holding_def)
  have new: "forest ?H1 (N # cs) S" "length H \<notin> S"
    using forest_new[OF f(1)] by blast+
  have "forest ?H1 [length H] {length H}"
    by (rule forest_leaf[of _ _ lt tot]) (simp add: box_at_snoc)
  then have f1: "forest ?H1 (N # cs @ [length H]) (insert (length H) S)"
    using forest_append[OF new(1), of "[length H]" "{length H}"] new(2) by simp
  have C1: "box_at ?H1 C = Some (Boxes (map Some cs @ replicate (Suc m) None))" "C \<noteq> length H"
    using C box_at_less[OF C] by (simp_all add: box_at_snoc)
  have fr: "frame H0 ?H1 (insert C (insert (length H) S))"
    using frame_new[OF f(3), of "Vec lt tot"] by (simp add: insert_commute)
  have upd: "(map Some cs @ replicate (Suc m) None)[length cs := Some (length H)] = map Some (cs @ [length H]) @ replicate m None"
    by (simp add: list_update_append)
  show ?thesis
    using holding_put[OF C1(1) _ upd f1 _ fr] f(2) C1(2) by simp
qed

lemma new_cols_holding:
  "holding H0 H N C cs (length lts) \<Longrightarrow> \<forall>lt \<in> set lts. lt \<noteq> 0 \<Longrightarrow>
     \<exists>xs H'. new_cols C (length cs) lts tot H = Some (xs, H') \<and> length xs = length lts \<and> holding H0 H' N C (cs @ xs) 0"
proof (induction lts arbitrary: cs H)
  case Nil
  then show ?case
    by simp
next
  case (Cons lt lts)
  obtain H1 where H1: "put_k C (length cs) (length H) (H @ [Some (Vec lt tot)]) = Some H1"
      "holding H0 H1 N C (cs @ [length H]) (length lts)"
    using new_col_holding[of H0 H N C cs "length lts" lt tot] Cons.prems by auto
  obtain xs H' where "new_cols C (length (cs @ [length H])) lts tot H1 = Some (xs, H')" "length xs = length lts"
      "holding H0 H' N C ((cs @ [length H]) @ xs) 0"
    using Cons.IH[OF H1(2)] Cons.prems(2) by auto
  then show ?case
    using H1(1) Cons.prems(2) by (intro exI[of _ "length H # xs"] exI[of _ H']) (simp add: new_ktn_def)
qed

section \<open>Giving everything back\<close>

lemma holding_forest: "holding H0 H N C cs 0 \<Longrightarrow> \<exists>S. forest H [N, C] S \<and> frame H0 H S"
proof -
  assume "holding H0 H N C cs 0"
  then obtain S where C: "box_at H C = Some (Boxes (map Some cs))"
      and f: "forest H ([N] @ cs) S" "C \<notin> S" "frame H0 H (insert C S)"
    by (auto simp: holding_def)
  obtain A B where AB: "forest H [N] A" "forest H cs B" "A \<inter> B = {}" "S = A \<union> B"
    using forest_split[OF f(1) refl] by blast
  have "forest H [C] (insert C B)"
    using forest_box[OF C AB(2)] f(2) AB(4) by blast
  then have "forest H ([N] @ [C]) (A \<union> insert C B)"
    using forest_append[OF AB(1)] AB(3,4) f(2) by blast
  with f(3) AB(4) show ?thesis
    by (intro exI[of _ "insert C S"]) simp
qed

lemma free_frame: "forest H xs S \<Longrightarrow> frame H0 H S \<Longrightarrow> \<exists>k. free_all xs H = Some (H0 @ replicate k None)"
  using free_forest[of H xs S H] frame_end[of H0 "wipe S H"] frame_wipe[of H0 H S S] by auto

lemma holding_release:
  assumes h: "holding H0 H N C cs 0" and t: "t \<noteq> 0"
  shows "\<exists>k. free_all [N, C] H = Some (H0 @ replicate k None)"
    "\<exists>k. free_all [length H, N, C] (H @ [Some (Vec t n)]) = Some (H0 @ replicate k None)"
proof -
  obtain S where S: "forest H [N, C] S" "frame H0 H S"
    using holding_forest[OF h] by blast
  then show "\<exists>k. free_all [N, C] H = Some (H0 @ replicate k None)"
    by (rule free_frame)
  let ?H = "H @ [Some (Vec t n)]"
  have "forest ?H [length H] {length H}"
    by (rule forest_leaf[of _ _ t n]) (simp add: box_at_snoc)
  then have "forest ?H ([length H] @ [N, C]) ({length H} \<union> S)"
    using forest_new[OF S(1)] by (intro forest_append) auto
  moreover have "frame H0 ?H ({length H} \<union> S)"
    using frame_new[OF S(2)] by simp
  ultimately show "\<exists>k. free_all [length H, N, C] ?H = Some (H0 @ replicate k None)"
    using free_frame by fastforce
qed

section \<open>Reading a column again, and pairing it\<close>

lemma holding_pick:
  assumes h: "holding H0 H N C cs 0" and p: "p < length cs"
  shows "\<exists>A B D. forest H (N # take p cs) A \<and> forest H [cs ! p] B \<and> forest H (drop (Suc p) cs) D \<and>
    A \<inter> B = {} \<and> A \<inter> D = {} \<and> B \<inter> D = {} \<and> C \<notin> A \<union> B \<union> D \<and> frame H0 H (insert C (A \<union> B \<union> D)) \<and>
    box_at H C = Some (Boxes (map Some cs))"
proof -
  obtain S where S: "forest H (N # cs) S" "C \<notin> S" "frame H0 H (insert C S)" and C: "box_at H C = Some (Boxes (map Some cs))"
    using h by (auto simp: holding_def)
  obtain A B D where "forest H (N # take p cs) A" "forest H [cs ! p] B" "forest H (drop (Suc p) cs) D"
      "A \<inter> B = {}" "A \<inter> D = {}" "B \<inter> D = {}" "S = A \<union> B \<union> D"
    using forest_pick[OF S(1) p] by blast
  with S(2,3) C show ?thesis
    by blast
qed

lemma reread_holding:
  assumes h: "holding H0 H N C cs 0" and p: "p < length cs" and t: "t \<noteq> 0"
  shows "\<exists>H2 H'. free_all [cs ! p] (H @ [Some (Vec t n)]) = Some H2 \<and> put_k C p (length H) H2 = Some H' \<and>
    holding H0 H' N C (cs[p := length H]) 0"
proof -
  let ?H1 = "H @ [Some (Vec t n)]" and ?k = "length H"
  obtain A B D where f: "forest H (N # take p cs) A" "forest H [cs ! p] B" "forest H (drop (Suc p) cs) D"
      and ap: "A \<inter> B = {}" "A \<inter> D = {}" "B \<inter> D = {}" "C \<notin> A \<union> B \<union> D"
      and fr: "frame H0 H (insert C (A \<union> B \<union> D))" and C: "box_at H C = Some (Boxes (map Some cs))"
    using holding_pick[OF h p] by blast
  note new = forest_new[OF f(1), of "Some (Vec t n)"] forest_new[OF f(2), of "Some (Vec t n)"] forest_new[OF f(3), of "Some (Vec t n)"]
  let ?H2 = "wipe B ?H1"
  have C1: "C \<noteq> ?k" "box_at ?H2 C = Some (Boxes (map Some cs))"
    using C box_at_less[OF C] ap(4) by (simp_all add: box_at_snoc)
  have "forest ?H2 (N # take p cs) A" "forest ?H2 (drop (Suc p) cs) D"
    using new ap(1,3) forest_cong[of ?H1 _ A ?H2] forest_cong[of ?H1 _ D ?H2] by fastforce+
  moreover have "forest ?H2 [?k] {?k}"
    using new by (intro forest_leaf[of _ _ t n]) (simp add: box_at_snoc)
  ultimately have "forest ?H2 (N # cs[p := ?k]) (A \<union> {?k} \<union> D)"
    using ap new p by (intro forest_put) auto
  moreover have "frame H0 ?H2 (insert ?k (insert C (A \<union> B \<union> D)) - B)"
    using frame_wipe[OF frame_new[OF fr], of B "Vec t n"] by blast
  moreover have "insert ?k (insert C (A \<union> B \<union> D)) - B = insert C (A \<union> {?k} \<union> D)"
    using ap new by auto
  moreover have "free_all [cs ! p] ?H1 = Some ?H2"
    using free_forest[of ?H1 "[cs ! p]" B] new by simp
  moreover have "(map Some cs)[p := Some ?k] = map Some (cs[p := ?k]) @ replicate 0 None"
    by (simp add: map_update)
  ultimately show ?thesis
    using holding_put[OF C1(2), of p ?k "cs[p := ?k]" 0 N "A \<union> {?k} \<union> D" H0] p C1(1) ap(4) by auto
qed

lemma klist_two: "own_klist [d, c] H = Some (length H, H @ [Some (Boxes [Some d, Some c])])"
  by (simp add: own_klist_def new_ktn_def put_k_def box_at_def numeral_2_eq_2 nth_append)

lemma pair_holding:
  assumes h: "holding H0 H N C cs 0" and p: "p < length cs" and t: "t \<noteq> 0"
  shows "\<exists>l H2 H'. own_klist [length H, cs ! p] (H @ [Some (Vec t n)]) = Some (l, H2) \<and> put_k C p l H2 = Some H' \<and>
    holding H0 H' N C (cs[p := l]) 0"
proof -
  let ?H1 = "H @ [Some (Vec t n)]" and ?d = "length H"
  let ?H2 = "?H1 @ [Some (Boxes (map Some [?d, cs ! p]))]" and ?l = "length ?H1"
  obtain A B D where f: "forest H (N # take p cs) A" "forest H [cs ! p] B" "forest H (drop (Suc p) cs) D"
      and ap: "A \<inter> B = {}" "A \<inter> D = {}" "B \<inter> D = {}" "C \<notin> A \<union> B \<union> D"
      and fr: "frame H0 H (insert C (A \<union> B \<union> D))" and C: "box_at H C = Some (Boxes (map Some cs))"
    using holding_pick[OF h p] by blast
  have one: "forest ?H1 xs S \<and> ?d \<notin> S \<and> forest ?H2 xs S \<and> ?l \<notin> S" if "forest H xs S" for xs S
    using forest_new[OF that, of "Some (Vec t n)"] forest_new[of ?H1 xs S] by blast
  note new = one[OF f(1)] one[OF f(2)] one[OF f(3)]
  have C1: "C < length H" "box_at ?H2 C = Some (Boxes (map Some cs))"
    using C box_at_less[OF C] unfolding box_at_snoc by simp_all
  have "forest ?H1 [?d] {?d}"
    by (rule forest_leaf[of _ _ t n]) (simp add: box_at_snoc)
  then have d: "forest ?H2 [?d] {?d}"
    using forest_new by blast
  have kids: "forest ?H2 [?d, cs ! p] ({?d} \<union> B)"
    using forest_append[OF d, of "[cs ! p]" B] new by simp
  have "box_at ?H2 ?l = Some (Boxes (map Some [?d, cs ! p]))"
    unfolding box_at_snoc by simp
  then have "forest ?H2 [?l] (insert ?l ({?d} \<union> B))"
    using forest_box[OF _ kids] new by simp
  then have "forest ?H2 (N # cs[p := ?l]) (A \<union> insert ?l ({?d} \<union> B) \<union> D)"
    using ap new p by (intro forest_put) auto
  moreover have "frame H0 ?H2 (insert C (A \<union> insert ?l ({?d} \<union> B) \<union> D))"
  proof -
    have "insert ?l (insert ?d (insert C (A \<union> B \<union> D))) = insert C (A \<union> insert ?l ({?d} \<union> B) \<union> D)"
      by auto
    then show ?thesis
      using frame_new[OF frame_new[OF fr, of "Vec t n"], of "Boxes (map Some [?d, cs ! p])"] by simp
  qed
  moreover have "(map Some cs)[p := Some ?l] = map Some (cs[p := ?l]) @ replicate 0 None"
    by (simp add: map_update)
  moreover have "C \<notin> A \<union> insert ?l ({?d} \<union> B) \<union> D"
    using ap(4) C1(1) by simp
  ultimately show ?thesis
    using holding_put[OF C1(2), of p ?l "cs[p := ?l]" 0 N _ H0] p klist_two[of ?d "cs ! p" ?H1] by fastforce
qed

definition gave_back :: "boxes \<Rightarrow> boxes \<Rightarrow> bool" where
  "gave_back H0 H \<longleftrightarrow> (\<exists>k. H = H0 @ replicate k None)"

lemma gave_up_other: "p \<noteq> q \<Longrightarrow> gave_up (cds[p := None]) gives q \<longleftrightarrow> gave_up cds gives q"
  by (simp add: gave_up_def)

text \<open>The second readings as a whole: Inl has given everything back.\<close>

lemma own_reread_holding:
  "holding H0 H N C cs 0 \<Longrightarrow> \<forall>p \<in> set ps. p < length cs \<Longrightarrow> distinct ps \<Longrightarrow>
   \<exists>r. own_reread gives ok tot N C ps (cs, cds) H = Some r \<and>
     ((\<exists>H'. r = Inl H' \<and> gave_back H0 H' \<and> (\<exists>p \<in> set ps. gave_up cds gives p \<and> \<not> ok p)) \<or>
      (\<exists>cs' cds' H'. r = Inr ((cs', cds'), H') \<and> holding H0 H' N C cs' 0 \<and> length cs' = length cs \<and>
        (\<forall>p \<in> set ps. gave_up cds gives p \<longrightarrow> ok p)))"
proof (induction ps arbitrary: cs cds H)
  case Nil
  then show ?case
    by simp
next
  case (Cons p ps)
  have p: "p < length cs" "p \<notin> set ps" "distinct ps"
    using Cons.prems by simp_all
  consider "\<not> gave_up cds gives p" | "gave_up cds gives p" "\<not> ok p" | "gave_up cds gives p" "ok p"
    by blast
  then show ?case
  proof cases
    case 1
    then show ?thesis
      using Cons.IH[of H cs cds] Cons.prems by auto
  next
    case 2
    obtain k where "free_all [length H, N, C] (H @ [Some (Vec KS tot)]) = Some (H0 @ replicate k None)"
      using holding_release(2)[OF Cons.prems(1), of KS tot] by auto
    then show ?thesis
      using 2 by (auto simp: new_ktn_def touch_def box_at_snoc gave_back_def)
  next
    case 3
    obtain H2 H' where run: "free_all [cs ! p] (H @ [Some (Vec KS tot)]) = Some H2" "put_k C p (length H) H2 = Some H'"
        and h: "holding H0 H' N C (cs[p := length H]) 0"
      using reread_holding[OF Cons.prems(1) p(1), of KS tot] by auto
    have step: "own_reread gives ok tot N C (p # ps) (cs, cds) H =
        own_reread gives ok tot N C ps (cs[p := length H], cds[p := None]) H'"
      using 3 run by (simp add: new_ktn_def touch_def box_at_snoc del: free_all.simps)
    have same: "gave_up (cds[p := None]) gives q \<longleftrightarrow> gave_up cds gives q" if "q \<in> set ps" for q
      using that p(2) by (intro gave_up_other) auto
    show ?thesis
      unfolding step using Cons.IH[OF h, of "cds[p := None]"] Cons.prems(2) p(3) same 3 by simp
  qed
qed

lemma own_pairs_holding:
  "holding H0 H N C cs 0 \<Longrightarrow> \<forall>p \<in> set ps. p < length cs \<and> colv ! p = cs ! p \<Longrightarrow> distinct ps \<Longrightarrow>
   \<exists>cs' H'. own_pairs C ps (colv, cds) H = Some H' \<and> holding H0 H' N C cs' 0"
proof (induction ps arbitrary: cs H)
  case Nil
  then show ?case
    by auto
next
  case (Cons p ps)
  show ?case
  proof (cases "cds ! p")
    case None
    then show ?thesis
      using Cons by simp
  next
    case (Some cd)
    obtain l H2 H' where run: "own_klist [length H, cs ! p] (H @ [Some (Vec KS (length (cd_d cd)))]) = Some (l, H2)"
        "put_k C p l H2 = Some H'" and h: "holding H0 H' N C (cs[p := l]) 0"
      using pair_holding[OF Cons.prems(1), of p KS "length (cd_d cd)"] Cons.prems(2) by auto
    have "own_pairs C (p # ps) (colv, cds) H = own_pairs C ps (colv, cds) H'"
      using Some run Cons.prems(2) by (simp add: new_ktn_def)
    moreover have "\<forall>q \<in> set ps. q < length (cs[p := l]) \<and> colv ! q = cs[p := l] ! q"
      using Cons.prems(2,3) by (auto simp: nth_list_update)
    ultimately show ?thesis
      using Cons.IH[OF h] Cons.prems(3) by simp
  qed
qed

section \<open>The answer\<close>

text \<open>An answer owns all that is left of the read, and the one \<^verbatim>\<open>r0\<close> of it gives it back.\<close>

definition sole_owner :: "boxes \<Rightarrow> nat \<Rightarrow> boxes \<Rightarrow> bool" where
  "sole_owner H0 x H \<longleftrightarrow> (\<exists>S. forest H [x] S \<and> frame H0 H S)"

lemma sole_owner_box:
  assumes "forest H xs S" "frame H0 H S" "new_box xs H = (x, H')"
  shows "sole_owner H0 x H'"
proof -
  have H': "H' = H @ [Some (Boxes (map Some xs))]" "x = length H"
    using assms(3) by (simp_all add: new_box_def)
  have f: "forest H' xs S" "x \<notin> S"
    using forest_new[OF assms(1)] by (simp_all add: H')
  have "box_at H' x = Some (Boxes (map Some xs))"
    unfolding H' box_at_snoc by simp
  then have "forest H' [x] (insert x S)"
    using forest_box f by blast
  moreover have "frame H0 H' (insert x S)"
    using frame_new[OF assms(2)] by (simp add: H')
  ultimately show ?thesis
    by (auto simp: sole_owner_def)
qed

lemma sole_owner_frees: "sole_owner H0 x H \<Longrightarrow> \<exists>H'. free_all [x] H = Some H' \<and> gave_back H0 H'"
  using free_frame unfolding sole_owner_def gave_back_def by blast

lemma own_answer_owner:
  assumes h: "holding H0 H N C cs 0"
  shows "\<exists>x H'. own_answer codes N C (cs, cds) H = Some (Some x, H') \<and> sole_owner H0 x H'"
proof (cases codes)
  case True
  obtain cs' H1 where H1: "own_pairs C [0..<length cs] (cs, cds) H = Some H1" "holding H0 H1 N C cs' 0"
    using own_pairs_holding[OF h, of "[0..<length cs]" cs cds] by auto
  obtain S where "forest H1 [N, C] S" "frame H0 H1 S"
    using holding_forest[OF H1(2)] by blast
  then show ?thesis
    using H1(1) True sole_owner_box[of H1 "[N, C]" S H0] by (auto simp: own_answer_def split: prod.splits)
next
  case False
  obtain S where S: "forest H [N, C] S" "frame H0 H S"
    using holding_forest[OF h] by blast
  obtain d H1 where d: "new_box [N, C] H = (d, H1)"
    by fastforce
  obtain t H2 where t: "new_box [d] H1 = (t, H2)"
    by fastforce
  obtain S' where "forest H1 [d] S'" "frame H0 H1 S'"
    using sole_owner_box[OF S d] by (auto simp: sole_owner_def)
  then have "sole_owner H0 t H2"
    using sole_owner_box t by blast
  then show ?thesis
    using False d t by (simp add: own_answer_def)
qed

lemma sole_owner_take: "sole_owner H0 x H \<Longrightarrow> take (length H0) H = H0"
  unfolding sole_owner_def frame_def by (intro nth_equalityI) auto

text \<open>The list of columns, filled and written by the decode workers.\<close>

lemma own_read_unfold:
  assumes lt: "\<forall>p < length (sel_out sl). col_lt cds sl p \<noteq> 0"
  shows "\<exists>N C cs H1. holding H H1 N C cs 0 \<and> length cs = length (sel_out sl) \<and>
    own_read sl cds codes tot dec ok H = (case dec of
       None \<Rightarrow> map_option (\<lambda>H. (None, H)) (free_all [N, C] H1)
     | Some gives \<Rightarrow> Option.bind (own_reread gives ok tot N C [0..<length (sel_out sl)] (cs, cds) H1) (\<lambda>r. case r of
         Inl H \<Rightarrow> Some (None, H) | Inr (st, H) \<Rightarrow> own_answer codes N C st H))"
proof -
  let ?nc = "length (sel_out sl)" and ?lts = "map (col_lt cds sl) [0..<length (sel_out sl)]"
  let ?H = "H @ [Some (Vec KS ?nc), Some (Boxes (replicate ?nc None))]"
  have "holding H ?H (length H) (Suc (length H)) [] (length ?lts)"
    using holding_start[of H KS ?nc ?nc] by simp
  from new_cols_holding[OF this, of tot] lt obtain cs H1 where
      cs: "new_cols (Suc (length H)) 0 ?lts tot ?H = Some (cs, H1)" "length cs = ?nc"
        "holding H H1 (length H) (Suc (length H)) cs 0"
    by auto
  have "touch cs H1 = Some H1"
    using holding_live[OF cs(3)] by (simp add: touch_def list_all_iff)
  then have "own_read sl cds codes tot dec ok H = (case dec of
       None \<Rightarrow> map_option (\<lambda>H. (None, H)) (free_all [length H, Suc (length H)] H1)
     | Some gives \<Rightarrow> Option.bind (own_reread gives ok tot (length H) (Suc (length H)) [0..<?nc] (cs, cds) H1) (\<lambda>r. case r of
         Inl H' \<Rightarrow> Some (None, H') | Inr (st, H') \<Rightarrow> own_answer codes (length H) (Suc (length H)) st H'))"
    using cs(1) by (cases dec) (simp_all add: own_read_def new_ktn_def split_def del: free_all.simps)
  with cs(2,3) show ?thesis
    by blast
qed

section \<open>The transient columns of a stream\<close>

text \<open>
  \<^verbatim>\<open>stream_table\<close> (\<^verbatim>\<open>src/src/stream.rs\<close>) has one vector at a time: it is filled,
  spilled and released before the outcome of either is looked at.
\<close>

fun own_chunks :: "nat \<Rightarrow> (int \<times> bool) list \<Rightarrow> boxes \<Rightarrow> (bool \<times> boxes) option" where
  "own_chunks nr [] H = Some (True, H)"
| "own_chunks nr ((lt, ok) # cs) H = (let (x, H) = new_ktn lt nr H in
     Option.bind (touch [x] H) (\<lambda>H. Option.bind (free_all [x] H) (\<lambda>H.
       if ok then own_chunks nr cs H else Some (False, H))))"

lemma gave_back_refl: "gave_back H H"
  unfolding gave_back_def by (rule exI[of _ 0]) simp

lemma gave_back_trans: "gave_back H0 H1 \<Longrightarrow> gave_back H1 H2 \<Longrightarrow> gave_back H0 H2"
  unfolding gave_back_def by (auto simp: replicate_add[symmetric])

lemma free_one: "lt \<noteq> 0 \<Longrightarrow> new_ktn lt n H = (x, H1) \<Longrightarrow> touch [x] H1 = Some H1 \<and> (\<exists>H2. free_all [x] H1 = Some H2 \<and> gave_back H H2)"
  using frame_new[OF frame_start, of H "Vec lt n"] free_frame[OF forest_leaf[of H1 x lt n], of H]
  by (auto simp: new_ktn_def touch_def box_at_snoc gave_back_def)

lemma stream_gives_back:
  "\<forall>(lt, ok) \<in> set cs. lt \<noteq> 0 \<Longrightarrow> \<exists>H'. own_chunks nr cs H = Some (list_all snd cs, H') \<and> gave_back H H'"
proof (induction cs arbitrary: H)
  case Nil
  then show ?case
    by (simp add: gave_back_refl)
next
  case (Cons c cs)
  obtain lt ok where c: "c = (lt, ok)"
    by fastforce
  obtain x H1 where x: "new_ktn lt nr H = (x, H1)"
    by fastforce
  obtain H2 where H2: "touch [x] H1 = Some H1" "free_all [x] H1 = Some H2" "gave_back H H2"
    using free_one[OF _ x] Cons.prems c by auto
  obtain H' where "own_chunks nr cs H2 = Some (list_all snd cs, H')" "gave_back H2 H'"
    using Cons by fastforce
  then show ?case
    using H2 x c gave_back_trans by (cases ok) (auto simp del: free_all.simps)
qed

section \<open>Properties\<close>

text \<open>C19
  Nothing leaks and nothing is freed twice, whatever the page decoder answers: \<^verbatim>\<open>read\<close>
  never touches a box that is gone; an error return, from the decode or from any of the
  second readings, has given back every box the call allocated; an answer is the only owner
  of all that is left, so the host's one \<^verbatim>\<open>r0\<close> of it frees everything. What the host held
  before is as it was, and the read fails exactly when the decode or the second reading of
  a column that gave its pair up does.
\<close>

theorem read_owns_its_boxes:
  assumes "\<forall>p < length (sel_out sl). col_lt cds sl p \<noteq> 0"
  shows "\<exists>r H'. own_read sl cds codes tot dec ok H = Some (r, H') \<and>
    (case r of
       None \<Rightarrow> gave_back H H'
     | Some x \<Rightarrow> take (length H) H' = H \<and> (\<exists>H''. free_all [x] H' = Some H'' \<and> gave_back H H'')) \<and>
    (r = None \<longleftrightarrow> (case dec of None \<Rightarrow> True
       | Some gives \<Rightarrow> list_ex (\<lambda>p. gave_up cds gives p \<and> \<not> ok p) [0..<length (sel_out sl)]))"
proof -
  obtain N C cs H1 where h: "holding H H1 N C cs 0" and nc: "length cs = length (sel_out sl)"
      and run: "own_read sl cds codes tot dec ok H = (case dec of
       None \<Rightarrow> map_option (\<lambda>H. (None, H)) (free_all [N, C] H1)
     | Some gives \<Rightarrow> Option.bind (own_reread gives ok tot N C [0..<length (sel_out sl)] (cs, cds) H1) (\<lambda>r. case r of
         Inl H \<Rightarrow> Some (None, H) | Inr (st, H) \<Rightarrow> own_answer codes N C st H))"
    using own_read_unfold[OF assms] by blast
  show ?thesis
  proof (cases dec)
    case None
    then show ?thesis
      using run holding_release(1)[OF h, of KS] by (auto simp: gave_back_def)
  next
    case (Some gives)
    consider H' where "own_reread gives ok tot N C [0..<length (sel_out sl)] (cs, cds) H1 = Some (Inl H')"
          "gave_back H H'" "\<exists>p \<in> set [0..<length (sel_out sl)]. gave_up cds gives p \<and> \<not> ok p"
      | cs' cds' H' where "own_reread gives ok tot N C [0..<length (sel_out sl)] (cs, cds) H1 = Some (Inr ((cs', cds'), H'))"
          "holding H H' N C cs' 0" "\<forall>p \<in> set [0..<length (sel_out sl)]. gave_up cds gives p \<longrightarrow> ok p"
      using own_reread_holding[OF h, of "[0..<length (sel_out sl)]" gives ok tot cds] nc by fastforce
    then show ?thesis
    proof cases
      case 1
      then show ?thesis
        using run Some by (auto simp: list_ex_iff)
    next
      case 2
      obtain x H2 where "own_answer codes N C (cs', cds') H' = Some (Some x, H2)" "sole_owner H x H2"
        using own_answer_owner[OF 2(2)] by blast
      then show ?thesis
        using run Some 2(1,3) sole_owner_frees sole_owner_take by (auto simp: list_ex_iff)
    qed
  qed
qed

text \<open>A two-column read: the second column, planned as a pair, is read again.\<close>

definition own_ex_sel :: sel where
  "own_ex_sel = \<lparr>sel_out = [0, 1], sel_lts = [KJ, KS], sel_uniq = [0, 1], sel_raw = [None, None]\<rparr>"

theorem read_owns_its_boxes_witness:
  "\<exists>x H'. own_read own_ex_sel [None, Some no_plan] True 3 (Some [False, True]) (\<lambda>p. True) [] = Some (Some x, H') \<and>
     (\<exists>k. free_all [x] H' = Some (replicate k None))"
proof -
  have "\<forall>p < length (sel_out own_ex_sel). col_lt [None, Some no_plan] own_ex_sel p \<noteq> 0"
    by (simp add: own_ex_sel_def col_lt_def no_plan_def less_Suc_eq nth_Cons')
  from read_owns_its_boxes[OF this, of True 3 "Some [False, True]" "\<lambda>p. True" "[]"] show ?thesis
    by (auto simp: gave_back_def list_ex_iff)
qed

end
