(* ===== verification/Predict.thy ===== *)
theory Predict
  imports Entry
begin

text \<open>
  What \<^verbatim>\<open>pq_meta\<close> says of a set of files against what \<^verbatim>\<open>pq_read\<close> and
  \<^verbatim>\<open>pq_rg\<close> deliver from it: a caller reads the dict first, sizes and types its
  columns by it, and skips the row groups whose bounds exclude what it looks for.
\<close>

section \<open>Reading the dict\<close>

definition dict_val :: "kval \<Rightarrow> string \<Rightarrow> kval" where
  "dict_val d k = (case dict_keys d of
     KSyms ks \<Rightarrow> (case position (\<lambda>x. x = k) ks of Some i \<Rightarrow> elt (dict_vals d) i | None \<Rightarrow> d)
   | _ \<Rightarrow> d)"

text \<open>A bound that is not the null bounds every value that is not the null.\<close>

definition within :: "'a::len word \<Rightarrow> 'a word \<Rightarrow> 'a word \<Rightarrow> 'a word \<Rightarrow> bool" where
  "within nullv mn v mx \<longleftrightarrow> v = nullv \<or>
     ((mn = nullv \<or> sint mn \<le> sint v) \<and> (mx = nullv \<or> sint v \<le> sint mx))"

section \<open>What a loaded footer guarantees\<close>

text \<open>
  Leaves lie in the order of their columns, and a column with an L type, which is flat, has
  one leaf; so when every column has one, leaf and column numbers are the same.
\<close>

definition columns_in_order :: "(data_type \<Rightarrow> string) \<Rightarrow> footer \<Rightarrow> bool" where
  "columns_in_order shw m \<longleftrightarrow> sorted (ft_roots m) \<and>
     (\<forall>r \<in> set (ft_roots m). r < length (fst (ft_schema m))) \<and>
     (\<forall>c < length (fst (ft_schema m)). \<forall>lt. l_type_of shw (f_type (fst (ft_schema m) ! c)) = Inr lt \<longrightarrow>
        count_list (ft_roots m) c = 1)"

definition loads_footers :: "'st site \<Rightarrow> bool" where
  "loads_footers w \<longleftrightarrow> (\<forall>files out s. st_load w files = Some out \<longrightarrow> Inr s \<in> set out \<longrightarrow>
     src_rg_rows s = map rg_num_rows (ft_rgs (src_md s)) \<and> src_leaf s = leaf_map (src_md s) \<and>
     footer_ok (src_md s) \<and> columns_in_order (st_show w) (src_md s))"

text \<open>The footer's own promise: an extremum it calls exact bounds what its chunk stores.\<close>

definition footer_true :: "'st world \<Rightarrow> src \<Rightarrow> bool" where
  "footer_true wd s \<longleftrightarrow> (\<forall>g < length (ft_rgs (src_md s)). \<forall>l < length (rg_cols (ft_rgs (src_md s) ! g)). \<forall>st.
     cm_stats (rg_cols (ft_rgs (src_md s) ! g) ! l) = Some st \<longrightarrow>
     (\<forall>sv. st_values st = SInt64 sv \<longrightarrow> bounds_values sv (packed (ck64 (wd_chunk wd s g l)))) \<and>
     (\<forall>sv. st_values st = SInt32 sv \<longrightarrow> bounds_values sv (packed (ck32 (wd_chunk wd s g l)))))"

definition footers_true :: "'st site \<Rightarrow> 'st world \<Rightarrow> bool" where
  "footers_true w wd \<longleftrightarrow> (\<forall>files out s. st_load w files = Some out \<longrightarrow> Inr s \<in> set out \<longrightarrow> footer_true wd s)"

lemma counted_once: "(\<And>c. count_list xs c \<le> 1) \<Longrightarrow> distinct xs"
proof (induction xs)
  case (Cons x xs)
  have "count_list xs x = 0" "count_list xs c \<le> 1" for c
    using Cons.prems[of x] Cons.prems[of c] by (auto split: if_splits)
  with Cons.IH show ?case
    by (simp add: count_list_0_iff)
qed simp

lemma sorted_once:
  assumes "sorted xs" "\<forall>r \<in> set xs. r < n" "\<forall>c < n. count_list xs c = 1"
  shows "xs = [0..<n]"
proof -
  have "c \<in> set xs" if "c < n" for c
    using assms(3) that count_notin[of c xs] by fastforce
  then have s: "set xs = {0..<n}"
    using assms(2) by auto
  have "count_list xs c \<le> 1" for c
    using assms(2,3) count_notin[of c xs] by (cases "c < n") auto
  then have "distinct xs"
    by (rule counted_once)
  with assms(1) s show ?thesis
    by (intro sorted_distinct_set_unique) auto
qed

lemma leaf_is_column:
  assumes m: "columns_in_order shw (src_md s)" "src_leaf s = leaf_map (src_md s)"
    and flat: "\<forall>c < length (fst (ft_schema (src_md s))). \<exists>lt. l_type_of shw (col_type s c) = Inr lt"
    and c: "leaf_at s c = Some l"
  shows "l = c \<and> c < length (ft_roots (src_md s))"
proof -
  let ?n = "length (fst (ft_schema (src_md s)))"
  have "ft_roots (src_md s) = [0..<?n]"
    using m(1) flat by (intro sorted_once) (auto simp: columns_in_order_def col_type_def)
  moreover have "c < ?n" "leaf_map (src_md s) ! c = Some l"
    using c by (simp_all add: leaf_at_def m(2) leaf_map_spec(1) split: if_splits)
  ultimately show ?thesis
    by (simp add: leaf_map_Some_iff)
qed

section \<open>The dict of a set\<close>

lemma pq_meta_dict:
  assumes "pq_meta w f = Inr d"
  shows "\<exists>files fs lts. files_of f ''pq_rg'' = Inr files \<and> open_set (st_show w) (st_load w) files ''pq_rg'' = Inr fs \<and>
    fs_lts fs = map Inr lts \<and> dict_val d ''cols'' = KSyms (fs_names fs) \<and>
    dict_val d ''types'' = KVec8 KC (bytes_of (map type_char lts)) \<and> dict_val d ''rows'' = KAtom KJ (set_rows fs) \<and>
    dict_val d ''rg'' = KList (map (\<lambda>s. KVec64 KJ (src_rg_rows s)) (fs_srcs fs)) \<and>
    dict_val d ''stats'' = stats_of (st_vec w) fs lts"
proof -
  obtain files fs lts where o: "files_of f ''pq_meta'' = Inr files"
      "open_set (st_show w) (st_load w) files ''pq_meta'' = Inr fs" "mapR (\<lambda>t. t) (fs_lts fs) = Inr lts"
      and d: "dict (st_vec w) fs = Inr d"
    using assms by (auto simp: pq_meta_def dict_def rbind_Inr_iff Let_def)
  have d: "d = KDict (KSyms meta_keys) (KList [KSyms (map src_orig (fs_srcs fs)), KSyms (fs_names fs),
      KVec8 KC (bytes_of (map type_char lts)), KAtom KJ (set_rows fs),
      KList (map (\<lambda>s. KVec64 KJ (src_rg_rows s)) (fs_srcs fs)),
      fst (sizes fs (length lts)), stats_of (st_vec w) fs lts, snd (sizes fs (length lts)), enc_of fs (length lts)])"
    using d o(3) by (simp add: dict_def Let_def split_def)
  show ?thesis
    using files_of_who[OF o(1)] open_set_who[OF o(2)] mapR_self[OF o(3)]
    by (intro exI[of _ files] exI[of _ fs] exI[of _ lts]) (simp add: d dict_val_def meta_keys_def)
qed

section \<open>Global row groups\<close>

text \<open>The row groups of a set in the order of \<^verbatim>\<open>pq_rg\<close> are those of \<open>set_rgs\<close>.\<close>

lemma enum_pairs: "map (\<lambda>(i, x). F i x) (enumerate k xs) = map (\<lambda>i. F (k + i) (xs ! i)) [0..<length xs]"
  by (rule nth_equalityI) (simp_all add: nth_enumerate_eq)

lemma flat_set_rgs:
  assumes "set_ok fs"
  shows "map (\<lambda>(f, i, rows). (fs_srcs fs ! f, ft_rgs (src_md (fs_srcs fs ! f)) ! i)) (flat_rgs fs) = set_rgs fs"
proof -
  let ?P = "\<lambda>s. map (\<lambda>i. (s, ft_rgs (src_md s) ! i)) [0..<length (ft_rgs (src_md s))]"
  have "map (\<lambda>(f, i, rows). (fs_srcs fs ! f, ft_rgs (src_md (fs_srcs fs ! f)) ! i))
      (map (\<lambda>(i, rows). (f, i, rows)) (enumerate 0 (src_rg_rows (fs_srcs fs ! f)))) = ?P (fs_srcs fs ! f)"
    if "f < length (fs_srcs fs)" for f
  proof -
    have "length (src_rg_rows (fs_srcs fs ! f)) = length (ft_rgs (src_md (fs_srcs fs ! f)))"
      using assms that by (auto simp: set_ok_def)
    then show ?thesis
      by (intro nth_equalityI) (simp_all add: nth_enumerate_eq)
  qed
  then have "map (\<lambda>(f, i, rows). (fs_srcs fs ! f, ft_rgs (src_md (fs_srcs fs ! f)) ! i)) (flat_rgs fs) =
      concat (map (\<lambda>f. ?P (fs_srcs fs ! f)) [0..<length (fs_srcs fs)])"
    unfolding flat_rgs_def map_concat map_map
    by (intro arg_cong[of _ _ concat] nth_equalityI) (simp_all add: nth_enumerate_eq)
  also have "map (\<lambda>f. ?P (fs_srcs fs ! f)) [0..<length (fs_srcs fs)] = map ?P (fs_srcs fs)"
    by (rule nth_equalityI) simp_all
  also have "map ?P (fs_srcs fs) = map (\<lambda>s. map (\<lambda>g. (s, g)) (ft_rgs (src_md s))) (fs_srcs fs)"
    by (auto intro: nth_equalityI)
  finally show ?thesis
    by (simp add: set_rgs_def)
qed

lemma flat_rows: "map (\<lambda>(f, i, rows). rows) (flat_rgs fs) = concat (map src_rg_rows (fs_srcs fs))"
proof -
  have "map (\<lambda>(f, i, rows). rows) (map (\<lambda>(i, rows). (f, i, rows)) (enumerate k xs)) = xs" for f k and xs :: "i64 list"
    by (rule nth_equalityI) (simp_all add: nth_enumerate_eq)
  then have "map (\<lambda>(f, i, rows). rows) (flat_rgs fs) = concat (map (\<lambda>(f, s). src_rg_rows s) (enumerate 0 (fs_srcs fs)))"
    unfolding flat_rgs_def map_concat map_map by (auto intro!: arg_cong[of _ _ concat] simp: o_def split_def)
  also have "map (\<lambda>(f, s). src_rg_rows s) (enumerate 0 (fs_srcs fs)) = map src_rg_rows (fs_srcs fs)"
    by (auto simp: enum_pairs[of "\<lambda>i s. src_rg_rows s"] intro: nth_equalityI)
  finally show ?thesis .
qed

lemma in_window_one:
  "k \<le> a \<Longrightarrow> a - k < length xs \<Longrightarrow> in_window a (Suc a) k xs =
    (case xs ! (a - k) of (f, i, rows) \<Rightarrow> if 0 < sint rows then [(f, i, rows)] else [])"
proof (induction xs arbitrary: k)
  case (Cons x xs)
  obtain f i rows where x: "x = (f, i, rows)"
    by (cases x)
  show ?case
  proof (cases "a = k")
    case True
    then show ?thesis
      using in_window_past[of "Suc a" "Suc k" a xs] by (simp add: x)
  next
    case False
    then have "Suc k \<le> a" "a - k = Suc (a - Suc k)"
      using Cons.prems by simp_all
    then show ?thesis
      using Cons.IH[of "Suc k"] Cons.prems by (simp add: x)
  qed
qed simp

lemma window_cells_one:
  assumes "g < length (flat_rgs fs)" "flat_rgs fs ! g = (f, i, rows)"
  shows "window_cells wd fs sl g (Suc g) q = (if 0 < sint rows then file_rows wd fs sl q f i (unat rows) else [])"
  using in_window_one[of 0 g "flat_rgs fs"] assms by (simp add: window_cells_def)

section \<open>One row group against its bounds\<close>

lemma slot64_plain:
  "rg_stats c x = None \<Longrightarrow> lt \<in> {KJ, KP, KN} \<Longrightarrow> slot64 lt c hi x = NJ"
  "rg_stats c x = Some st \<Longrightarrow> (\<And>sv. st_values st \<noteq> SInt64 sv) \<Longrightarrow> lt \<in> {KJ, KP, KN} \<Longrightarrow> slot64 lt c hi x = NJ"
  by (auto simp: slot64_def put_rg_def put_null_def put_stat_def split: stat_values.splits)

lemma slot32_plain:
  "rg_stats c x = None \<Longrightarrow> lt \<in> {KI, KD, KT} \<Longrightarrow> slot32 lt c hi x = NI"
  "rg_stats c x = Some st \<Longrightarrow> (\<And>sv. st_values st \<noteq> SInt32 sv) \<Longrightarrow> lt \<in> {KI, KD, KT} \<Longrightarrow> slot32 lt c hi x = NI"
  by (auto simp: slot32_def put_rg_def put_null_def put_stat_def split: stat_values.splits)

lemma packed_mem: "Some v \<in> set rows \<Longrightarrow> v \<in> set (packed rows)"
  by (force simp: packed_def)

lemma raw_of_64: "raw_of dt pt = Some (RI64 m) \<Longrightarrow>
    raw_of dt P_INT64 = Some (RI64 m) \<and> (\<exists>lt \<in> {KJ, KP, KN}. l_type_of shw dt = Inr lt)"
  by (auto simp: raw_of_def split: data_type.splits if_splits)

lemma raw_of_32: "raw_of dt pt = Some RI32 \<Longrightarrow>
    raw_of dt P_INT32 = Some RI32 \<and> (\<exists>lt \<in> {KI, KD, KT}. l_type_of shw dt = Inr lt)"
  by (auto simp: raw_of_def split: data_type.splits if_splits)

lemma within_row:
  assumes "\<And>v. r = Some v \<Longrightarrow> row_value ops nullv sh m (Some v) \<noteq> nullv \<Longrightarrow>
    (mn = nullv \<or> sint mn \<le> sint (row_value ops nullv sh m (Some v))) \<and>
    (mx = nullv \<or> sint (row_value ops nullv sh m (Some v)) \<le> sint mx)"
  shows "within nullv mn (row_value ops nullv sh m r) mx"
  using assms by (cases r) (auto simp: within_def row_value_def)

lemma values_within64:
  assumes raw: "raw_of (col_type s c) P_INT64 = Some (RI64 m)" "l_type_of shw (col_type s c) = Inr lt"
    and lt: "lt \<in> {KJ, KP, KN}" and r: "r \<in> set rows"
    and bv: "\<And>st sv. rg_stats c (s, rg) = Some st \<Longrightarrow> st_values st = SInt64 sv \<Longrightarrow> bounds_values sv (packed rows)"
  shows "within NJ (slot64 lt c False (s, rg)) (row_value signed_native NJ (epoch64 lt) m r) (slot64 lt c True (s, rg))"
proof (cases "\<exists>st sv. rg_stats c (s, rg) = Some st \<and> st_values st = SInt64 sv")
  case True
  then obtain st sv where st: "rg_stats c (s, rg) = Some st" "st_values st = SInt64 sv" by blast
  show ?thesis
    by (intro within_row conjI slot64_bounds[OF raw st bv[OF st]]) (use packed_mem r in auto)
next
  case False
  then show ?thesis
    using slot64_plain(1)[OF _ lt] slot64_plain(2)[OF _ _ lt] by (cases "rg_stats c (s, rg)") (auto simp: within_def)
qed

lemma values_within32:
  assumes raw: "raw_of (col_type s c) P_INT32 = Some RI32" "l_type_of shw (col_type s c) = Inr lt"
    and lt: "lt \<in> {KI, KD, KT}" and r: "r \<in> set rows"
    and bv: "\<And>st sv. rg_stats c (s, rg) = Some st \<Longrightarrow> st_values st = SInt32 sv \<Longrightarrow> bounds_values sv (packed rows)"
  shows "within NI (slot32 lt c False (s, rg)) (row_value signed_native NI (epoch32 lt) 1 r) (slot32 lt c True (s, rg))"
proof (cases "\<exists>st sv. rg_stats c (s, rg) = Some st \<and> st_values st = SInt32 sv")
  case True
  then obtain st sv where st: "rg_stats c (s, rg) = Some st" "st_values st = SInt32 sv" by blast
  show ?thesis
    by (intro within_row conjI slot32_bounds[OF raw st bv[OF st]]) (use packed_mem r in auto)
next
  case False
  then show ?thesis
    using slot32_plain(1)[OF _ lt] slot32_plain(2)[OF _ _ lt] by (cases "rg_stats c (s, rg)") (auto simp: within_def)
qed

section \<open>A set whose footers tell the truth\<close>

lemma opened_set:
  assumes ok: "site_ok w wd" and o: "open_set (st_show w) (st_load w) files who = Inr fs"
  shows "\<exists>out. st_load w files = Some out \<and> (\<forall>s \<in> set (fs_srcs fs). Inr s \<in> set out)"
  using open_set_Inr[OF o] ok by (auto simp: site_ok_def)

lemma opened_footers:
  assumes ok: "site_ok w wd" "loads_footers w" and o: "open_set (st_show w) (st_load w) files who = Inr fs"
  shows "set_ok fs \<and> (\<forall>s \<in> set (fs_srcs fs). src_leaf s = leaf_map (src_md s) \<and> footer_ok (src_md s) \<and>
    columns_in_order (st_show w) (src_md s))"
  using opened_set[OF ok(1) o] ok(2) unfolding loads_footers_def set_ok_def by blast

lemma opened_types:
  assumes agr: "set_agrees shw fs" and lts: "fs_lts fs = map Inr lts" and s: "s \<in> set (fs_srcs fs)"
  shows "length (fst (ft_schema (src_md s))) = length lts \<and> length (fs_names fs) = length lts \<and>
    (\<forall>c < length lts. l_type_of shw (col_type s c) = Inr (lts ! c))"
proof -
  have n: "length (fs_names fs) = length lts" and sch: "same_schema shw (fs_names fs) (fs_lts fs) s"
    using agr lts s by (auto simp: set_agrees_def)
  have "l_type_of shw (col_type s c) = Inr (lts ! c)" if "c < length lts" for c
    using same_schema_nth(3)[OF sch, of c] n lts that by (simp add: col_type_def ok_of_def split: sum.splits)
  then show ?thesis
    using n sch by (simp add: same_schema_def Let_def)
qed

lemma raw_cells_within:
  assumes agr: "set_agrees shw fs" and lts: "fs_lts fs = map Inr lts" and s: "s \<in> set (fs_srcs fs)" "g < length (ft_rgs (src_md s))"
    and m: "columns_in_order shw (src_md s)" "src_leaf s = leaf_map (src_md s)" and fo: "footer_ok (src_md s)" and tru: "footer_true wd s"
    and c: "c < length lts" and raw: "raw_scan c 0 None (fs_srcs fs) = Some rt"
    and x: "x \<in> set (pay_cells (raw_image rt (lts ! c) (wd_chunk wd s g (the (leaf_at s c)))))"
  shows "(\<forall>mu. rt = RI64 mu \<longrightarrow> lts ! c \<in> {KJ, KP, KN} \<and> (\<exists>v. x = C64 v \<and>
      within NJ (slot64 (lts ! c) c False (s, ft_rgs (src_md s) ! g)) v (slot64 (lts ! c) c True (s, ft_rgs (src_md s) ! g)))) \<and>
    (rt = RI32 \<longrightarrow> lts ! c \<in> {KI, KD, KT} \<and> (\<exists>v. x = C32 v \<and>
      within NI (slot32 (lts ! c) c False (s, ft_rgs (src_md s) ! g)) v (slot32 (lts ! c) c True (s, ft_rgs (src_md s) ! g))))"
proof -
  let ?rg = "ft_rgs (src_md s) ! g"
  note ty = opened_types[OF agr lts s(1)]
  obtain l where l: "leaf_at s c = Some l" "raw_of (col_type s c) (ld_phys (leaf_of s l)) = Some rt"
    using raw_scan_agree[OF raw s(1)] by blast
  have lc: "l = c \<and> c < length (ft_roots (src_md s))"
    using leaf_is_column[OF m _ l(1)] ty by auto
  with l(1) have leaf: "the (leaf_at s c) = c" by simp
  have cc: "c < length (rg_cols ?rg)"
    using lc fo s(2) by (simp add: footer_ok_def)
  have t: "l_type_of shw (col_type s c) = Inr (lts ! c)"
    using ty c by blast
  have st: "cm_stats (rg_cols ?rg ! c) = Some st" if "rg_stats c (s, ?rg) = Some st" for st
    using that by (simp add: rg_stats_def)
  have b64: "bounds_values sv (packed (ck64 (wd_chunk wd s g c)))"
    if "rg_stats c (s, ?rg) = Some st" "st_values st = SInt64 sv" for st sv
    using tru s(2) cc st[OF that(1)] that(2) unfolding footer_true_def by blast
  have b32: "bounds_values sv (packed (ck32 (wd_chunk wd s g c)))"
    if "rg_stats c (s, ?rg) = Some st" "st_values st = SInt32 sv" for st sv
    using tru s(2) cc st[OF that(1)] that(2) unfolding footer_true_def by blast
  have "lts ! c \<in> {KJ, KP, KN} \<and> (\<exists>v. x = C64 v \<and>
      within NJ (slot64 (lts ! c) c False (s, ?rg)) v (slot64 (lts ! c) c True (s, ?rg)))" if mu: "rt = RI64 mu" for mu
  proof -
    have r: "raw_of (col_type s c) P_INT64 = Some (RI64 mu)" "lts ! c \<in> {KJ, KP, KN}"
      using raw_of_64[of "col_type s c" _ mu shw] l(2) t by (auto simp: mu)
    obtain v where v: "v \<in> set (ck64 (wd_chunk wd s g c))" "x = C64 (row_value signed_native NJ (epoch64 (lts ! c)) mu v)"
      using x by (auto simp: raw_image_def mu leaf epoch64_def)
    have "within NJ (slot64 (lts ! c) c False (s, ?rg)) (row_value signed_native NJ (epoch64 (lts ! c)) mu v) (slot64 (lts ! c) c True (s, ?rg))"
      by (rule values_within64[OF r(1) t r(2) v(1)]) (rule b64)
    then show ?thesis
      using v(2) r(2) by blast
  qed
  moreover have "lts ! c \<in> {KI, KD, KT} \<and> (\<exists>v. x = C32 v \<and>
      within NI (slot32 (lts ! c) c False (s, ?rg)) v (slot32 (lts ! c) c True (s, ?rg)))" if mu: "rt = RI32"
  proof -
    have r: "raw_of (col_type s c) P_INT32 = Some RI32" "lts ! c \<in> {KI, KD, KT}"
      using raw_of_32[of "col_type s c" _ shw] l(2) t by (auto simp: mu)
    obtain v where v: "v \<in> set (ck32 (wd_chunk wd s g c))" "x = C32 (row_value signed_native NI (epoch32 (lts ! c)) 1 v)"
      using x by (auto simp: raw_image_def mu leaf epoch32_def)
    have "within NI (slot32 (lts ! c) c False (s, ?rg)) (row_value signed_native NI (epoch32 (lts ! c)) 1 v) (slot32 (lts ! c) c True (s, ?rg))"
      by (rule values_within32[OF r(1) t r(2) v(1)]) (rule b32)
    then show ?thesis
      using v(2) r(2) by blast
  qed
  ultimately show ?thesis by blast
qed

lemma set_rgs_nth:
  assumes "set_ok fs" "g < length (flat_rgs fs)" "flat_rgs fs ! g = (k, i, rows)"
  shows "g < length (set_rgs fs) \<and> set_rgs fs ! g = (fs_srcs fs ! k, ft_rgs (src_md (fs_srcs fs ! k)) ! i) \<and>
    fs_srcs fs ! k \<in> set (fs_srcs fs) \<and> i < length (ft_rgs (src_md (fs_srcs fs ! k)))"
proof -
  have "(k, i, rows) \<in> set (flat_rgs fs)"
    using assms(2,3) nth_mem by metis
  then have "k < length (fs_srcs fs)" "i < length (src_rg_rows (fs_srcs fs ! k))"
    using flat_rgs_mem by blast+
  moreover have "set_rgs fs ! g = (fs_srcs fs ! k, ft_rgs (src_md (fs_srcs fs ! k)) ! i)" "g < length (set_rgs fs)"
    using assms(2,3) by (simp_all flip: flat_set_rgs[OF assms(1)])
  ultimately show ?thesis
    using assms(1) by (auto simp: set_ok_def)
qed

lemma group_within:
  assumes agr: "set_agrees shw fs" and sel: "select fs want who = Inr sl" and lts: "fs_lts fs = map Inr lts"
    and ft: "set_ok fs" "\<forall>s \<in> set (fs_srcs fs). src_leaf s = leaf_map (src_md s) \<and> footer_ok (src_md s) \<and>
      columns_in_order shw (src_md s)"
    and tru: "\<forall>s \<in> set (fs_srcs fs). footer_true wd s" and ktn: "ktn_ok ktn"
    and g: "g < length (flat_rgs fs)" and q: "q < length (sel_out sl)" and x: "x \<in> set (window_cells wd fs sl g (Suc g) q)"
  shows "let c = sel_out sl ! q; col = stats_col ktn fs c (lts ! c) in c < length lts \<and>
    (\<forall>mu. sel_raw sl ! q = Some (RI64 mu) \<longrightarrow> (\<exists>v. x = C64 v \<and> within NJ (at64 (stat_vec col 0) g) v (at64 (stat_vec col 1) g))) \<and>
    (sel_raw sl ! q = Some RI32 \<longrightarrow> (\<exists>v. x = C32 v \<and> within NI (at32 (stat_vec col 0) g) v (at32 (stat_vec col 1) g)))"
proof -
  obtain k i rows where fl: "flat_rgs fs ! g = (k, i, rows)"
    by (cases "flat_rgs fs ! g")
  let ?s = "fs_srcs fs ! k" and ?c = "sel_out sl ! q"
  note rg = set_rgs_nth[OF ft(1) g fl]
  have ok: "sel_ok fs sl"
    using sel by (simp add: select_Inr_iff)
  have c: "?c < length lts" "sel_lts sl ! q = lts ! ?c" "sel_raw sl ! q = raw_scan ?c 0 None (fs_srcs fs)"
  proof -
    have "?c < length (fs_names fs)" "fs_lts fs ! ?c = Inr (sel_lts sl ! q)"
      using ok q by (auto simp: sel_ok_def list_all_length)
    moreover have "length (fs_names fs) = length lts"
      using agr lts by (simp add: set_agrees_def)
    ultimately show "?c < length lts" "sel_lts sl ! q = lts ! ?c"
      by (simp_all add: lts)
    show "sel_raw sl ! q = raw_scan ?c 0 None (fs_srcs fs)"
      using ok q by (simp add: sel_ok_def)
  qed
  have cells: "x \<in> set (pay_cells (raw_image rt (lts ! ?c) (wd_chunk wd ?s i (the (leaf_at ?s ?c)))))" if "sel_raw sl ! q = Some rt" for rt
    using x that c(2) by (auto simp: window_cells_one[OF g fl] file_rows_def Let_def split: if_splits dest: in_set_takeD)
  have s: "?s \<in> set (fs_srcs fs)" "i < length (ft_rgs (src_md ?s))" "columns_in_order shw (src_md ?s)"
      "src_leaf ?s = leaf_map (src_md ?s)" "footer_ok (src_md ?s)" "footer_true wd ?s"
    using rg ft(2) tru by blast+
  have cw: "(\<forall>mu. rt = RI64 mu \<longrightarrow> lts ! ?c \<in> {KJ, KP, KN} \<and> (\<exists>v. x = C64 v \<and>
      within NJ (slot64 (lts ! ?c) ?c False (set_rgs fs ! g)) v (slot64 (lts ! ?c) ?c True (set_rgs fs ! g)))) \<and>
    (rt = RI32 \<longrightarrow> lts ! ?c \<in> {KI, KD, KT} \<and> (\<exists>v. x = C32 v \<and>
      within NI (slot32 (lts ! ?c) ?c False (set_rgs fs ! g)) v (slot32 (lts ! ?c) ?c True (set_rgs fs ! g))))"
    if "sel_raw sl ! q = Some rt" for rt
    using raw_cells_within[OF agr lts s(1,2,3,4,5,6) c(1) _ cells[OF that]] that c(3) rg by simp
  have glen: "g < length (set_rgs fs)"
    using rg by blast
  have "\<exists>v. x = C64 v \<and> within NJ (at64 (stat_vec (stats_col ktn fs ?c (lts ! ?c)) 0) g) v (at64 (stat_vec (stats_col ktn fs ?c (lts ! ?c)) 1) g)"
    if raw: "sel_raw sl ! q = Some (RI64 mu)" for mu
    using cw[OF raw] glen by (auto simp: stats_col_words(1)[OF ktn ft(1)])
  moreover have "\<exists>v. x = C32 v \<and> within NI (at32 (stat_vec (stats_col ktn fs ?c (lts ! ?c)) 0) g) v (at32 (stat_vec (stats_col ktn fs ?c (lts ! ?c)) 1) g)"
    if raw: "sel_raw sl ! q = Some RI32"
    using cw[OF raw] glen by (auto simp: stats_col_words(2)[OF ktn ft(1)])
  ultimately show ?thesis
    using c(1) unfolding Let_def by blast
qed

section \<open>The length and the type of a read column\<close>

lemma in_window_rows:
  "map (\<lambda>(f, i, rows). rows) (in_window a b k xs) =
    filter (\<lambda>r. 0 < sint r) (take (b - max a k) (drop (a - k) (map (\<lambda>(f, i, rows). rows) xs)))"
proof (induction xs arbitrary: k)
  case (Cons x xs)
  obtain f i rows where x: "x = (f, i, rows)"
    by (cases x)
  consider "k < a" | "a \<le> k" "k < b" | "b \<le> k" by linarith
  then show ?case
  proof cases
    case 1
    then have "a - k = Suc (a - Suc k)" "max a k = max a (Suc k)" by simp_all
    then show ?thesis
      using Cons.IH[of "Suc k"] 1 by (simp add: x)
  next
    case 2
    then have "b - max a k = Suc (b - max a (Suc k))" "a - k = 0" "a - Suc k = 0" by simp_all
    then show ?thesis
      using Cons.IH[of "Suc k"] 2 by (simp add: x)
  next
    case 3
    then show ?thesis
      using in_window_past[OF 3, of a] by simp
  qed
qed simp

lemma true_total_rows: "true_total xs = sum_list (map unat (map (\<lambda>(f, i, rows). rows) xs))"
  by (auto simp: true_total_def o_def split_def intro!: arg_cong[of _ _ sum_list])

lemma set_rows_concat: "set_rows fs = sum_list (concat (map src_rg_rows (fs_srcs fs)))"
proof -
  have "sum_list (map sum_list xss) = sum_list (concat xss)" for xss :: "i64 list list"
    by (induction xss) simp_all
  from this[of "map src_rg_rows (fs_srcs fs)"] show ?thesis
    by (simp add: set_rows_def sum_i64_def[abs_def] o_def)
qed

lemma sum_words: "sum_list (map unat xs) < 2 ^ LENGTH('a) \<Longrightarrow> unat (sum_list xs :: 'a::len word) = sum_list (map unat xs)"
proof -
  have "of_nat (sum_list (map unat xs)) = sum_list xs" for xs :: "'a word list"
    by (induction xs) simp_all
  then show "sum_list (map unat xs) < 2 ^ LENGTH('a) \<Longrightarrow> unat (sum_list xs :: 'a word) = sum_list (map unat xs)"
    by (metis unat_of_nat_small)
qed

lemma sum_positive: "\<forall>r \<in> set xs. 0 \<le> sint r \<Longrightarrow> sum_list (map unat (filter (\<lambda>r. 0 < sint r) xs)) = sum_list (map unat xs)"
proof (induction xs)
  case (Cons x xs)
  have "x = 0" if "\<not> 0 < sint x"
    using that Cons.prems by (metis list.set_intros(1) order_le_less signed_eq_0_iff)
  then show ?case
    using Cons by auto
qed simp

lemma read_window_cols:
  assumes "world_ok so h wd" "kt_ok ktn" "set_agrees shw fs" "select fs want who = Inr sl"
    and small: "true_total (flat_rgs fs) < 2 ^ 64"
    and run: "read_set so h ps ktn nthreads fs sl g0 g1 False who (Inr ans)"
  shows "\<exists>cols. ans = RdTable (map (\<lambda>c. h_intern h (bytes_of (fs_names fs ! c))) (sel_out sl)) cols \<and>
    length cols = length (sel_out sl) \<and> (\<forall>q < length (sel_out sl).
      payload_len (cols ! q) = true_total (in_window g0 g1 0 (flat_rgs fs)) \<and> payload_for (sel_lts sl ! q) (cols ! q))"
proof -
  obtain rgs tw where w: "window fs g0 g1 = (rgs, tw)"
    by fastforce
  have few: "true_total (in_window g0 g1 0 (flat_rgs fs)) < 2 ^ 64"
    using small true_total_window by (rule le_less_trans[rotated])
  have plans: "small_plan cd" if "plans h ps fs rgs sl False who = Inr cds" "q < length cds" "cds ! q = Some cd" for cds q cd
    using that by (auto simp: plans_def)
  obtain st where st: "ans = answer h fs sl False st" "length (fst st) = length (sel_out sl)"
      "\<forall>q < length (sel_out sl). payload_len (fst st ! q) = unat tw \<and> payload_for (sel_lts sl ! q) (fst st ! q)"
    using read_rows[OF assms(1-4) w few _ run] plans by blast
  have "unat tw = true_total (in_window g0 g1 0 (flat_rgs fs))"
    using window_tiles[OF w few] by blast
  then show ?thesis
    using st by (cases st) (simp add: answer_def Let_def)
qed

section \<open>Properties\<close>

definition stat64 :: "kval \<Rightarrow> nat \<Rightarrow> nat \<Rightarrow> nat \<Rightarrow> i64" where
  "stat64 d c i g = at64 (stat_vec (elt (dict_val d ''stats'') c) i) g"

definition stat32 :: "kval \<Rightarrow> nat \<Rightarrow> nat \<Rightarrow> nat \<Rightarrow> i32" where
  "stat32 d c i g = at32 (stat_vec (elt (dict_val d ''stats'') c) i) g"


lemma ex_flat: "flat_rgs sample_set = [(0, 0, 2)]"
  by (simp add: flat_rgs_def sample_set_def sample_src_def)

lemma ex_footers: "loads_footers ex_site" "footers_true ex_site sample_world"
proof -
  have "columns_in_order shw (src_md sample_src)" "src_leaf sample_src = leaf_map (src_md sample_src)"
    "footer_ok (src_md sample_src)" for shw :: "data_type \<Rightarrow> string"
    by (simp_all add: columns_in_order_def sample_src_def leaf_map_def leaf_step_def footer_ok_def)
  then show "loads_footers ex_site"
    by (auto simp: loads_footers_def ex_site_def) (simp add: sample_src_def)
  have "footer_true sample_world sample_src"
    by (auto simp: footer_true_def sample_src_def sample_world_def sample_rows_def bounds_values_def pick_def)
  then show "footers_true ex_site sample_world"
    by (auto simp: footers_true_def ex_site_def)
qed

lemma ex_meta: "\<exists>d. pq_meta ex_site (KSym ''t'') = Inr d \<and> dict_val d ''stats'' = stats_of ex_ktn sample_set [KP]"
proof -
  have "\<exists>d. pq_meta ex_site (KSym ''t'') = Inr d"
    by (simp add: pq_meta_def ex_files ex_open dict_def Let_def split_def) (simp add: sample_set_def)
  then obtain d where d: "pq_meta ex_site (KSym ''t'') = Inr d" ..
  obtain lts where lts: "fs_lts sample_set = map Inr lts" and st: "dict_val d ''stats'' = stats_of (st_vec ex_site) sample_set lts"
    using pq_meta_dict[OF d] by (auto simp: ex_files ex_open)
  have "map Inr lts = [Inr KP :: int result]"
    using lts by (simp add: sample_set_def)
  then have "lts = [KP]"
    by (auto simp: map_eq_Cons_conv)
  with st have "dict_val d ''stats'' = stats_of ex_ktn sample_set [KP]"
    by (simp add: ex_site_def)
  with d show ?thesis by blast
qed


text \<open>C26
  The dict of \<^verbatim>\<open>pq_meta\<close> predicts the answer of \<^verbatim>\<open>pq_rg\<close>: a column of the
  answer is named by its entry of \<^verbatim>\<open>cols\<close>, its payload is of the L type whose letter
  \<^verbatim>\<open>types\<close> gives, and it has one element per row of the row groups read, as
  \<^verbatim>\<open>rg\<close> counts them. Over all row groups that is \<^verbatim>\<open>rows\<close>, unless a footer
  declares a negative count, which the reader skips.
\<close>

theorem meta_predicts_read:
  assumes ok: "site_ok w wd" "rows_fit w f"
    and m: "pq_meta w f = Inr d" and run: "pq_rg w (rg_arg f c lo hi) (Inr ans)"
  shows "\<exists>names tys rgs n out cols. dict_val d ''cols'' = KSyms names \<and> dict_val d ''types'' = KVec8 KC tys \<and>
    dict_val d ''rg'' = KList (map (KVec64 KJ) rgs) \<and> dict_val d ''rows'' = KAtom KJ n \<and>
    ans = RdTable (map (\<lambda>i. h_intern (st_host w) (bytes_of (names ! i))) out) cols \<and> length cols = length out \<and>
    length tys = length names \<and>
    (\<forall>q < length out. out ! q < length names \<and>
       (\<exists>lt. of_char (type_char lt) = tys ! (out ! q) \<and> payload_for lt (cols ! q)) \<and>
       payload_len (cols ! q) =
         sum_list (map unat (filter (\<lambda>r. 0 < sint r) (take (unat hi - unat lo) (drop (unat lo) (concat rgs))))) \<and>
       ((\<forall>r \<in> set (concat rgs). 0 \<le> sint r) \<and> unat lo = 0 \<and> unat hi = length (concat rgs) \<longrightarrow> payload_len (cols ! q) = unat n))"
proof -
  obtain files fs want sl where r: "files_of f ''pq_rg'' = Inr files"
      "open_set (st_show w) (st_load w) files ''pq_rg'' = Inr fs" "select fs want ''pq_rg'' = Inr sl"
      "true_total (flat_rgs fs) < 2 ^ 64"
      "read_set (st_store w) (st_host w) (st_pages w) (st_new w) (st_threads w) fs sl (unat lo) (unat hi) False ''pq_rg'' (Inr ans)"
    using pq_rg_run[OF run ok(2)] by blast
  note agr = opened_agrees[OF ok(1) r(2)]
  obtain lts where lts: "fs_lts fs = map Inr lts" and d: "dict_val d ''cols'' = KSyms (fs_names fs)"
      "dict_val d ''types'' = KVec8 KC (bytes_of (map type_char lts))" "dict_val d ''rows'' = KAtom KJ (set_rows fs)"
      "dict_val d ''rg'' = KList (map (\<lambda>s. KVec64 KJ (src_rg_rows s)) (fs_srcs fs))"
    using pq_meta_dict[OF m] r(1,2) by auto
  let ?R = "concat (map src_rg_rows (fs_srcs fs))"
  obtain cols where cols: "ans = RdTable (map (\<lambda>c. h_intern (st_host w) (bytes_of (fs_names fs ! c))) (sel_out sl)) cols"
      "length cols = length (sel_out sl)" "\<forall>q < length (sel_out sl).
        payload_len (cols ! q) = true_total (in_window (unat lo) (unat hi) 0 (flat_rgs fs)) \<and> payload_for (sel_lts sl ! q) (cols ! q)"
    using read_window_cols[OF _ _ agr r(3,4,5)] ok(1) unfolding site_ok_def by blast
  have tot: "true_total (in_window (unat lo) (unat hi) 0 (flat_rgs fs)) =
      sum_list (map unat (filter (\<lambda>r. 0 < sint r) (take (unat hi - unat lo) (drop (unat lo) ?R))))"
    unfolding true_total_rows in_window_rows flat_rows by simp
  have sel: "sel_out sl ! q < length (fs_names fs) \<and> fs_lts fs ! (sel_out sl ! q) = Inr (sel_lts sl ! q)" if "q < length (sel_out sl)" for q
    using r(3) that by (auto simp: select_Inr_iff sel_ok_def list_all_length)
  have len: "length (fs_names fs) = length lts"
    using agr lts by (simp add: set_agrees_def)
  have all: "sum_list (map unat (filter (\<lambda>r. 0 < sint r) ?R)) = unat (set_rows fs)" if "\<forall>r \<in> set ?R. 0 \<le> sint r"
    using sum_positive[OF that] sum_words[of ?R] r(4) unfolding true_total_rows flat_rows set_rows_concat by simp
  show ?thesis
  proof (intro exI conjI allI impI)
    show "ans = RdTable (map (\<lambda>i. h_intern (st_host w) (bytes_of (fs_names fs ! i))) (sel_out sl)) cols"
      by (rule cols(1))
    show "dict_val d ''rg'' = KList (map (KVec64 KJ) (map src_rg_rows (fs_srcs fs)))"
      by (simp add: d(4))
    fix q
    assume q: "q < length (sel_out sl)"
    then show "sel_out sl ! q < length (fs_names fs)" "payload_for (sel_lts sl ! q) (cols ! q)"
      using sel cols(3) by blast+
    show "payload_len (cols ! q) =
        sum_list (map unat (filter (\<lambda>r. 0 < sint r) (take (unat hi - unat lo) (drop (unat lo) ?R))))"
      using cols(3) q tot by simp
    show "of_char (type_char (sel_lts sl ! q)) = bytes_of (map type_char lts) ! (sel_out sl ! q)"
      using sel[OF q] len lts by (auto simp: bytes_of_def)
    assume "(\<forall>r \<in> set ?R. 0 \<le> sint r) \<and> unat lo = 0 \<and> unat hi = length ?R"
    then show "payload_len (cols ! q) = unat (set_rows fs)"
      using cols(3) q tot all by simp
  qed (use d cols(2) len in simp_all)
qed

theorem meta_predicts_read_witness:
  "\<exists>d. pq_meta ex_site (KSym ''t'') = Inr d \<and> dict_val d ''types'' = KVec8 KC [112] \<and> dict_val d ''rows'' = KAtom KJ 2 \<and>
    payload_for KP (Pay64 [1000, NJ]) \<and> payload_len (Pay64 [1000, NJ]) = unat (2 :: i64)"
proof -
  obtain d where d: "pq_meta ex_site (KSym ''t'') = Inr d"
    using ex_meta by blast
  obtain lts where lts: "fs_lts sample_set = map Inr lts" and v: "dict_val d ''types'' = KVec8 KC (bytes_of (map type_char lts))"
      "dict_val d ''rows'' = KAtom KJ (set_rows sample_set)" "dict_val d ''rg'' = KList [KVec64 KJ [2]]"
    using pq_meta_dict[OF d] by (auto simp: ex_files ex_open) (simp add: sample_set_def sample_src_def)
  have "map Inr lts = [Inr KP :: int result]"
    using lts by (simp add: sample_set_def)
  then have "lts = [KP]"
    by (auto simp: map_eq_Cons_conv)
  then have ty: "dict_val d ''types'' = KVec8 KC [112]"
    using v(1) by (simp add: bytes_of_def type_char_def)
  have rw: "dict_val d ''rows'' = KAtom KJ 2"
    using v(2) by (simp add: set_rows_def sum_i64_def sample_set_def sample_src_def)
  obtain rgs n out cols where p: "dict_val d ''rg'' = KList (map (KVec64 KJ) rgs)" "dict_val d ''rows'' = KAtom KJ n"
      "RdTable [number_intern [116]] [Pay64 [1000, NJ]] = RdTable out cols" "length cols = length out"
      "(\<forall>r \<in> set (concat rgs). 0 \<le> sint r) \<and> unat (0 :: i64) = 0 \<and> unat (1 :: i64) = length (concat rgs) \<longrightarrow>
        payload_len (cols ! 0) = unat n"
    using meta_predicts_read[OF ex_site_ok ex_fit d ex_rg] by fastforce
  have "map (KVec64 KJ) rgs = [KVec64 KJ [2]]"
    using p(1) v(3) by simp
  then have "rgs = [[2]]"
    by (auto simp: map_eq_Cons_conv)
  then have "payload_len (Pay64 [1000, NJ]) = unat (2 :: i64)"
    using p(2,3,5) rw by simp
  then show ?thesis
    using d ty rw by (auto simp: payload_for_def)
qed

end
