(* ===== verification/StreamRead.thy ===== *)
theory StreamRead
  imports Predict
begin

text \<open>
  \<^verbatim>\<open>pq_stream\<close> beside \<^verbatim>\<open>pq_read\<close>: the stream takes every column through Arrow, the
  read decodes the fixed-width ones in place, and both come out the same.
\<close>

section \<open>An array's rows\<close>

definition opt_rows :: "'a list \<Rightarrow> null_buf option \<Rightarrow> 'a option list" where
  "opt_rows xs nb = map (\<lambda>i. if (case nb of None \<Rightarrow> True | Some b \<Rightarrow> nb_valid b i) then Some (xs ! i) else None) [0..<length xs]"

fun arr_rows :: "arr \<Rightarrow> chunk_rows" where
  "arr_rows (Arr32 dt xs nb) = \<lparr>ck32 = opt_rows xs nb, ck64 = []\<rparr>"
| "arr_rows (Arr64 dt xs nb) = \<lparr>ck32 = [], ck64 = opt_rows xs nb\<rparr>"
| "arr_rows a = \<lparr>ck32 = [], ck64 = []\<rparr>"

definition plain_arr :: "raw \<Rightarrow> data_type \<Rightarrow> arr \<Rightarrow> bool" where
  "plain_arr rt dt a \<longleftrightarrow>
     (if rt = RI32 \<or> rt = RF32 then \<exists>xs nb. a = Arr32 dt xs nb else \<exists>xs nb. a = Arr64 dt xs nb)"

text \<open>
  What the Parquet crate's two readers owe each other: the batches of a column that can be
  decoded in place have the column's Arrow type, and hold the rows its chunk holds.
\<close>

definition readers_agree :: "'st store \<Rightarrow> 'st world \<Rightarrow> bool" where
  "readers_agree so wd \<longleftrightarrow> (\<forall>s g msk xs i l rt.
     so_batches so s g msk = Inr (map Inr xs) \<longrightarrow> i < length msk \<longrightarrow> leaf_at s (msk ! i) = Some l \<longrightarrow>
     ld_max_rep (leaf_of s l) = 0 \<longrightarrow> raw_of (col_type s (msk ! i)) (ld_phys (leaf_of s l)) = Some rt \<longrightarrow>
     (\<forall>x \<in> set xs. plain_arr rt (col_type s (msk ! i)) (fst x ! i)) \<and>
     (if rt = RI32 \<or> rt = RF32 then concat (map (\<lambda>x. ck32 (arr_rows (fst x ! i))) xs) = ck32 (wd_chunk wd s g l)
      else concat (map (\<lambda>x. ck64 (arr_rows (fst x ! i))) xs) = ck64 (wd_chunk wd s g l)))"

text \<open>Arrow's cast between temporal units, in its safe mode: a value that overflows becomes null.\<close>

definition cast_scales :: "host \<Rightarrow> bool" where
  "cast_scales h \<longleftrightarrow> (\<forall>u tz xs nb ys nb'.
     (h_cast h (Arr64 (Timestamp u tz) xs nb) (Timestamp Nanosecond None) = Inr (Arr64 (Timestamp Nanosecond None) ys nb') \<longrightarrow>
        safe_cast signed_native (ns_per u) (opt_rows xs nb) ys nb') \<and>
     (h_cast h (Arr64 (Duration u) xs nb) (Duration Nanosecond) = Inr (Arr64 (Duration Nanosecond) ys nb') \<longrightarrow>
        safe_cast signed_native (ns_per u) (opt_rows xs nb) ys nb'))"

section \<open>The image of an array is that of its rows\<close>

lemma length_opt_rows [simp]: "length (opt_rows xs nb) = length xs"
  by (simp add: opt_rows_def)

lemma scaled_image:
  assumes "safe_cast ops mul rows ys nb"
  shows "prim_image ops ys nb nullv sh = map (row_value ops nullv sh mul) rows"
proof (rule nth_equalityI)
  have n: "length ys = length rows"
    using assms by (simp add: safe_cast_def)
  then show "length (prim_image ops ys nb nullv sh) = length (map (row_value ops nullv sh mul) rows)"
    by (simp add: prim_image_def)
  fix i
  assume "i < length (prim_image ops ys nb nullv sh)"
  then have "i < length rows"
    using n by (simp add: prim_image_def)
  then show "prim_image ops ys nb nullv sh ! i = map (row_value ops nullv sh mul) rows ! i"
    using prim_row_safe_cast[OF assms] n by (simp add: prim_image_def)
qed

lemma plain_image:
  assumes "nulls_ok nb (length xs)"
  shows "prim_image signed_native xs nb nullv sh = map (row_value signed_native nullv sh 1) (opt_rows xs nb)"
proof (rule scaled_image)
  show "safe_cast signed_native 1 (opt_rows xs nb) xs nb"
    using assms by (auto simp: safe_cast_def nulls_ok_def opt_rows_def signed_native_def split: option.splits)
qed

lemma float_rows: "row_value signed_native nullv 0 1 = row_value (float_native k) nullv 0 k"
  by (auto simp: fun_eq_iff row_value_def patch_shift_def signed_native_def float_native_def Let_def split: option.splits)

lemma image_raw:
  assumes rt: "raw_of dt pt = Some rt" "l_type_of shw dt = Inr lt" and a: "plain_arr rt dt a" "arr_ok a"
    and h: "cast_scales h" and img: "image (h_intern h) (h_deref h) (h_cast h) lt a = Inr v"
  shows "v = raw_image rt lt (arr_rows a)"
proof (cases dt)
  case (Timestamp u tz)
  then have t: "rt = RI64 (ns_per u)" "lt = KP"
    using rt by (auto simp: raw_of_def split: if_splits)
  obtain xs nb where xs: "a = Arr64 (Timestamp u tz) xs nb"
    using a(1) t Timestamp by (auto simp: plain_arr_def)
  show ?thesis
  proof (cases "dt = Timestamp Nanosecond None")
    case True
    then show ?thesis
      using img a(2) Timestamp unfolding t xs
      by (simp add: image_def to_type_def image64_def raw_image_def plain_image)
  next
    case False
    then obtain b where b: "h_cast h a (Timestamp Nanosecond None) = Inr b" "image64 (Timestamp Nanosecond None) b NJ NS2000 = Inr v"
      using img Timestamp unfolding t xs by (auto simp: image_def to_type_def rbind_Inr_iff ctx_Inr_iff)
    then obtain ys nb' where ys: "b = Arr64 (Timestamp Nanosecond None) ys nb'"
        "v = Pay64 (prim_image signed_native ys nb' NJ NS2000)"
      by (auto simp: image64_def split: arr.splits if_splits)
    have "safe_cast signed_native (ns_per u) (opt_rows xs nb) ys nb'"
      using h b(1) unfolding cast_scales_def xs ys(1) by blast
    from scaled_image[OF this] show ?thesis
      by (simp add: ys(2) raw_image_def t xs)
  qed
next
  case (Duration u)
  then have t: "rt = RI64 (ns_per u)" "lt = KN"
    using rt by (auto simp: raw_of_def split: if_splits)
  obtain xs nb where xs: "a = Arr64 (Duration u) xs nb"
    using a(1) t Duration by (auto simp: plain_arr_def)
  show ?thesis
  proof (cases "dt = Duration Nanosecond")
    case True
    then show ?thesis
      using img a(2) Duration unfolding t xs
      by (simp add: image_def to_type_def image64_def raw_image_def plain_image)
  next
    case False
    then obtain b where b: "h_cast h a (Duration Nanosecond) = Inr b" "image64 (Duration Nanosecond) b NJ 0 = Inr v"
      using img Duration unfolding t xs by (auto simp: image_def to_type_def rbind_Inr_iff ctx_Inr_iff)
    then obtain ys nb' where ys: "b = Arr64 (Duration Nanosecond) ys nb'"
        "v = Pay64 (prim_image signed_native ys nb' NJ 0)"
      by (auto simp: image64_def split: arr.splits if_splits)
    have "safe_cast signed_native (ns_per u) (opt_rows xs nb) ys nb'"
      using h b(1) unfolding cast_scales_def xs ys(1) by blast
    from scaled_image[OF this] show ?thesis
      by (simp add: ys(2) raw_image_def t xs)
  qed
qed (use rt a img in \<open>auto simp: raw_of_def plain_arr_def image_def image32_def image64_def raw_image_def plain_image
    float_rows[of F32_NAN F32_ONE] float_rows[of F64_NAN F64_ONE] split: if_splits time_unit.splits\<close>)


lemma raw_cells_concat:
  "concat (map (\<lambda>x. pay_cells (raw_image rt lt (f x))) xs) =
     pay_cells (raw_image rt lt \<lparr>ck32 = concat (map (\<lambda>x. ck32 (f x)) xs), ck64 = concat (map (\<lambda>x. ck64 (f x)) xs)\<rparr>)"
  by (cases rt) (simp_all add: raw_image_def map_concat o_def)

lemma raw_image_part:
  "(if rt = RI32 \<or> rt = RF32 then ck32 a = ck32 b else ck64 a = ck64 b) \<Longrightarrow> raw_image rt lt a = raw_image rt lt b"
  by (cases rt) (simp_all add: raw_image_def)

section \<open>A row group on either path\<close>

lemma group_both:
  assumes w: "world_batches h wd s g msk xs" and bs: "so_batches so s g msk = Inr (map Inr xs)"
    and ra: "readers_agree so wd" "cast_scales h"
    and i: "i < length msk" "leaf_at s (msk ! i) = Some l" "ld_max_rep (leaf_of s l) = 0"
      "raw_of (col_type s (msk ! i)) (ld_phys (leaf_of s l)) = Some rt" "l_type_of shw (col_type s (msk ! i)) = Inr lt"
    and im: "\<forall>x \<in> set xs. imaged h lt (fst x ! i) (snd x)"
  shows "wd_acol wd s g (msk ! i) lt = pay_cells (raw_image rt lt (wd_chunk wd s g l)) \<and>
    length (wd_acol wd s g (msk ! i) lt) \<le> unat (src_rg_rows s ! g)"
proof -
  let ?img = "\<lambda>x. image (h_intern h) (h_deref h) (h_cast h) lt (fst x ! i)"
  let ?raw = "\<lambda>x. raw_image rt lt (arr_rows (fst x ! i))"
  have agr: "\<forall>x \<in> set xs. plain_arr rt (col_type s (msk ! i)) (fst x ! i)"
      "if rt = RI32 \<or> rt = RF32 then concat (map (\<lambda>x. ck32 (arr_rows (fst x ! i))) xs) = ck32 (wd_chunk wd s g l)
       else concat (map (\<lambda>x. ck64 (arr_rows (fst x ! i))) xs) = ck64 (wd_chunk wd s g l)"
    using ra(1) bs i unfolding readers_agree_def by blast+
  have one: "?img x = Inr (?raw x) \<and> payload_len (?raw x) = snd x" if x: "x \<in> set xs" for x
  proof -
    obtain v where v: "?img x = Inr v" "payload_len v = snd x"
      using im x by (auto simp: imaged_def)
    have "arr_ok (fst x ! i)"
      using w x i(1) unfolding world_batches_def by fastforce
    from image_raw[OF i(4,5) bspec[OF agr(1) x] this ra(2) v(1)] v show ?thesis
      by simp
  qed
  have "mapR ?img xs = Inr (map ?raw xs)"
    using one by (intro mapR_total) simp
  moreover have "(\<lambda>(b, n :: nat). image (h_intern h) (h_deref h) (h_cast h) lt (b ! i)) = ?img"
    by (rule ext) (simp add: case_prod_beta)
  ultimately have "mapR (\<lambda>(b, n). image (h_intern h) (h_deref h) (h_cast h) lt (b ! i)) xs = Inr (map ?raw xs)"
    by (simp only:)
  then have a: "concat (map pay_cells (map ?raw xs)) = wd_acol wd s g (msk ! i) lt"
    using w i(1) unfolding world_batches_def by blast
  then have "wd_acol wd s g (msk ! i) lt = concat (map (\<lambda>x. pay_cells (?raw x)) xs)"
    by (simp add: o_def)
  also have "\<dots> = pay_cells (raw_image rt lt (wd_chunk wd s g l))"
    unfolding raw_cells_concat by (rule arg_cong[of _ _ pay_cells], rule raw_image_part) (use agr(2) in simp)
  finally have cells: "wd_acol wd s g (msk ! i) lt = pay_cells (raw_image rt lt (wd_chunk wd s g l))" .
  have "map (length \<circ> pay_cells \<circ> ?raw) xs = map snd xs"
    using one by (intro map_cong refl) simp
  then have "length (wd_acol wd s g (msk ! i) lt) = sum_list (map snd xs)"
    unfolding a[symmetric] length_concat map_map by (simp only: o_assoc)
  then show ?thesis
    using cells w by (simp add: world_batches_def)
qed

section \<open>One file on either path\<close>

lemma concat_skip: "(\<And>x. x \<in> set xs \<Longrightarrow> \<not> P x \<Longrightarrow> F x = []) \<Longrightarrow> concat (map F (filter P xs)) = concat (map F xs)"
  by (induction xs) auto

lemma in_window_whole: "k + length xs \<le> n \<Longrightarrow> in_window 0 n k xs = filter (\<lambda>(f, i, rows). 0 < sint rows) xs"
proof (induction xs arbitrary: k)
  case (Cons x xs)
  obtain f i rows where x: "x = (f, i, rows)"
    by (cases x)
  show ?case
    using Cons.IH[of "Suc k"] Cons.prems by (simp add: x)
qed simp

lemma flat_single: "fs_srcs fs = [s] \<Longrightarrow> flat_rgs fs = map (\<lambda>g. (0, g, src_rg_rows s ! g)) [0..<length (src_rg_rows s)]"
  by (rule nth_equalityI) (simp_all add: flat_rgs_def nth_enumerate_eq)

lemma group_cells:
  assumes w: "world_ok so h wd" and ra: "readers_agree so wd" "cast_scales h"
    and fs: "fs_srcs fs = [s]" "set_agrees shw fs" "fs_lts fs = map Inr lts"
    and sl: "select fs None who = Inr sl" and c: "c < length lts"
    and bs: "so_batches so s g [0..<length lts] = Inr (map Inr xs)"
    and im: "\<forall>x \<in> set xs. \<forall>c < length lts. imaged h (lts ! c) (fst x ! c) (snd x)"
    and r: "r = src_rg_rows s ! g"
  shows "file_rows wd fs sl c 0 g (unat r) = wd_acol wd s g c (lts ! c) \<and> length (wd_acol wd s g c (lts ! c)) \<le> unat r"
proof -
  have n: "length (fs_names fs) = length lts"
    using fs(2,3) by (simp add: set_agrees_def)
  have out: "sel_out sl = [0..<length lts]" and ok: "sel_ok fs sl"
    using sl by (auto simp: select_Inr_iff resolve_def n)
  have lt: "sel_lts sl ! c = lts ! c" and raw: "sel_raw sl ! c = raw_scan c 0 None [s]"
    using ok c fs(1,3) by (auto simp: sel_ok_def out nth_append simp del: raw_scan.simps)
  have wb: "world_batches h wd s g [0..<length lts] xs"
    using w bs by (simp add: world_ok_def)
  have few: "length (wd_acol wd s g c (lts ! c)) \<le> unat r"
    using batches_cells[OF wb c] im c wb by (auto simp: world_batches_def r)
  show ?thesis
  proof (cases "raw_scan c 0 None [s]")
    case None
    then show ?thesis
      using few c fs(1) by (simp add: file_rows_def raw lt out Let_def del: raw_scan.simps)
  next
    case (Some rt)
    obtain l where l: "leaf_at s c = Some l" "ld_max_rep (leaf_of s l) = 0" "raw_of (col_type s c) (ld_phys (leaf_of s l)) = Some rt"
      using raw_scan_agree[OF Some, of s] by auto
    have "l_type_of shw (col_type s c) = Inr (lts ! c)"
      using opened_types[OF fs(2,3), of s] fs(1) c by simp
    then have "wd_acol wd s g c (lts ! c) = pay_cells (raw_image rt (lts ! c) (wd_chunk wd s g l))"
      using group_both[OF wb bs ra, of c l rt shw "lts ! c"] c l im by simp
    then show ?thesis
      using few c fs(1) l(1) by (simp add: file_rows_def raw lt out Some Let_def del: raw_scan.simps)
  qed
qed

lemma window_stream:
  assumes w: "world_ok so h wd" and ra: "readers_agree so wd" "cast_scales h"
    and fs: "fs_srcs fs = [s]" "set_agrees shw fs" "fs_lts fs = map Inr lts"
    and sl: "select fs None who = Inr sl" and c: "c < length lts"
    and bs: "\<forall>g < length (src_rg_rows s). \<exists>xs. so_batches so s g [0..<length lts] = Inr (map Inr xs) \<and>
       (\<forall>x \<in> set xs. \<forall>c < length lts. imaged h (lts ! c) (fst x ! c) (snd x))"
    and pos: "\<forall>r \<in> set (src_rg_rows s). 0 \<le> sint r"
  shows "window_cells wd fs sl 0 (n_rg fs) c = stream_cells wd s lts c (length (src_rg_rows s)) \<and>
    length (stream_cells wd s lts c (length (src_rg_rows s))) \<le> true_total (flat_rgs fs)"
proof -
  let ?n = "length (src_rg_rows s)" and ?r = "\<lambda>g. src_rg_rows s ! g"
  have grp: "file_rows wd fs sl c 0 g (unat (?r g)) = wd_acol wd s g c (lts ! c)"
      "length (wd_acol wd s g c (lts ! c)) \<le> unat (?r g)" if "g < ?n" for g
    using group_cells[OF w ra fs sl c _ _ refl] bs that by blast+
  have zero: "file_rows wd fs sl c f g (unat r) = []"
    if m: "(f, g, r) \<in> set (flat_rgs fs)" and z: "\<not> 0 < sint r" for f g r
  proof -
    have g: "f = 0" "g < ?n" "r = ?r g"
      using m by (auto simp: flat_single[OF fs(1)])
    then have "0 \<le> sint r"
      using pos by simp
    with z have "r = 0"
      by (metis order_le_less signed_eq_0_iff)
    then show ?thesis
      using grp[OF g(2)] g by simp
  qed
  have "window_cells wd fs sl 0 (n_rg fs) c = concat (map (\<lambda>(f, g, rows). file_rows wd fs sl c f g (unat rows))
      (filter (\<lambda>(f, i, rows). 0 < sint rows) (flat_rgs fs)))"
    using in_window_whole[of 0 "flat_rgs fs" "n_rg fs"] fs(1)
    by (simp add: window_cells_def n_rg_def flat_single[OF fs(1)])
  also have "\<dots> = concat (map (\<lambda>(f, g, rows). file_rows wd fs sl c f g (unat rows)) (flat_rgs fs))"
    by (rule concat_skip) (use zero in auto)
  also have "\<dots> = stream_cells wd s lts c ?n"
    unfolding flat_single[OF fs(1)] stream_cells_def map_map by (intro arg_cong[of _ _ concat] map_cong refl) (simp add: grp(1))
  finally have a: "window_cells wd fs sl 0 (n_rg fs) c = stream_cells wd s lts c ?n" .
  have "length (stream_cells wd s lts c ?n) = sum_list (map (\<lambda>g. length (wd_acol wd s g c (lts ! c))) [0..<?n])"
    by (simp add: stream_cells_def length_concat o_def)
  also have "\<dots> \<le> sum_list (map (\<lambda>g. unat (?r g)) [0..<?n])"
    by (rule sum_list_mono) (simp add: grp(2))
  also have "\<dots> = true_total (flat_rgs fs)"
    by (simp add: true_total_def flat_single[OF fs(1)] o_def)
  finally show ?thesis
    using a by blast
qed

section \<open>The two entry points\<close>

text \<open>
  A file whose column names make a splay (a column may be called like the manifest, see
  \<open>dot_d_column_replaces_manifest\<close>) and whose row counts are no negative numbers and do not wrap.
\<close>

definition splayable :: "'st site \<Rightarrow> string \<Rightarrow> bool" where
  "splayable w p \<longleftrightarrow> (\<forall>fs. open_set (st_show w) (st_load w) [(p, p)] ''pq_stream'' = Inr fs \<longrightarrow>
     distinct (''.d'' # fs_names fs) \<and> length (fs_names fs) < 2 ^ 31 \<and>
     (\<forall>s \<in> set (fs_srcs fs). \<forall>r \<in> set (src_rg_rows s). 0 \<le> sint r) \<and> true_total (flat_rgs fs) < 2 ^ 63)"

definition whole_file :: "string \<Rightarrow> read_req" where
  "whole_file p = \<lparr>rq_files = [(p, p)], rq_want = None, rq_codes = False\<rparr>"

lemma sum_i64_nat: "sum_i64 xs = of_nat (sum_list (map unat xs))"
  unfolding sum_i64_def by (induction xs) simp_all

lemma stream_run:
  assumes run: "pq_stream w io cs os pid n parts x fsys = (d, Inr k)" and x: "stream_args x = Inr (p, dst)"
  shows "\<exists>fs lts fls tot. open_set (st_show w) (st_load w) [(p, p)] ''pq_stream'' = Inr fs \<and> k = KAtom KJ tot \<and>
    stream_checks fs dst fsys = Inr (lts, trim_end CHR ''/'' dst) \<and>
    stream_dir (st_store w) io (st_host w) (st_new w) cs (hd (fs_srcs fs)) (fs_names fs) lts = Inr (fls, tot) \<and>
    last d (trim_end CHR ''/'' dst) = Some (NDir fls)"
proof -
  obtain fs where fs: "open_set (st_show w) (st_load w) [(p, p)] ''pq_stream'' = Inr fs"
    using run x by (cases "open_set (st_show w) (st_load w) [(p, p)] ''pq_stream''") (auto simp: pq_stream_def)
  obtain tot where tot: "stream_table (st_store w) io (st_host w) (st_new w) cs os pid n parts fs dst fsys = (d, Inr tot)"
      "k = KAtom KJ tot"
    using run x fs by (auto simp: pq_stream_def rbind_Inr_iff split: prod.splits)
  show ?thesis
    using stream_replaced[OF tot(1)] fs tot(2) by auto
qed

lemma stream_few_rows:
  assumes "stream_checks fs dst fsys = Inr (lts, dst')" "fs_srcs fs = [s]" "true_total (flat_rgs fs) < 2 ^ 63"
  shows "true_total (flat_rgs fs) < 2 ^ 31 \<and> fs_lts fs = map Inr lts"
proof -
  let ?n = "sum_list (map unat (src_rg_rows s))"
  have "map (\<lambda>g. unat (src_rg_rows s ! g)) [0..<length (src_rg_rows s)] = map unat (src_rg_rows s)"
    by (rule nth_equalityI) simp_all
  then have t: "true_total (flat_rgs fs) = ?n"
    by (simp add: flat_single[OF assms(2)] true_total_def o_def)
  have "sint (of_nat ?n :: i64) = int ?n"
    using assms(3) unfolding t by (simp add: signed_of_nat signed_take_bit_int_eq_self)
  moreover have "sint (of_nat ?n :: i64) \<le> 2 ^ 31 - 1" "mapR (\<lambda>t. t) (fs_lts fs) = Inr lts"
    using assms(1,2) by (auto simp: stream_checks_def sum_i64_nat rbind_Inr_iff Let_def split: if_splits option.splits node.splits)
  ultimately show ?thesis
    using mapR_self t by auto
qed

lemma stream_as_read:
  assumes site: "site_ok w wd" and ra: "readers_agree (st_store w) wd" "cast_scales (st_host w)" and sp: "splayable w p"
    and st: "pq_stream w io cs os pid n parts x fsys = (d, Inr k)" "stream_args x = Inr (p, dst)"
    and rd: "pq_read w y (Inr ans)" "read_args y ''pq_read'' = Inr (whole_file p)"
  shows "\<exists>fls fs lts. open_set (st_show w) (st_load w) [(p, p)] ''pq_read'' = Inr fs \<and> fs_lts fs = map Inr lts \<and>
    last d (trim_end CHR ''/'' dst) = Some (NDir fls) \<and>
    ans_names ans = map (\<lambda>n. h_intern (st_host w) (bytes_of n)) (fs_names fs) \<and>
    (\<forall>c < length (fs_names fs). k = KAtom KJ (of_nat (length (ans_cells (st_host w) ans c))) \<and>
       (\<exists>b. fls (fs_names fs ! c) = Some b \<and>
         load_splay b = (nat (lts ! c), length (ans_cells (st_host w) ans c), cells_bytes cs (ans_cells (st_host w) ans c))))"
proof -
  let ?h = "st_host w" and ?so = "st_store w"
  obtain fs lts fls tot where o: "open_set (st_show w) (st_load w) [(p, p)] ''pq_stream'' = Inr fs" and k: "k = KAtom KJ tot"
      and ch: "stream_checks fs dst fsys = Inr (lts, trim_end CHR ''/'' dst)"
      and dir: "stream_dir ?so io ?h (st_new w) cs (hd (fs_srcs fs)) (fs_names fs) lts = Inr (fls, tot)"
      and new: "last d (trim_end CHR ''/'' dst) = Some (NDir fls)"
    using stream_run[OF st] by blast
  have world: "world_ok ?so ?h wd" "host_world ?h (st_new w)"
    using site by (auto simp: site_ok_def world_ok_def host_world_def)
  have "fs_srcs fs \<noteq> [] \<and> st_load w [(p, p)] = Some (map Inr (fs_srcs fs))"
    using open_set_Inr[OF o] site by (auto simp: site_ok_def)
  then obtain s where s: "fs_srcs fs = [s]"
    using site unfolding site_ok_def by (metis One_nat_def length_0_conv length_Suc_conv length_map list.size(3,4) Suc_eq_plus1 add_0)
  note agr = opened_agrees[OF site o]
  have names: "distinct (''.d'' # fs_names fs)" "length (fs_names fs) < 2 ^ 31" "\<forall>r \<in> set (src_rg_rows s). 0 \<le> sint r"
      "true_total (flat_rgs fs) < 2 ^ 63"
    using sp o s by (auto simp: splayable_def)
  have few: "true_total (flat_rgs fs) < 2 ^ 31" and lts: "fs_lts fs = map Inr lts"
    using stream_few_rows[OF ch s names(4)] by auto
  have n: "length lts = length (fs_names fs)"
    using agr lts by (simp add: set_agrees_def)
  have o': "open_set (st_show w) (st_load w) [(p, p)] ''pq_read'' = Inr fs"
    using open_set_who[OF o] .
  obtain sl where sl: "select fs None ''pq_read'' = Inr sl"
      and run: "read_set ?so ?h (st_pages w) (st_new w) (st_threads w) fs sl 0 (n_rg fs) False ''pq_read'' (Inr ans)"
    using rd o' by (auto simp: pq_read_def whole_file_def and_then_Inr Let_def)
  have out: "sel_out sl = [0..<length (fs_names fs)]"
    using sl by (auto simp: select_Inr_iff resolve_def)
  have "true_total (flat_rgs fs) < 2 ^ 64"
    using few by simp
  from read_window_cells[OF world(1) _ agr sl this run] site
  have cells: "ans_names ans = map (\<lambda>c. h_intern ?h (bytes_of (fs_names fs ! c))) (sel_out sl)"
      "\<forall>c < length lts. ans_cells ?h ans c = window_cells wd fs sl 0 (n_rg fs) c"
    by (auto simp: site_ok_def out n)
  have dir': "stream_dir ?so io ?h (st_new w) cs s (fs_names fs) lts = Inr (fls, tot)"
    using dir s by simp
  have types: "set lts \<subseteq> L_TYPES"
    using opened_types[OF agr lts, of s] s l_type_of_range by (fastforce simp: in_set_conv_nth)
  note bat = conjunct2[OF conjunct2[OF conjunct2[OF splay_files[OF dir' names(1) n names(2) world(2,1)]]]]
  have same: "ans_cells ?h ans c = stream_cells wd s lts c (length (src_rg_rows s)) \<and>
      length (stream_cells wd s lts c (length (src_rg_rows s))) < 2 ^ 31" if "c < length lts" for c
    using window_stream[OF world(1) ra s agr lts sl that bat names(3)] cells(2) that few by fastforce
  have few_cells: "\<forall>c < length (fs_names fs). length (stream_cells wd s lts c (length (src_rg_rows s))) < 2 ^ 31"
    using same n by simp
  note sld = conjunct2[OF splay_loads[OF dir' names(1) n names(2) types world(2,1) few_cells]]
  have load: "\<forall>c < length (fs_names fs). unat tot = length (ans_cells ?h ans c) \<and> (\<exists>b. fls (fs_names fs ! c) = Some b \<and>
      load_splay b = (nat (lts ! c), unat tot, cells_bytes cs (ans_cells ?h ans c)))"
  proof (intro allI impI)
    fix c
    assume c: "c < length (fs_names fs)"
    then have e: "ans_cells ?h ans c = stream_cells wd s lts c (length (src_rg_rows s))"
      using same n by simp
    show "unat tot = length (ans_cells ?h ans c) \<and> (\<exists>b. fls (fs_names fs ! c) = Some b \<and>
      load_splay b = (nat (lts ! c), unat tot, cells_bytes cs (ans_cells ?h ans c)))"
      unfolding e using spec[OF sld, of c] c by blast
  qed
  have nm: "ans_names ans = map (\<lambda>n. h_intern ?h (bytes_of n)) (fs_names fs)"
    unfolding cells(1) out by (intro nth_equalityI) simp_all
  have "k = KAtom KJ (of_nat (length (ans_cells ?h ans c)))" if "c < length (fs_names fs)" for c
  proof -
    have "of_nat (unat tot) = tot"
      by simp
    then show ?thesis
      using load that k by metis
  qed
  with load nm new lts o' show ?thesis
    by auto
qed


section \<open>Properties\<close>

text \<open>C7
  \<^verbatim>\<open>pq_stream\<close> leaves on disk what \<^verbatim>\<open>pq_read\<close> answers in memory. A loader
  takes from each column file of the splay the type, the number of rows and the very elements of
  that column in the table \<^verbatim>\<open>pq_read\<close> answers for the same file, under the same names, and
  the count the stream reports is the number of rows of the table. The stream brings every
  column through Arrow's arrays and its cast, the read decodes the fixed-width ones in place, on
  any number of threads; what the crate's two readers owe each other is a hypothesis about the
  rows they hold, not about the values either path makes of them.
\<close>

theorem stream_matches_read:
  assumes "site_ok w wd" "readers_agree (st_store w) wd" "cast_scales (st_host w)" "splayable w p"
    and "pq_stream w io cs os pid n parts x fsys = (d, Inr k)" "stream_args x = Inr (p, dst)"
    and "pq_read w y (Inr ans)" "read_args y ''pq_read'' = Inr (whole_file p)"
  shows "\<exists>fls fs lts. open_set (st_show w) (st_load w) [(p, p)] ''pq_read'' = Inr fs \<and> fs_lts fs = map Inr lts \<and>
    last d (trim_end CHR ''/'' dst) = Some (NDir fls) \<and>
    ans_names ans = map (\<lambda>n. h_intern (st_host w) (bytes_of n)) (fs_names fs) \<and>
    (\<forall>c < length (fs_names fs). k = KAtom KJ (of_nat (length (ans_cells (st_host w) ans c))) \<and>
       (\<exists>b. fls (fs_names fs ! c) = Some b \<and>
         load_splay b = (nat (lts ! c), length (ans_cells (st_host w) ans c), cells_bytes cs (ans_cells (st_host w) ans c))))"
  by (rule stream_as_read[OF assms])

text \<open>The sample file, with a batch for Arrow beside its chunk.\<close>

definition both_nulls :: null_buf where
  "both_nulls = \<lparr>nb_chunks = [], nb_rem_len = 2, nb_rem = 1\<rparr>"

definition both_arr :: arr where
  "both_arr = Arr64 (Timestamp Nanosecond None) [946684800000001000, 0] (Some both_nulls)"

definition both_store :: "(chunk_rows \<times> i16) store" where
  "both_store = sample_store\<lparr>so_batches := (\<lambda>s g msk.
     if msk = [0] \<and> s = sample_src \<and> g = 0 then Inr [Inr ([both_arr], 2)] else Inl ''no pages'')\<rparr>"

definition both_world :: "(chunk_rows \<times> i16) world" where
  "both_world = sample_world\<lparr>wd_acol := (\<lambda>s g c lt.
     case image (h_intern sample_host) (h_deref sample_host) (h_cast sample_host) lt both_arr of
       Inr v \<Rightarrow> pay_cells v | Inl e \<Rightarrow> [])\<rparr>"

definition both_site :: "(chunk_rows \<times> i16) site" where
  "both_site = ex_site\<lparr>st_store := both_store\<rparr>"

lemma both_arr_ok: "nulls_ok (Some both_nulls) 2" "nb_valid both_nulls 0" "\<not> nb_valid both_nulls (Suc 0)"
  by (simp_all add: nulls_ok_def both_nulls_def nb_ok_def nb_length_def nb_valid_def)

lemma both_rows: "opt_rows [946684800000001000, 0 :: i64] (Some both_nulls) = [Some 946684800000001000, None]"
  by (simp add: opt_rows_def both_arr_ok)

lemma both_batches: "so_batches both_store s g msk = Inr (map Inr xs) \<longleftrightarrow>
    msk = [0] \<and> s = sample_src \<and> g = 0 \<and> xs = [([both_arr], 2)]"
  by (auto simp: both_store_def map_eq_Cons_conv)

lemma both_ok: "site_ok both_site both_world" "readers_agree both_store both_world" "cast_scales sample_host"
proof -
  have "world_batches sample_host both_world s g msk xs" if "so_batches both_store s g msk = Inr (map Inr xs)" for s g msk xs
    using that both_arr_ok(1)
    by (auto simp: both_batches world_batches_def both_world_def both_arr_def rbind_Inr_iff numeral_2_eq_2)
      (simp_all add: sample_src_def)
  then have "world_ok both_store sample_host both_world"
    using sample_ok(1) by (simp add: world_ok_def both_store_def both_world_def)
  then show "site_ok both_site both_world"
    using ex_site_ok by (simp add: site_ok_def both_site_def) (simp add: ex_site_def)
  show "cast_scales sample_host"
    by (simp add: cast_scales_def sample_host_def)
  show "readers_agree both_store both_world"
    unfolding readers_agree_def both_batches
    by (auto simp: plain_arr_def both_arr_def both_rows both_world_def sample_world_def sample_rows_def raw_of_def
        col_type_def leaf_of_def leaf_at_def sample_src_def)
qed

lemma both_splayable: "splayable both_site p"
proof -
  have "open_set (st_show both_site) (st_load both_site) [(p, p)] ''pq_stream'' = Inr sample_set"
    using ex_open[of p p "''pq_stream''"] by (simp add: both_site_def)
  then show ?thesis
    by (simp add: splayable_def flat_single[of sample_set sample_src] true_total_def) (simp add: sample_set_def sample_src_def flat_rgs_def)
qed


lemma both_read: "pq_read both_site (KList [KSym ''a'', KSym []]) (Inr (RdTable [number_intern [116]] [Pay64 [1000, NJ]]))"
    "read_args (KList [KSym ''a'', KSym []]) ''pq_read'' = Inr (whole_file ''a'')"
proof -
  have f: "files_of (KSym ''a'') who = Inr [(''a'', ''a'')]" for who
    by (simp add: files_of_def syms_of_def ptr_str_def utf8_ok_def path_of_def)
  show a: "read_args (KList [KSym ''a'', KSym []]) ''pq_read'' = Inr (whole_file ''a'')"
    by (simp add: read_args_def ktype_def rd_opts_def f ex_cols whole_file_def)
  have n: "n_rg sample_set = 1"
    by (simp add: n_rg_def sample_set_def sample_src_def)
  have o: "open_set (st_show both_site) (st_load both_site) [(''a'', ''a'')] ''pq_read'' = Inr sample_set"
    using ex_open[of "''a''" "''a''" "''pq_read''"] by (simp add: both_site_def)
  have r: "read_set both_store sample_host sample_pages new_vec 1 sample_set sample_sel 0 1 False ''pq_read''
      (Inr (RdTable [number_intern [116]] [Pay64 [1000, NJ]]))"
    unfolding both_store_def by (rule sample_read_with)
  show "pq_read both_site (KList [KSym ''a'', KSym []]) (Inr (RdTable [number_intern [116]] [Pay64 [1000, NJ]]))"
    using r unfolding pq_read_def Let_def a and_then_Inr by (simp add: whole_file_def o sample_ok(3) n) (simp add: both_site_def ex_site_def)
qed

lemma both_fill:
  "fill_col number_intern rd deref cast KP (new_vec KP 2) 0 both_arr sc_new = Inr (Pay64 [1000, NJ], sc_new)"
proof -
  have "fill_prim signed_native [946684800000001000, 0] (Some both_nulls) [0, 0] 0 NJ NS2000 =
      write_at 0 (prim_image signed_native [946684800000001000, 0] (Some both_nulls) NJ NS2000) [0, 0]"
    using both_arr_ok(1) by (intro fill_prim_image) (simp_all add: numeral_2_eq_2)
  also have "\<dots> = [1000, NJ]"
    using both_arr_ok(1) by (subst plain_image) (simp_all add: both_rows row_value_def patch_shift_def signed_native_def
      write_at_def NJ_def NS2000_def Let_def numeral_2_eq_2)
  finally show ?thesis
    by (simp add: fill_col_def prim64_def both_arr_def new_vec_def to_type_def numeral_2_eq_2)
qed

lemma both_dir: "\<exists>fls. stream_dir both_store ex_io sample_host new_vec cs sample_src [''t''] [KP] = Inr (fls, 2)"
proof -
  have "so_batches both_store sample_src 0 [0] = Inr [Inr ([both_arr], 2)]" "so_open both_store sample_src = Inr ()"
    by (simp_all add: both_store_def sample_store_def)
  moreover have "length (src_rg_rows sample_src) = 1" "h_intern sample_host = number_intern"
    by (simp_all add: sample_src_def sample_host_def)
  ultimately show ?thesis
    by (simp add: stream_dir_def write_manifest_def create_col_def hdr_syms_def hdr_fixed_def f_create_def f_write_def
      ex_io_def stream_rg_def stream_batch_def stream_col_def
      both_fill[simplified] append_chunk_def patch_col_def patch_count_def f_seek_def)
qed

lemma both_stream: "\<exists>d. pq_stream both_site ex_io cs ex_node_os 7 0 [] (KSyms [''a'', ''t'']) Map.empty = (d, Inr (KAtom KJ 2))"
    "stream_args (KSyms [''a'', ''t'']) = Inr (''a'', ''t'')"
proof -
  show a: "stream_args (KSyms [''a'', ''t'']) = Inr (''a'', ''t'')"
    by (simp add: stream_args_def files_of_def syms_of_def ptr_str_def utf8_ok_def path_of_def)
  have o: "open_set (st_show both_site) (st_load both_site) [(''a'', ''a'')] ''pq_stream'' = Inr sample_set"
    using ex_open[of "''a''" "''a''" "''pq_stream''"] by (simp add: both_site_def)
  obtain fls where dir: "stream_dir both_store ex_io sample_host new_vec cs sample_src [''t''] [KP] = Inr (fls, 2)"
    using both_dir by blast
  have ch: "stream_checks sample_set ''t'' Map.empty = Inr ([KP], ''t'')"
    by (simp add: stream_checks_def sample_set_def sample_src_def trim_end_def sum_i64_def)
  have s: "hd (fs_srcs sample_set) = sample_src" "fs_names sample_set = [''t'']"
    by (simp_all add: sample_set_def)
  have p: "st_store both_site = both_store" "st_host both_site = sample_host" "st_new both_site = new_vec"
    by (simp_all add: both_site_def ex_site_def)
  show "\<exists>d. pq_stream both_site ex_io cs ex_node_os 7 0 [] (KSyms [''a'', ''t'']) Map.empty = (d, Inr (KAtom KJ 2))"
    unfolding pq_stream_def a p using o dir
    by (simp add: stream_table_def ch s publish_def scratch_new_def ex_node_os_def Let_def)
qed

theorem stream_matches_read_witness:
  "\<exists>d fls b. pq_stream both_site ex_io (\<lambda>p. []) ex_node_os 7 0 [] (KSyms [''a'', ''t'']) Map.empty = (d, Inr (KAtom KJ 2)) \<and>
     last d ''t'' = Some (NDir fls) \<and> fls ''t'' = Some b \<and>
     load_splay b = (12, 2, cells_bytes (\<lambda>p. []) [C64 1000, C64 NJ])"
proof -
  obtain d where run: "pq_stream both_site ex_io (\<lambda>p. []) ex_node_os 7 0 [] (KSyms [''a'', ''t'']) Map.empty = (d, Inr (KAtom KJ 2))"
    using both_stream(1) by blast
  have p: "st_store both_site = both_store" "st_host both_site = sample_host"
    by (simp_all add: both_site_def ex_site_def)
  have o: "open_set (st_show both_site) (st_load both_site) [(''a'', ''a'')] ''pq_read'' = Inr sample_set"
    using ex_open[of "''a''" "''a''" "''pq_read''"] by (simp add: both_site_def)
  obtain fls lts where f: "fs_lts sample_set = map Inr lts" "last d (trim_end CHR ''/'' ''t'') = Some (NDir fls)"
      "\<forall>c < length (fs_names sample_set). \<exists>b. fls (fs_names sample_set ! c) = Some b \<and>
         load_splay b = (nat (lts ! c), length (ans_cells sample_host (RdTable [number_intern [116]] [Pay64 [1000, NJ]]) c),
           cells_bytes (\<lambda>p. []) (ans_cells sample_host (RdTable [number_intern [116]] [Pay64 [1000, NJ]]) c))"
    using stream_matches_read[OF both_ok(1) both_ok(2)[folded p(1)] both_ok(3)[folded p(2)] both_splayable run both_stream(2) both_read] o
    unfolding p by auto
  have "trim_end CHR ''/'' ''t'' = ''t''"
    by (simp add: trim_end_def)
  moreover have "lts = [KP]"
    using f(1) by (auto simp: sample_set_def map_eq_Cons_conv)
  ultimately show ?thesis
    using run f(2,3) by (auto simp: sample_set_def ans_cells_def numeral_2_eq_2)
qed


end
